(* ===== verification/Prelude.thy ===== *)
theory Prelude
  imports Main "HOL-Library.Multiset" "HOL-Library.Word"
begin

text \<open>
  Shared vocabulary of the development: bytes, Go strings (byte sequences), runes, uuids and
  time stamps (nanoseconds since Go's zero time); the collections of hints the component theories use; generic facts on lists and
  association lists; and the model of Go's \<open>sort.Slice\<close> and \<open>sort.SliceStable\<close>: a stable
  insertion sort driven by the caller's \<open>lt\<close> function, with the locale \<open>weak_order\<close> that says
  what such a function must satisfy and what the sorted slice is then.
\<close>

section \<open>Types and hint collections\<close>

type_synonym byte = "8 word"
type_synonym gostring = "byte list"
type_synonym rune = nat
type_synonym uuid = "128 word"
type_synonym time = int

named_theorems inv_intros "rules that establish or keep an invariant"

text \<open>A Go string literal that is plain ASCII.\<close>

definition str :: "string \<Rightarrow> gostring" where
  "str cs = map of_char cs"

lemma str_Nil [simp]: "str '''' = []"
  by (simp add: str_def)

lemma str_Cons [simp]: "str (c # cs) = of_char c # str cs"
  by (simp add: str_def)

lemma length_str [simp]: "length (str cs) = length cs"
  by (simp add: str_def)

section \<open>Lists\<close>

lemma length_append_Nil_iff: "length (xs @ ys) \<le> length xs \<longleftrightarrow> ys = []"
  by simp

lemma take_drop_slice: "i \<le> j \<Longrightarrow> take i xs @ take (j - i) (drop i xs) = take j xs"
  by (metis le_add_diff_inverse take_add)

lemma dropWhile_append_all: "list_all P xs \<Longrightarrow> dropWhile P (xs @ ys) = dropWhile P ys"
  by (induction xs) auto

lemma map_of_distinct_nth:
  "distinct (map fst xs) \<Longrightarrow> i < length xs \<Longrightarrow> map_of xs (fst (xs ! i)) = Some (snd (xs ! i))"
  by (metis map_of_eq_Some_iff nth_mem prod.collapse)

lemma mset_take_le: "mset (take m xs) \<subseteq># mset xs"
  by (metis append_take_drop_id mset_append mset_subset_eq_add_left)

lemma distinct_submset: "mset xs \<subseteq># mset ys \<Longrightarrow> distinct ys \<Longrightarrow> distinct xs"
proof -
  assume "mset xs \<subseteq># mset ys"
  then obtain zs where "mset ys = mset xs + mset zs"
    by (metis ex_mset subset_mset.le_iff_add)
  then have "mset (xs @ zs) = mset ys" by simp
  then show "distinct ys \<Longrightarrow> distinct xs" by (metis distinct_append mset_eq_imp_distinct_iff)
qed

lemma submset_size_eq: "M \<subseteq># N \<Longrightarrow> size M = size N \<Longrightarrow> M = N"
  by (metis mset_subset_size nless_le subset_mset.le_neq_trans)

lemma length_filter_update:
  "i < length xs \<Longrightarrow>
     length (filter P (xs[i := x])) + (if P (xs ! i) then 1 else 0) = length (filter P xs) + (if P x then 1 else 0)"
proof (induction xs arbitrary: i)
  case (Cons a xs)
  show ?case
  proof (cases i)
    case (Suc j)
    with Cons.IH [of j] Cons.prems show ?thesis by simp
  qed simp
qed simp

text \<open>Looking a row up by a key column.\<close>

lemma find_key_None: "find (\<lambda>x. k x = i) xs = None \<longleftrightarrow> i \<notin> k ` set xs"
  by (induction xs) auto

lemma find_key_Some: "find (\<lambda>x. k x = i) xs = Some x \<Longrightarrow> x \<in> set xs \<and> k x = i"
  by (induction xs) (auto split: if_splits)

lemma find_key_iff:
  "distinct (map k xs) \<Longrightarrow> find (\<lambda>x. k x = i) xs = Some x \<longleftrightarrow> x \<in> set xs \<and> k x = i"
  by (induction xs) auto

lemma find_append: "find P (xs @ ys) = (case find P xs of None \<Rightarrow> find P ys | Some x \<Rightarrow> Some x)"
  by (induction xs) auto

lemma find_key_map:
  "(\<And>x. k (f x) = k x) \<Longrightarrow> find (\<lambda>x. k x = i) (map f xs) = map_option f (find (\<lambda>x. k x = i) xs)"
  by (induction xs) auto

text \<open>An order that the source leaves open (the entries of a Go map, rows of equal rank) is a function
  that permutes the list.\<close>

definition reorders :: "('a list \<Rightarrow> 'a list) \<Rightarrow> bool" where
  "reorders sh \<longleftrightarrow> (\<forall>xs. mset (sh xs) = mset xs)"

lemma reorders_id [simp]: "reorders (\<lambda>xs. xs)" "reorders rev"
  by (simp_all add: reorders_def)

lemma reorders_mset: "reorders sh \<Longrightarrow> mset (sh xs) = mset xs"
  by (simp add: reorders_def)

lemma reorders_set: "reorders sh \<Longrightarrow> set (sh xs) = set xs"
  by (metis reorders_mset set_mset_mset)

lemma reorders_Nil_iff: "reorders sh \<Longrightarrow> sh xs = [] \<longleftrightarrow> xs = []"
  by (metis reorders_mset mset_zero_iff)

section \<open>Sorting with a caller-supplied order\<close>

text \<open>
  \<open>sort.SliceStable(xs, lt)\<close>. An element moves left over another only when \<open>lt\<close> says it is
  strictly smaller, so equivalent elements keep their order.
\<close>

fun ins_by :: "('a \<Rightarrow> 'a \<Rightarrow> bool) \<Rightarrow> 'a \<Rightarrow> 'a list \<Rightarrow> 'a list" where
  "ins_by lt x [] = [x]"
| "ins_by lt x (y # ys) = (if lt y x then y # ins_by lt x ys else x # y # ys)"

fun sort_by :: "('a \<Rightarrow> 'a \<Rightarrow> bool) \<Rightarrow> 'a list \<Rightarrow> 'a list" where
  "sort_by lt [] = []"
| "sort_by lt (x # xs) = ins_by lt x (sort_by lt xs)"

lemma mset_ins_by [simp]: "mset (ins_by lt x xs) = add_mset x (mset xs)"
  by (induction xs) auto

lemma mset_sort_by [simp]: "mset (sort_by lt xs) = mset xs"
  by (induction xs) auto

lemma set_sort_by [simp]: "set (sort_by lt xs) = set xs"
  by (metis mset_sort_by set_mset_mset)

lemma length_sort_by [simp]: "length (sort_by lt xs) = length xs"
  by (metis mset_sort_by size_mset)

lemma distinct_sort_by [simp]: "distinct (sort_by lt xs) = distinct xs"
  by (metis mset_eq_imp_distinct_iff mset_sort_by)

lemma sort_by_Nil_iff [simp]: "sort_by lt xs = [] \<longleftrightarrow> xs = []"
  by (metis length_0_conv length_sort_by)

lemma ins_by_id: "list_all (\<lambda>y. \<not> lt y x) xs \<Longrightarrow> ins_by lt x xs = x # xs"
  by (cases xs) auto

lemma sort_by_id: "sorted_wrt (\<lambda>a b. \<not> lt b a) xs \<Longrightarrow> sort_by lt xs = xs"
  by (induction xs) (auto simp: ins_by_id list_all_iff)

lemma sort_by_cong:
  "(\<And>x y. x \<in> set xs \<Longrightarrow> y \<in> set xs \<Longrightarrow> lt x y = lt' x y) \<Longrightarrow> sort_by lt xs = sort_by lt' xs"
proof (induction xs)
  case Nil
  then show ?case by simp
next
  case (Cons x xs)
  have ins: "set ys \<subseteq> set xs \<Longrightarrow> ins_by lt x ys = ins_by lt' x ys" for ys
    using Cons.prems by (induction ys) auto
  with Cons show ?case by simp
qed

lemma sorted_wrt_strictI:
  "sorted_wrt (\<lambda>a b. \<not> lt b a) xs \<Longrightarrow> distinct xs \<Longrightarrow>
     (\<And>a b. a \<in> set xs \<Longrightarrow> b \<in> set xs \<Longrightarrow> a \<noteq> b \<Longrightarrow> lt a b \<or> lt b a) \<Longrightarrow> sorted_wrt lt xs"
proof (induction xs)
  case (Cons x xs)
  have "lt x y" if "y \<in> set xs" for y
    using Cons.prems(1,2) Cons.prems(3) [of x y] that by auto
  moreover have "sorted_wrt lt xs" using Cons by simp
  ultimately show ?case by simp
qed simp

lemma sorted_wrt_total: "sorted_wrt lt xs \<Longrightarrow> a \<in> set xs \<Longrightarrow> b \<in> set xs \<Longrightarrow> a \<noteq> b \<Longrightarrow> lt a b \<or> lt b a"
  by (induction xs) auto

text \<open>
  What a \<open>lt\<close> function has to satisfy on the elements it is called with: it is a strict weak
  order there (irreflexive and negatively transitive gives transitive, together with asymmetry).
\<close>

locale weak_order =
  fixes lt :: "'a \<Rightarrow> 'a \<Rightarrow> bool" and S :: "'a set"
  assumes asym: "a \<in> S \<Longrightarrow> b \<in> S \<Longrightarrow> lt a b \<Longrightarrow> \<not> lt b a"
    and neg_trans: "a \<in> S \<Longrightarrow> b \<in> S \<Longrightarrow> c \<in> S \<Longrightarrow> lt a c \<Longrightarrow> lt a b \<or> lt b c"
begin

lemma irrefl: "a \<in> S \<Longrightarrow> \<not> lt a a"
  using asym by blast

lemma ge_trans: "a \<in> S \<Longrightarrow> b \<in> S \<Longrightarrow> c \<in> S \<Longrightarrow> \<not> lt b a \<Longrightarrow> \<not> lt c b \<Longrightarrow> \<not> lt c a"
  using neg_trans by blast

lemma sorted_ins_by:
  assumes "insert x (set ys) \<subseteq> S" and "sorted_wrt (\<lambda>a b. \<not> lt b a) ys"
  shows "sorted_wrt (\<lambda>a b. \<not> lt b a) (ins_by lt x ys)"
  using assms
proof (induction ys)
  case Nil
  then show ?case by simp
next
  case (Cons y ys)
  show ?case
  proof (cases "lt y x")
    case True
    have "set (ins_by lt x ys) = insert x (set ys)"
      by (metis mset_ins_by set_mset_add_mset_insert set_mset_mset)
    with True Cons asym show ?thesis by auto
  next
    case False
    with Cons.prems show ?thesis
      using ge_trans [of x y] by (auto dest: ge_trans)
  qed
qed

lemma sorted_sort_by:
  "set xs \<subseteq> S \<Longrightarrow> sorted_wrt (\<lambda>a b. \<not> lt b a) (sort_by lt xs)"
  by (induction xs) (auto intro!: sorted_ins_by)

lemma filter_ins_by:
  assumes "insert x (set ys) \<subseteq> S" and "a \<in> S" and "sorted_wrt (\<lambda>a b. \<not> lt b a) ys"
  shows "filter (\<lambda>y. \<not> lt a y \<and> \<not> lt y a) (ins_by lt x ys)
       = filter (\<lambda>y. \<not> lt a y \<and> \<not> lt y a) (x # ys)"
  using assms
proof (induction ys)
  case Nil
  then show ?case by simp
next
  case (Cons y ys)
  show ?case
  proof (cases "lt y x")
    case True
    with Cons.prems have "\<not> (\<not> lt a x \<and> \<not> lt x a) \<or> \<not> (\<not> lt a y \<and> \<not> lt y a)"
      using neg_trans [of y a x] by auto
    with True Cons show ?thesis by auto
  qed simp
qed

text \<open>Stability: the elements equivalent to any given one keep the order of the input.\<close>

lemma stable_sort_by:
  "set xs \<subseteq> S \<Longrightarrow> a \<in> S \<Longrightarrow>
     filter (\<lambda>y. \<not> lt a y \<and> \<not> lt y a) (sort_by lt xs)
   = filter (\<lambda>y. \<not> lt a y \<and> \<not> lt y a) xs"
proof (induction xs)
  case (Cons x xs)
  then show ?case
    using filter_ins_by [of x "sort_by lt xs" a] sorted_sort_by [of xs] by simp
qed simp

text \<open>
  When no two different elements are equivalent, the result does not depend on the sorting
  algorithm: any sorted permutation is the one computed here. This covers \<open>sort.Slice\<close>, which is
  not stable.
\<close>

lemma sort_by_unique:
  assumes total: "\<And>a b. a \<in> set xs \<Longrightarrow> b \<in> set xs \<Longrightarrow> a \<noteq> b \<Longrightarrow> lt a b \<or> lt b a"
    and "set xs \<subseteq> S" and "mset ys = mset xs" and "sorted_wrt (\<lambda>a b. \<not> lt b a) ys"
  shows "ys = sort_by lt xs"
  using assms
proof (induction ys arbitrary: xs)
  case Nil
  then show ?case by simp
next
  case (Cons y ys)
  have set_eq: "set (y # ys) = set xs"
    using Cons.prems(3) by (metis set_mset_mset)
  obtain z zs where zs: "sort_by lt xs = z # zs"
    using Cons.prems(3) by (cases "sort_by lt xs") auto
  have srt: "sorted_wrt (\<lambda>a b. \<not> lt b a) (z # zs)"
    using sorted_sort_by [OF Cons.prems(2)] zs by simp
  have zmem: "z \<in> set (y # ys)" and ymem: "y \<in> set (z # zs)"
    using set_eq zs by (metis list.set_intros(1) set_sort_by)+
  have "\<not> lt z y" using zmem Cons.prems(4) Cons.prems(2) set_eq irrefl by auto
  moreover have "\<not> lt y z"
    using ymem srt Cons.prems(2) zmem set_eq irrefl by auto
  ultimately have yz: "y = z"
    using Cons.prems(1) zmem set_eq by (metis list.set_intros(1))
  have m: "mset ys = mset zs"
    using Cons.prems(3) zs yz by (metis add_mset_add_mset_same_iff mset.simps(2) mset_sort_by)
  have sub: "set zs \<subseteq> set xs" using zs by (metis set_sort_by set_subset_Cons)
  have "ys = sort_by lt zs"
  proof (rule Cons.IH)
    show "a \<in> set zs \<Longrightarrow> b \<in> set zs \<Longrightarrow> a \<noteq> b \<Longrightarrow> lt a b \<or> lt b a" for a b
      using Cons.prems(1) sub by blast
  qed (use sub Cons.prems m in auto)
  also have "\<dots> = zs" using srt by (intro sort_by_id) simp
  finally show ?case using zs yz by simp
qed

corollary sort_by_perm:
  assumes "\<And>a b. a \<in> set xs \<Longrightarrow> b \<in> set xs \<Longrightarrow> a \<noteq> b \<Longrightarrow> lt a b \<or> lt b a"
    and "set xs \<subseteq> S" and "mset ys = mset xs"
  shows "sort_by lt ys = sort_by lt xs"
proof -
  have "set ys = set xs" using assms(3) by (metis set_mset_mset)
  then show ?thesis
    using assms sorted_sort_by [of ys] by (intro sort_by_unique) auto
qed

end

end
