(* ===== verification/Go_Errors.thy ===== *)
theory Go_Errors
  imports Prelude
begin

text \<open>
  Go error values and the HTTP exchange with the sidecar. An error is a message, a message wrapped
  around another error (\<open>fmt.Errorf\<close> with \<open>%w\<close>), or one of the two sentinels the program compares
  with: \<open>pgx.ErrNoRows\<close> and \<open>store.ErrNotFound\<close>. A fallible function returns \<open>Inl\<close> the error or
  \<open>Inr\<close> the value. The reply to an HTTP request is data: it may not have been sent, may have failed
  on the way, or is a status and a body.
\<close>

section \<open>Errors\<close>

datatype go_error =
    Plain gostring
  | Wrapped gostring go_error
  | ErrNoRows
  | ErrNotFound

fun err_text :: "go_error \<Rightarrow> gostring" where
  "err_text (Plain m) = m"
| "err_text (Wrapped m e) = m @ str '': '' @ err_text e"
| "err_text ErrNoRows = str ''no rows in result set''"
| "err_text ErrNotFound = str ''not found''"

text \<open>\<open>errors.Is\<close>: the error or one it wraps is the sentinel.\<close>

fun err_is :: "go_error \<Rightarrow> go_error \<Rightarrow> bool" where
  "err_is (Wrapped m e) s = (Wrapped m e = s \<or> err_is e s)"
| "err_is e s = (e = s)"

lemma err_is_sentinel [simp]: "err_is ErrNotFound ErrNotFound" "\<not> err_is ErrNoRows ErrNotFound"
  "\<not> err_is (Plain m) ErrNotFound" "err_is (Wrapped m e) ErrNotFound = err_is e ErrNotFound"
  by simp_all

text \<open>The verb \<open>%d\<close>.\<close>

fun dec_nat :: "nat \<Rightarrow> gostring" where
  "dec_nat n = (if n < 10 then [of_nat (48 + n)] else dec_nat (n div 10) @ [of_nat (48 + n mod 10)])"

declare dec_nat.simps [simp del]

definition dec_int :: "int \<Rightarrow> gostring" where
  "dec_int z = (if z < 0 then str ''-'' @ dec_nat (nat (- z)) else dec_nat (nat z))"

text \<open>Running a fallible step: the first error ends the function.\<close>

definition bind_err :: "go_error + 'a \<Rightarrow> ('a \<Rightarrow> go_error + 'b) \<Rightarrow> go_error + 'b" where
  "bind_err r f = (case r of Inl e \<Rightarrow> Inl e | Inr x \<Rightarrow> f x)"

definition wrap_err :: "gostring \<Rightarrow> go_error + 'a \<Rightarrow> go_error + 'a" where
  "wrap_err m r = (case r of Inl e \<Rightarrow> Inl (Wrapped m e) | Inr x \<Rightarrow> Inr x)"

lemma bind_err_simps [simp]: "bind_err (Inl e) f = Inl e" "bind_err (Inr x) f = f x"
  by (simp_all add: bind_err_def)

lemma wrap_err_simps [simp]: "wrap_err m (Inl e) = Inl (Wrapped m e)" "wrap_err m (Inr x) = Inr x"
  by (simp_all add: wrap_err_def)

lemma bind_err_Inr_iff: "bind_err r f = Inr y \<longleftrightarrow> (\<exists>x. r = Inr x \<and> f x = Inr y)"
  by (cases r) auto

lemma wrap_err_Inr_iff [simp]: "wrap_err m r = Inr y \<longleftrightarrow> r = Inr y"
  by (cases r) auto

section \<open>The HTTP exchange with the sidecar\<close>

datatype reply =
    Not_sent go_error          \<comment> \<open>marshalling or building the request failed\<close>
  | Transport_failed go_error  \<comment> \<open>\<open>http.Client.Do\<close> returned an error\<close>
  | Response nat gostring      \<comment> \<open>status and body\<close>

definition status_ok :: nat where
  "status_ok = 200"

text \<open>
  The part of the two POST clients that is the same: a transport error and a status other than 200
  become errors with the client's prefix, the latter with the first 4096 bytes of the body, and so
  does a body that is not the expected JSON. Decoding a body is a parameter.
\<close>

definition read_reply :: "gostring \<Rightarrow> (gostring \<Rightarrow> go_error + 'r) \<Rightarrow> reply \<Rightarrow> go_error + 'r" where
  "read_reply prefix decode rep =
     (case rep of
        Not_sent e \<Rightarrow> Inl e
      | Transport_failed e \<Rightarrow> Inl (Wrapped (prefix @ str '': transport'') e)
      | Response status body \<Rightarrow>
          if status \<noteq> status_ok
          then Inl (Plain (prefix @ str '': status '' @ dec_nat status @ str '': '' @ take 4096 body))
          else wrap_err (prefix @ str '': decode'') (decode body))"

lemma read_reply_Inr_iff:
  "read_reply p decode rep = Inr r \<longleftrightarrow> (\<exists>body. rep = Response 200 body \<and> decode body = Inr r)"
  by (cases rep) (auto simp: read_reply_def status_ok_def)

end
