(* ===== verification/Http.thy ===== *)
theory Http
  imports Go_Errors
begin

text \<open>
  \<open>internal/api/errors.go\<close> and \<open>internal/api/middleware.go\<close>: the typed errors and their JSON envelope,
  the two ways a handler writes a response, and the middleware. A response writer is a value that is
  passed on: the headers set so far, the status line and headers once they are sent, and the bodies
  written. A handler returns, panics or hangs. What a payload looks like as JSON is left to \<open>Api_Json\<close>; whether
  it can be encoded at all is an argument.
\<close>

section \<open>Errors of the API\<close>

record api_error =
  ae_status :: nat
  ae_code :: gostring
  ae_message :: gostring
  ae_retryable :: bool

record envelope =
  env_code :: gostring
  env_message :: gostring
  env_retryable :: bool
  env_request_id :: gostring

definition api_error_text :: "api_error \<Rightarrow> gostring" where
  "api_error_text e = ae_code e @ str '': '' @ ae_message e"

definition bad_request :: "gostring \<Rightarrow> gostring \<Rightarrow> api_error" where
  "bad_request c m = \<lparr>ae_status = 400, ae_code = c, ae_message = m, ae_retryable = False\<rparr>"

definition not_found :: "gostring \<Rightarrow> gostring \<Rightarrow> api_error" where
  "not_found c m = \<lparr>ae_status = 404, ae_code = c, ae_message = m, ae_retryable = False\<rparr>"

definition conflict :: "gostring \<Rightarrow> gostring \<Rightarrow> api_error" where
  "conflict c m = \<lparr>ae_status = 409, ae_code = c, ae_message = m, ae_retryable = False\<rparr>"

definition unavailable :: "gostring \<Rightarrow> gostring \<Rightarrow> api_error" where
  "unavailable c m = \<lparr>ae_status = 503, ae_code = c, ae_message = m, ae_retryable = True\<rparr>"

text \<open>The literal \<open>&APIError{Status: http.StatusInternalServerError, ...}\<close> of the handlers.\<close>

definition internal :: "gostring \<Rightarrow> gostring \<Rightarrow> api_error" where
  "internal c m = \<lparr>ae_status = 500, ae_code = c, ae_message = m, ae_retryable = False\<rparr>"

text \<open>An error that reaches \<open>WriteError\<close>: an \<open>*APIError\<close>, one that wraps another, or any other.\<close>

datatype any_error = Api api_error | Wrap gostring any_error | Other go_error

fun as_api_error :: "any_error \<Rightarrow> api_error option" where
  "as_api_error (Api e) = Some e"
| "as_api_error (Wrap m e) = as_api_error e"
| "as_api_error (Other e) = None"

section \<open>Responses\<close>

type_synonym header = "gostring \<rightharpoonup> gostring"

datatype 'p body = Envelope envelope | Payload 'p | Plain_text gostring

record 'p writer =
  w_header :: header
  w_sent :: "(nat \<times> header) option"
  w_body :: "'p body list"

definition fresh_writer :: "'p writer" where
  "fresh_writer = \<lparr>w_header = Map.empty, w_sent = None, w_body = []\<rparr>"

definition content_type :: gostring where "content_type = str ''Content-Type''"
definition application_json :: gostring where "application_json = str ''application/json''"
definition x_request_id :: gostring where "x_request_id = str ''X-Request-Id''"

definition set_header :: "gostring \<Rightarrow> gostring \<Rightarrow> 'p writer \<Rightarrow> 'p writer" where
  "set_header k v w = w\<lparr>w_header := (w_header w)(k \<mapsto> v)\<rparr>"

text \<open>\<open>WriteHeader\<close> sends the status and the headers as they are; a second call has no effect.\<close>

definition send_status :: "nat \<Rightarrow> 'p writer \<Rightarrow> 'p writer" where
  "send_status st w = (if w_sent w = None then w\<lparr>w_sent := Some (st, w_header w)\<rparr> else w)"

definition write_body :: "'p body \<Rightarrow> 'p writer \<Rightarrow> 'p writer" where
  "write_body b w = (let w = send_status 200 w in w\<lparr>w_body := w_body w @ [b]\<rparr>)"

definition write_error :: "gostring \<Rightarrow> any_error \<Rightarrow> 'p writer \<Rightarrow> 'p writer" where
  "write_error rid err w =
     (let e = (case as_api_error err of
                 Some e \<Rightarrow> e
               | None \<Rightarrow> internal (str ''internal_error'') (str ''unexpected server error''));
          env = \<lparr>env_code = ae_code e, env_message = ae_message e, env_retryable = ae_retryable e, env_request_id = rid\<rparr>;
          w = set_header content_type application_json w;
          w = send_status (ae_status e) w
      in write_body (Envelope env) w)"

text \<open>The encoder's error is ignored: a payload that cannot be encoded leaves the status without a body.\<close>

definition write_json :: "('p \<Rightarrow> bool) \<Rightarrow> nat \<Rightarrow> 'p \<Rightarrow> 'p writer \<Rightarrow> 'p writer" where
  "write_json encodable st p w =
     (let w = set_header content_type application_json w;
          w = send_status st w
      in if encodable p then write_body (Payload p) w else w)"

section \<open>Requests and handlers\<close>

record request =
  rq_method :: gostring
  rq_path :: "gostring list"    \<comment> \<open>the segments of the cleaned path\<close>
  rq_header :: "gostring \<Rightarrow> gostring"
  rq_query :: "gostring \<Rightarrow> gostring"
  rq_body :: gostring
  rq_ctx :: "gostring option"   \<comment> \<open>the context's value under \<open>requestIDKey\<close>\<close>

datatype ('p, 's) outcome = Returned "'p writer" 's | Panicked "'p writer" 's | Hangs

type_synonym ('p, 's) handler = "request \<Rightarrow> 'p writer \<Rightarrow> 's \<Rightarrow> ('p, 's) outcome"

section \<open>Middleware\<close>

definition request_id_from :: "gostring option \<Rightarrow> gostring" where
  "request_id_from ctx = (case ctx of None \<Rightarrow> str ''unknown'' | Some v \<Rightarrow> if v = [] then str ''unknown'' else v)"

definition hex_digit :: "nat \<Rightarrow> byte" where
  "hex_digit n = of_nat (if n < 10 then 48 + n else 87 + n)"

definition hex_encode :: "gostring \<Rightarrow> gostring" where
  "hex_encode s = concat (map (\<lambda>b. [hex_digit (unat b div 16), hex_digit (unat b mod 16)]) s)"

text \<open>\<open>newID\<close>; the eight bytes of \<open>rand.Read\<close> are an argument.\<close>

definition new_id :: "gostring \<Rightarrow> gostring" where
  "new_id rnd = hex_encode rnd"

definition request_id :: "gostring \<Rightarrow> ('p, 's) handler \<Rightarrow> ('p, 's) handler" where
  "request_id rnd next rq w s =
     (let i = rq_header rq x_request_id;
          i = (if i = [] then new_id rnd else i)
      in next (rq\<lparr>rq_ctx := Some i\<rparr>) (set_header x_request_id i w) s)"

text \<open>The deferred function sees the request \<open>Recoverer\<close> was called with.\<close>

definition recoverer :: "('p, 's) handler \<Rightarrow> ('p, 's) handler" where
  "recoverer next rq w s =
     (case next rq w s of
        Panicked w s \<Rightarrow>
          Returned (write_error (request_id_from (rq_ctx rq)) (Api (internal (str ''panic'') (str ''handler panicked''))) w) s
      | r \<Rightarrow> r)"

section \<open>Lemmas\<close>

lemma writer_sel [simp]:
  "w_sent (set_header k v w) = w_sent w" "w_body (set_header k v w) = w_body w"
  "w_header (set_header k v w) = (w_header w)(k \<mapsto> v)"
  "w_body (send_status st w) = w_body w" "w_header (send_status st w) = w_header w"
  "w_sent (send_status st w) = (if w_sent w = None then Some (st, w_header w) else w_sent w)"
  by (simp_all add: set_header_def send_status_def)

lemma write_body_sel [simp]:
  "w_body (write_body b w) = w_body w @ [b]" "w_header (write_body b w) = w_header w"
  "w_sent (write_body b w) = (if w_sent w = None then Some (200, w_header w) else w_sent w)"
  by (simp_all add: write_body_def Let_def)

lemma header_names [simp]: "content_type \<noteq> x_request_id" "x_request_id \<noteq> content_type"
  by (simp_all add: content_type_def x_request_id_def)

lemma length_hex_encode [simp]: "length (hex_encode s) = 2 * length s"
  by (induction s) (simp_all add: hex_encode_def)

lemma request_id_from_Some [simp]: "i \<noteq> [] \<Longrightarrow> request_id_from (Some i) = i"
  by (simp add: request_id_from_def)

lemma recoverer_no_panic: "recoverer next rq w s \<noteq> Panicked w' s'"
  by (simp add: recoverer_def split: outcome.split)

lemma recoverer_Returned [simp]: "next rq w s = Returned w' s' \<Longrightarrow> recoverer next rq w s = Returned w' s'"
  by (simp add: recoverer_def)

lemma recoverer_Panicked [simp]:
  "next rq w s = Panicked w' s' \<Longrightarrow> recoverer next rq w s =
     Returned (write_error (request_id_from (rq_ctx rq)) (Api (internal (str ''panic'') (str ''handler panicked''))) w') s'"
  by (simp add: recoverer_def)

text \<open>
  A whole reply with the JSON content type: an envelope with the request's id under an error status,
  retryable exactly for 503, or at most one payload under 200.
\<close>

definition replied :: "gostring \<Rightarrow> 'p writer \<Rightarrow> bool" where
  "replied rid w \<longleftrightarrow>
     (case w_sent w of
        None \<Rightarrow> False
      | Some (st, h) \<Rightarrow> h content_type = Some application_json \<and> h x_request_id = Some rid \<and>
          (if st = 200 then (case w_body w of [] \<Rightarrow> True | [Payload p] \<Rightarrow> True | _ \<Rightarrow> False)
           else st \<in> {400, 404, 500, 503}
             \<and> (case w_body w of [Envelope e] \<Rightarrow> env_request_id e = rid \<and> (env_retryable e \<longleftrightarrow> st = 503) | _ \<Rightarrow> False)))"

definition ready :: "gostring \<Rightarrow> 'p writer \<Rightarrow> bool" where
  "ready rid w \<longleftrightarrow> w_sent w = None \<and> w_body w = [] \<and> w_header w x_request_id = Some rid"

lemma replied_error [intro]:
  "ready rid w \<Longrightarrow> ae_status e \<in> {400, 404, 500, 503} \<Longrightarrow> (ae_retryable e \<longleftrightarrow> ae_status e = 503) \<Longrightarrow>
     replied rid (write_error rid (Api e) w)"
  by (auto simp: replied_def ready_def write_error_def Let_def)

lemma replied_json [intro]: "ready rid w \<Longrightarrow> replied rid (write_json encodable 200 p w)"
  by (auto simp: replied_def ready_def write_json_def Let_def)

lemma error_kinds [simp]:
  "ae_status (bad_request c m) = 400" "ae_status (not_found c m) = 404" "ae_status (unavailable c m) = 503"
  "ae_status (internal c m) = 500" "ae_status (conflict c m) = 409"
  "\<not> ae_retryable (bad_request c m)" "\<not> ae_retryable (not_found c m)" "ae_retryable (unavailable c m)"
  "\<not> ae_retryable (internal c m)" "\<not> ae_retryable (conflict c m)"
  by (simp_all add: bad_request_def not_found_def unavailable_def internal_def conflict_def)

end
