(* ===== verification/Float64.thy ===== *)
theory Float64
  imports Prelude Complex_Main "HOL-Library.Log_Nat"
begin

text \<open>
  Go's \<open>float64\<close> (IEEE 754 binary64), executable. A finite value is the rational it denotes
  (the sign of zero is not kept: no operation the program uses can tell the two zeros apart, but
  for printing). Every arithmetic operation is the exact one followed by rounding to nearest,
  ties to even, on a 53-bit significand with the exponent clipped at the subnormal range, and
  overflows to an infinity. The lemmas: rounding is monotone, odd, exact on what is representable,
  and its relative error on normal values is at most \<open>2 ^ -53\<close>.
\<close>

section \<open>Values\<close>

datatype f64 = NaN | PInf | MInf | Fin rat

section \<open>Rounding\<close>

abbreviation pw :: "int \<Rightarrow> rat" where
  "pw k \<equiv> 2 powi k"

text \<open>The binary exponent: \<open>pw (expo q) \<le> \<bar>q\<bar> < pw (expo q + 1)\<close>.\<close>

definition expo :: "rat \<Rightarrow> int" where
  "expo q =
     (let (a, b) = quotient_of \<bar>q\<bar>;
          k = int (floorlog 2 (nat a)) - int (floorlog 2 (nat b))
      in if pw k \<le> \<bar>q\<bar> then k else k - 1)"

text \<open>Nearest integer, ties to even.\<close>

definition rne :: "rat \<Rightarrow> int" where
  "rne q =
     (let f = \<lfloor>q\<rfloor>; d = q - of_int f
      in if d < 1 / 2 then f else if 1 / 2 < d then f + 1 else if even f then f else f + 1)"

text \<open>Unit in the last place: 53 significant bits, never below \<open>2 ^ -1074\<close>.\<close>

definition ulp :: "rat \<Rightarrow> rat" where
  "ulp q = pw (max (expo q) (-1022) - 52)"

definition rnd :: "rat \<Rightarrow> rat" where
  "rnd q = (if q = 0 then 0 else of_int (rne (q / ulp q)) * ulp q)"

definition f64_of_rat :: "rat \<Rightarrow> f64" where
  "f64_of_rat q =
     (let r = rnd q
      in if r \<noteq> 0 \<and> 1024 \<le> expo r then (if 0 < r then PInf else MInf) else Fin r)"

section \<open>Operations\<close>

text \<open>\<open>float64(n)\<close> of an integer.\<close>

definition f64_of_int :: "int \<Rightarrow> f64" where
  "f64_of_int n = f64_of_rat (of_int n)"

fun f64_add :: "f64 \<Rightarrow> f64 \<Rightarrow> f64" where
  "f64_add NaN _ = NaN"
| "f64_add _ NaN = NaN"
| "f64_add PInf MInf = NaN"
| "f64_add MInf PInf = NaN"
| "f64_add PInf _ = PInf"
| "f64_add _ PInf = PInf"
| "f64_add MInf _ = MInf"
| "f64_add _ MInf = MInf"
| "f64_add (Fin x) (Fin y) = f64_of_rat (x + y)"

fun f64_neg :: "f64 \<Rightarrow> f64" where
  "f64_neg NaN = NaN"
| "f64_neg PInf = MInf"
| "f64_neg MInf = PInf"
| "f64_neg (Fin x) = Fin (- x)"

definition f64_sub :: "f64 \<Rightarrow> f64 \<Rightarrow> f64" where
  "f64_sub x y = f64_add x (f64_neg y)"

text \<open>The sign of a value, for the infinities that products and quotients give.\<close>

fun f64_sgn :: "f64 \<Rightarrow> int" where
  "f64_sgn NaN = 0"
| "f64_sgn PInf = 1"
| "f64_sgn MInf = -1"
| "f64_sgn (Fin x) = (if 0 < x then 1 else if x < 0 then -1 else 0)"

definition f64_inf :: "int \<Rightarrow> f64" where
  "f64_inf s = (if 0 < s then PInf else if s < 0 then MInf else NaN)"

fun f64_mul :: "f64 \<Rightarrow> f64 \<Rightarrow> f64" where
  "f64_mul (Fin x) (Fin y) = f64_of_rat (x * y)"
| "f64_mul x y = (if x = NaN \<or> y = NaN then NaN else f64_inf (f64_sgn x * f64_sgn y))"

text \<open>
  Division. A finite value over zero is an infinity of the numerator's sign: zero is taken to be
  \<open>+0\<close>, and \<open>0 / 0\<close> is \<open>NaN\<close>. Over an infinity a finite value gives zero.
\<close>

fun f64_div :: "f64 \<Rightarrow> f64 \<Rightarrow> f64" where
  "f64_div (Fin x) (Fin y) = (if y = 0 then f64_inf (f64_sgn (Fin x)) else f64_of_rat (x / y))"
| "f64_div NaN _ = NaN"
| "f64_div _ NaN = NaN"
| "f64_div (Fin x) _ = Fin 0"
| "f64_div x (Fin y) = f64_inf (f64_sgn x * (if y < 0 then -1 else 1))"
| "f64_div _ _ = NaN"

fun f64_lt :: "f64 \<Rightarrow> f64 \<Rightarrow> bool" where
  "f64_lt NaN _ = False"
| "f64_lt _ NaN = False"
| "f64_lt x PInf = (x \<noteq> PInf)"
| "f64_lt PInf _ = False"
| "f64_lt MInf y = (y \<noteq> MInf)"
| "f64_lt _ MInf = False"
| "f64_lt (Fin x) (Fin y) = (x < y)"

fun is_finite :: "f64 \<Rightarrow> bool" where
  "is_finite (Fin q) = True"
| "is_finite _ = False"

text \<open>Go's \<open>==\<close> on floats: \<open>NaN\<close> differs from everything, itself included.\<close>

definition f64_eq :: "f64 \<Rightarrow> f64 \<Rightarrow> bool" where
  "f64_eq x y \<longleftrightarrow> x \<noteq> NaN \<and> x = y"

definition f64_le :: "f64 \<Rightarrow> f64 \<Rightarrow> bool" where
  "f64_le x y \<longleftrightarrow> f64_lt x y \<or> f64_eq x y"

text \<open>
  \<open>math.Sqrt(float64(n))\<close> for a non-negative integer. \<open>isqrt\<close> of \<open>n\<close> scaled by \<open>4 ^ 60\<close> has at
  least 60 bits; a set sticky bit below them records that the root is not exact, so rounding the
  result to 53 bits rounds the real root.
\<close>

fun isqrt :: "nat \<Rightarrow> nat" where
  "isqrt n = (if n = 0 then 0
     else (let r = 2 * isqrt (n div 4) in if (r + 1) * (r + 1) \<le> n then r + 1 else r))"

declare isqrt.simps [simp del]

definition sqrt_sticky :: "nat \<Rightarrow> rat" where
  "sqrt_sticky n =
     (let m = n * 4 ^ 60; r = isqrt m
      in of_nat (2 * r + (if r * r = m then 0 else 1)) / 2 ^ 61)"

definition f64_sqrt_nat :: "nat \<Rightarrow> f64" where
  "f64_sqrt_nat n = f64_of_rat (sqrt_sticky n)"

section \<open>Facts on powers and exponents\<close>

lemma pw_pos [simp]: "0 < pw k"
  by simp

lemma pw_add: "pw (a + b) = pw a * pw b"
  by (simp add: power_int_add)

lemma pw_Suc: "pw (k + 1) = 2 * pw k"
  by (simp add: pw_add)

lemma pw_mono: "a \<le> b \<Longrightarrow> pw a \<le> pw b"
  by (simp add: power_int_increasing)

lemma pw_strict_mono: "a < b \<Longrightarrow> pw a < pw b"
  by (simp add: power_int_strict_increasing)

lemma pw_less_cancel: "pw a < pw b \<Longrightarrow> a < b"
  using pw_mono [of b a] by (meson leD not_le_imp_less)

lemma pw_nat: "pw (int n) = 2 ^ n"
  by simp

lemma pw_pred: "0 < n \<Longrightarrow> pw (int n - 1) = 2 ^ (n - 1)"
  by (cases n) simp_all

lemma pw_split: "a \<le> b \<Longrightarrow> pw b = of_int (2 ^ nat (b - a)) * pw a"
proof -
  assume "a \<le> b"
  then have "pw b = pw (int (nat (b - a)) + a)" by simp
  then show ?thesis by (simp only: pw_add pw_nat) simp
qed

lemma floorlog2_bounds: "0 < n \<Longrightarrow> 2 ^ (floorlog 2 n - 1) \<le> n \<and> n < 2 ^ floorlog 2 n"
  using floorlog_bounds [of n 2] by simp

lemma floorlog2_pos: "0 < n \<Longrightarrow> 0 < floorlog 2 n"
  by (simp add: floorlog_def)

lemma floorlog2_pw:
  assumes "0 < (a::int)"
  shows "pw (int (floorlog 2 (nat a)) - 1) \<le> of_int a" and "of_int a < pw (int (floorlog 2 (nat a)))"
proof -
  obtain n where n: "a = int n" "0 < n" using assms by (metis nonneg_int_cases of_nat_0_less_iff less_imp_le)
  note b = floorlog2_bounds [OF n(2)]
  have "(of_nat (2 ^ (floorlog 2 n - 1)) :: rat) \<le> of_nat n" using b by (simp only: of_nat_le_iff)
  then show "pw (int (floorlog 2 (nat a)) - 1) \<le> of_int a"
    using n pw_pred [OF floorlog2_pos [OF n(2)]] by simp
  have "(of_nat n :: rat) < of_nat (2 ^ floorlog 2 n)" using b by (simp only: of_nat_less_iff)
  then show "of_int a < pw (int (floorlog 2 (nat a)))" using n by simp
qed

lemma expo_bounds:
  assumes "q \<noteq> 0"
  shows "pw (expo q) \<le> \<bar>q\<bar>" and "\<bar>q\<bar> < pw (expo q + 1)"
proof -
  obtain a b where ab: "quotient_of \<bar>q\<bar> = (a, b)" by (cases "quotient_of \<bar>q\<bar>")
  have bpos: "0 < b" using ab by (rule quotient_of_denom_pos)
  have q: "\<bar>q\<bar> = of_int a / of_int b" using ab by (rule quotient_of_div)
  have apos: "0 < a" using q bpos assms 
  proof -
    have "0 < (of_int a / of_int b :: rat)" using q assms by (metis zero_less_abs_iff)
    then show ?thesis using bpos by (simp add: zero_less_divide_iff)
  qed
  define la where "la = floorlog 2 (nat a)"
  define lb where "lb = floorlog 2 (nat b)"
  have A: "pw (int la - 1) \<le> of_int a" "of_int a < pw (int la)"
    and B: "pw (int lb - 1) \<le> of_int b" "of_int b < pw (int lb)"
    using floorlog2_pw [OF apos] floorlog2_pw [OF bpos] by (auto simp: la_def lb_def)
  define k where "k = int la - int lb"
  have up: "\<bar>q\<bar> < pw (k + 1)"
  proof -
    have "pw (k + 1) * pw (int lb - 1) = pw (int la)" by (simp add: k_def flip: pw_add)
    moreover have "pw (k + 1) * pw (int lb - 1) \<le> pw (k + 1) * of_int b"
      using B(1) by (intro mult_left_mono) auto
    ultimately have "of_int a < pw (k + 1) * of_int b" using A(2) by (metis less_le_trans)
    then show ?thesis using bpos q by (simp add: pos_divide_less_eq)
  qed
  have low: "pw (k - 1) \<le> \<bar>q\<bar>"
  proof -
    have "pw (k - 1) * pw (int lb) = pw (int la - 1)"
      unfolding k_def pw_add [symmetric] by (simp add: algebra_simps)
    moreover have "pw (k - 1) * of_int b \<le> pw (k - 1) * pw (int lb)"
      using B(2) by (intro mult_left_mono) auto
    ultimately have "pw (k - 1) * of_int b \<le> of_int a" using A(1) by (metis order_trans)
    then show ?thesis using bpos q by (simp add: pos_le_divide_eq)
  qed
  have e: "expo q = (if pw k \<le> \<bar>q\<bar> then k else k - 1)"
    by (simp add: expo_def ab Let_def k_def la_def lb_def)
  show "pw (expo q) \<le> \<bar>q\<bar>" using e low by auto
  show "\<bar>q\<bar> < pw (expo q + 1)" using e up by auto
qed


lemma expo_eqI: "pw k \<le> \<bar>q\<bar> \<Longrightarrow> \<bar>q\<bar> < pw (k + 1) \<Longrightarrow> expo q = k"
proof -
  assume k: "pw k \<le> \<bar>q\<bar>" "\<bar>q\<bar> < pw (k + 1)"
  then have "q \<noteq> 0" by (metis abs_zero leD pw_pos)
  note b = expo_bounds [OF this]
  have "pw k < pw (expo q + 1)" "pw (expo q) < pw (k + 1)" using b k by linarith+
  then show ?thesis using pw_less_cancel by (metis zle_add1_eq_le order_antisym)
qed

lemma expo_minus [simp]: "expo (- q) = expo q"
  by (simp add: expo_def)

lemma expo_mono: "x \<noteq> 0 \<Longrightarrow> \<bar>x\<bar> \<le> \<bar>y\<bar> \<Longrightarrow> expo x \<le> expo y"
proof -
  assume a: "x \<noteq> 0" "\<bar>x\<bar> \<le> \<bar>y\<bar>"
  then have "y \<noteq> 0" by auto
  then have "pw (expo x) < pw (expo y + 1)" using expo_bounds [of x] expo_bounds [of y] a by linarith
  then show ?thesis using pw_less_cancel by fastforce
qed

section \<open>Rounding to an integer\<close>

lemma rne_of_int [simp]: "rne (of_int n) = n"
  by (simp add: rne_def)

lemma rne_error: "\<bar>of_int (rne q) - q\<bar> \<le> 1 / 2"
proof -
  have "of_int \<lfloor>q\<rfloor> \<le> q" "q < of_int \<lfloor>q\<rfloor> + 1" by linarith+
  then show ?thesis by (auto simp: rne_def Let_def)
qed

lemma rne_mono: "x \<le> y \<Longrightarrow> rne x \<le> rne y"
proof -
  assume xy: "x \<le> y"
  then have f: "\<lfloor>x\<rfloor> \<le> \<lfloor>y\<rfloor>" by (rule floor_mono)
  show ?thesis
  proof (cases "\<lfloor>x\<rfloor> = \<lfloor>y\<rfloor>")
    case True
    with xy show ?thesis by (auto simp: rne_def Let_def)
  next
    case False
    with f have "\<lfloor>x\<rfloor> + 1 \<le> \<lfloor>y\<rfloor>" by simp
    moreover have "rne x \<le> \<lfloor>x\<rfloor> + 1" "\<lfloor>y\<rfloor> \<le> rne y" by (auto simp: rne_def Let_def)
    ultimately show ?thesis by linarith
  qed
qed

lemma rne_minus [simp]: "rne (- q) = - rne q"
proof (cases "q = of_int \<lfloor>q\<rfloor>")
  case True
  then show ?thesis by (metis of_int_minus rne_of_int)
next
  case False
  define f where "f = \<lfloor>q\<rfloor>"
  have "\<lfloor>- q\<rfloor> = - f - 1"
    using False unfolding f_def by (metis ceiling_altdef floor_minus minus_add_distrib uminus_add_conv_diff add.commute)
  then show ?thesis by (auto simp: rne_def Let_def f_def [symmetric])
qed

section \<open>Rounding to 53 bits\<close>

lemma ulp_pos [simp]: "0 < ulp q"
  by (simp add: ulp_def)

lemma ulp_minus [simp]: "ulp (- q) = ulp q"
  by (simp add: ulp_def)

lemma rnd_0 [simp]: "rnd 0 = 0"
  by (simp add: rnd_def)

lemma ulp_nonneg [simp]: "0 \<le> ulp q"
  using ulp_pos [of q] by linarith

lemma ulp_nonzero [simp]: "ulp q \<noteq> 0"
  using ulp_pos [of q] by linarith

lemma rnd_minus [simp]: "rnd (- q) = - rnd q"
  by (simp add: rnd_def)

lemma rnd_error: "\<bar>rnd q - q\<bar> \<le> ulp q / 2"
proof (cases "q = 0")
  case False
  have "rnd q - q = (of_int (rne (q / ulp q)) - q / ulp q) * ulp q"
    using False ulp_pos [of q] by (simp add: rnd_def left_diff_distrib)
  then have "\<bar>rnd q - q\<bar> = \<bar>of_int (rne (q / ulp q)) - q / ulp q\<bar> * ulp q"
    using abs_of_pos [OF ulp_pos [of q]] by (simp only: abs_mult)
  also have "\<dots> \<le> 1 / 2 * ulp q"
    using rne_error ulp_nonneg by (rule mult_right_mono)
  finally show ?thesis by simp
qed simp

text \<open>A multiple of its own unit in the last place is left alone.\<close>

lemma rnd_multiple: "q = of_int n * ulp q \<Longrightarrow> rnd q = q"
  using ulp_pos [of q] by (metis rnd_def nonzero_mult_div_cancel_right less_irrefl rne_of_int)

lemma rne_eqI: "\<bar>q - of_int n\<bar> < 1 / 2 \<Longrightarrow> rne q = n"
proof -
  assume "\<bar>q - of_int n\<bar> < 1 / 2"
  then have "\<bar>of_int (rne q) - of_int n :: rat\<bar> < 1" using rne_error [of q] by linarith
  then show ?thesis by linarith
qed

text \<open>Rounding a concrete value: the binade, and the nearest multiple of its unit.\<close>

lemma rnd_eqI:
  assumes "pw k \<le> q" "q < pw (k + 1)" "-1022 \<le> k" "\<bar>q / pw (k - 52) - of_int n\<bar> < 1 / 2"
  shows "rnd q = of_int n * pw (k - 52)"
proof -
  have q: "0 < q" using assms(1) pw_pos [of k] by linarith
  then have "expo q = k" using assms by (intro expo_eqI) auto
  then have "ulp q = pw (k - 52)" using assms by (simp add: ulp_def)
  then show ?thesis using q rne_eqI [OF assms(4)] by (simp add: rnd_def)
qed

lemma rnd_between_pw:
  assumes "pw k \<le> q" "q \<le> pw (k + 1)" "-1022 \<le> k"
  shows "pw k \<le> rnd q" and "rnd q \<le> pw (k + 1)"
proof -
  have pw_fix: "rnd (pw j) = pw j" if "-1022 \<le> j" for j
  proof -
    have "expo (pw j) = j" by (rule expo_eqI) (simp_all add: pw_strict_mono)
    with that have u: "ulp (pw j) = pw (j - 52)" by (simp add: ulp_def)
    have "pw j = of_int (2 ^ 52) * pw (j - 52)" using pw_split [of "j - 52" j] by simp
    with u show ?thesis by (metis rnd_multiple)
  qed
  show "pw k \<le> rnd q" and "rnd q \<le> pw (k + 1)"
  proof -
    have qpos: "0 < q" using assms(1) pw_pos [of k] by linarith
    consider "q = pw (k + 1)" | "q < pw (k + 1)" using assms(2) by linarith
    then have "pw k \<le> rnd q \<and> rnd q \<le> pw (k + 1)"
    proof cases
      case 1
      then show ?thesis using pw_fix [of "k + 1"] assms(3) pw_mono [of k "k + 1"] by simp
    next
      case 2
      have "expo q = k" using assms(1) 2 qpos by (intro expo_eqI) auto
      with assms(3) have u: "ulp q = pw (k - 52)" by (simp add: ulp_def)
      have lo: "pw k = of_int (2 ^ 52) * ulp q" using pw_split [of "k - 52" k] u by simp
      have hi: "pw (k + 1) = of_int (2 ^ 53) * ulp q" using pw_split [of "k - 52" "k + 1"] u by simp
      have "of_int (2 ^ 52) \<le> q / ulp q" using lo assms(1) ulp_pos [of q] by (simp add: pos_le_divide_eq)
      then have "2 ^ 52 \<le> rne (q / ulp q)" using rne_mono by (metis rne_of_int)
      then have "(of_int (2 ^ 52) :: rat) \<le> of_int (rne (q / ulp q))" by (simp only: of_int_le_iff)
      moreover have "q / ulp q \<le> of_int (2 ^ 53)" using hi 2 ulp_pos [of q] by (simp add: pos_divide_le_eq)
      then have "rne (q / ulp q) \<le> 2 ^ 53" using rne_mono by (metis rne_of_int)
      then have "(of_int (rne (q / ulp q)) :: rat) \<le> of_int (2 ^ 53)" by (simp only: of_int_le_iff)
      ultimately show ?thesis
        using lo hi qpos ulp_pos [of q] by (simp add: rnd_def mult_right_mono)
    qed
    then show "pw k \<le> rnd q" and "rnd q \<le> pw (k + 1)" by auto
  qed
qed


lemma rnd_pos: "pw (-1022) \<le> q \<Longrightarrow> pw (expo q) \<le> rnd q"
proof -
  assume q: "pw (-1022) \<le> q"
  then have pos: "0 < q" using pw_pos [of "-1022"] by linarith
  then have b: "pw (expo q) \<le> q" "q < pw (expo q + 1)" using expo_bounds [of q] by auto
  have "pw (-1022) < pw (expo q + 1)" using q b by linarith
  then have "-1022 \<le> expo q" using pw_less_cancel by fastforce
  then show ?thesis using rnd_between_pw b by simp
qed

lemma rnd_nonneg: "0 \<le> q \<Longrightarrow> 0 \<le> rnd q"
proof (cases "q = 0")
  case False
  assume "0 \<le> q"
  then have "of_int 0 \<le> q / ulp q" by simp
  then have "0 \<le> rne (q / ulp q)" using rne_mono by (metis rne_of_int)
  then show ?thesis by (simp add: rnd_def)
qed simp

text \<open>Rounding is monotone.\<close>

lemma rnd_mono_pos:
  assumes "0 < x" "x \<le> y"
  shows "rnd x \<le> rnd y"
proof (cases "max (expo x) (-1022) = max (expo y) (-1022)")
  case True
  then have u: "ulp x = ulp y" by (simp add: ulp_def)
  have "x / ulp x \<le> y / ulp y" using u assms by (simp add: divide_right_mono)
  then have "rne (x / ulp x) \<le> rne (y / ulp y)" by (rule rne_mono)
  then have "(of_int (rne (x / ulp x)) :: rat) \<le> of_int (rne (y / ulp y))" by (simp only: of_int_le_iff)
  then show ?thesis using assms u by (simp add: rnd_def mult_right_mono)
next
  case False
  have le: "expo x \<le> expo y" using assms by (intro expo_mono) auto
  with False have ey: "-1022 \<le> expo y" "expo x < expo y" by auto
  have bx: "x < pw (expo x + 1)" using assms expo_bounds(2) [of x] by auto
  have by1: "pw (expo y) \<le> y" "y \<le> pw (expo y + 1)" using assms expo_bounds [of y] by auto
  have "rnd x \<le> pw (expo y)"
  proof (cases "-1022 \<le> expo x")
    case True
    then have "rnd x \<le> pw (expo x + 1)"
      using bx assms expo_bounds(1) [of x] by (intro rnd_between_pw) auto
    also have "\<dots> \<le> pw (expo y)" using ey by (intro pw_mono) simp
    finally show ?thesis .
  next
    case sub: False
    then have u: "ulp x = pw (-1074)" by (simp add: ulp_def)
    have "pw (-1022) = of_int (2 ^ 52) * ulp x" using pw_split [of "-1074" "-1022"] u by simp
    moreover have "x < pw (-1022)" using bx sub pw_mono [of "expo x + 1" "-1022"] by linarith
    ultimately have "x / ulp x \<le> of_int (2 ^ 52)" using ulp_pos [of x] by (simp add: pos_divide_le_eq)
    then have "rne (x / ulp x) \<le> 2 ^ 52" using rne_mono by (metis rne_of_int)
    then have "(of_int (rne (x / ulp x)) :: rat) \<le> of_int (2 ^ 52)" by (simp only: of_int_le_iff)
    then have "rnd x \<le> of_int (2 ^ 52) * ulp x"
      using assms by (simp add: rnd_def mult_right_mono)
    also have "\<dots> = pw (-1022)" using \<open>pw (-1022) = of_int (2 ^ 52) * ulp x\<close> by simp
    also have "\<dots> \<le> pw (expo y)" using ey by (intro pw_mono)
    finally show ?thesis .
  qed
  also have "\<dots> \<le> rnd y" using by1 ey by (intro rnd_between_pw)
  finally show ?thesis .
qed

lemma rnd_mono: "x \<le> y \<Longrightarrow> rnd x \<le> rnd y"
proof -
  assume xy: "x \<le> y"
  consider "0 < x" | "x \<le> 0" "0 \<le> y" | "y < 0" by linarith
  then show ?thesis
  proof cases
    case 1
    then show ?thesis using xy by (rule rnd_mono_pos)
  next
    case 2
    then have "0 \<le> rnd (- x)" "0 \<le> rnd y" by (simp_all only: rnd_nonneg neg_0_le_iff_le)
    then show ?thesis by simp
  next
    case 3
    then have "rnd (- y) \<le> rnd (- x)" using xy by (intro rnd_mono_pos) auto
    then show ?thesis by simp
  qed
qed

text \<open>The relative error on normal values.\<close>

lemma rnd_rel_error:
  assumes "pw (-1022) \<le> q"
  shows "\<bar>rnd q - q\<bar> \<le> q * pw (-53)"
proof -
  have pos: "0 < q" using assms pw_pos [of "-1022"] by linarith
  have b: "pw (expo q) \<le> q" "q < pw (expo q + 1)" using expo_bounds [of q] pos by auto
  have "pw (-1022) < pw (expo q + 1)" using assms b by linarith
  then have "-1022 \<le> expo q" using pw_less_cancel by fastforce
  then have "ulp q = pw (expo q + (-52))" by (simp add: ulp_def)
  then have "ulp q / 2 = pw (expo q) * pw (-53)"
    unfolding pw_add by (simp add: power_int_minus)
  moreover have "pw (expo q) * pw (-53) \<le> q * pw (-53)" using b by (intro mult_right_mono) auto
  ultimately show ?thesis using rnd_error [of q] by linarith
qed

text \<open>What 53 bits can represent is left alone.\<close>

lemma rnd_representable:
  assumes "\<bar>n\<bar> \<le> 2 ^ 53" "-1074 \<le> j"
  shows "rnd (of_int n * pw j) = of_int n * pw j"
proof (cases "n = 0")
  case False
  define q where "q = of_int n * pw j"
  have q0: "q \<noteq> 0" using False by (simp add: q_def)
  have absq: "\<bar>q\<bar> = of_int \<bar>n\<bar> * pw j" by (simp add: q_def abs_mult)
  show ?thesis
  proof (cases "\<bar>n\<bar> = 2 ^ 53")
    case True
    have e: "expo q = j + 53"
      using True absq by (intro expo_eqI) (simp_all add: pw_add power_int_add)
    have "-1022 \<le> j + 53" using assms by simp
    then have u: "ulp q = pw (j + 1)" by (simp add: ulp_def e algebra_simps)
    have "n = sgn n * 2 ^ 53" using True by (metis mult_sgn_abs mult.commute)
    then have "of_int n = (of_int (sgn n * 2 ^ 53) :: rat)" by (rule arg_cong)
    then have "q = of_int (sgn n * 2 ^ 52) * ulp q"
      by (simp only: u pw_Suc) (simp add: q_def)
    then show ?thesis unfolding q_def by (rule rnd_multiple)
  next
    case lt: False
    then have "\<bar>n\<bar> < 2 ^ 53" using assms(1) by linarith
    then have "(of_int \<bar>n\<bar> :: rat) < of_int (2 ^ 53)" by (simp only: of_int_less_iff)
    then have "\<bar>q\<bar> < pw (j + 53)" using absq by (simp add: pw_add)
    then have "pw (expo q) < pw (j + 53)" using expo_bounds(1) [OF q0] by linarith
    then have "expo q \<le> j + 52" using pw_less_cancel by fastforce
    then have k: "max (expo q) (-1022) - 52 \<le> j" using assms(2) by simp
    have "q = of_int (n * 2 ^ nat (j - (max (expo q) (-1022) - 52))) * ulp q"
      using pw_split [OF k] by (simp add: q_def ulp_def)
    then show ?thesis unfolding q_def by (rule rnd_multiple)
  qed
qed simp

lemma rnd_of_int: "\<bar>n\<bar> \<le> 2 ^ 53 \<Longrightarrow> rnd (of_int n) = of_int n"
  using rnd_representable [of n 0] by simp

lemma rnd_1 [simp]: "rnd 1 = 1"
  using rnd_of_int [of 1] by simp

lemma rne_ulp_bound: "\<bar>rne (q / ulp q)\<bar> \<le> 2 ^ 53"
proof (cases "q = 0")
  case True
  then show ?thesis by (simp add: rne_def)
next
  case False
  have "pw (expo q + 1) \<le> pw (max (expo q) (-1022) + 1)" by (intro pw_mono) simp
  also have "\<dots> = of_int (2 ^ 53) * ulp q"
    using pw_split [of "max (expo q) (-1022) - 52" "max (expo q) (-1022) + 1"] by (simp add: ulp_def)
  finally have "\<bar>q\<bar> \<le> of_int (2 ^ 53) * ulp q" using expo_bounds(2) [OF False] by linarith
  then have "q / ulp q \<le> of_int (2 ^ 53)" "of_int (- (2 ^ 53)) \<le> q / ulp q"
    using ulp_pos [of q] by (simp_all add: pos_divide_le_eq pos_le_divide_eq abs_le_iff)
  then have "rne (q / ulp q) \<le> 2 ^ 53" "- (2 ^ 53) \<le> rne (q / ulp q)"
    using rne_mono by (metis rne_of_int)+
  then show ?thesis by simp
qed

lemma rnd_idem [simp]: "rnd (rnd q) = rnd q"
proof (cases "q = 0")
  case False
  have "rnd q = of_int (rne (q / ulp q)) * pw (max (expo q) (-1022) - 52)"
    using False by (simp add: rnd_def ulp_def)
  then show ?thesis using rnd_representable rne_ulp_bound by simp
qed simp

lemma rnd_pw: "-1074 \<le> j \<Longrightarrow> rnd (pw j) = pw j"
  using rnd_representable [of 1 j] by simp

section \<open>Facts on the operations\<close>

text \<open>In range, the result of an operation is the rounded exact one.\<close>

lemma f64_of_rat_Fin: "\<bar>q\<bar> \<le> 2 ^ 1000 \<Longrightarrow> f64_of_rat q = Fin (rnd q)"
proof -
  assume q: "\<bar>q\<bar> \<le> 2 ^ 1000"
  have "rnd (pw 1000) = pw 1000" by (rule rnd_pw) simp
  then have p: "rnd (2 ^ 1000) = 2 ^ 1000" by simp
  have "rnd q \<le> pw 1000" using q rnd_mono [of q "2 ^ 1000"] by (simp only: p abs_le_iff) simp
  moreover have "- pw 1000 \<le> rnd q"
    using q rnd_mono [of "- (2 ^ 1000)" q] by (simp only: p rnd_minus abs_le_iff minus_le_iff) simp
  ultimately have r: "\<bar>rnd q\<bar> \<le> pw 1000" by linarith
  have "\<not> 1024 \<le> expo (rnd q)" if "rnd q \<noteq> 0"
  proof -
    have "pw (expo (rnd q)) < pw 1001"
      using expo_bounds(1) [OF that] r pw_strict_mono [of 1000 1001] by linarith
    then show ?thesis using pw_less_cancel by fastforce
  qed
  then show ?thesis by (auto simp: f64_of_rat_def Let_def)
qed

lemma f64_of_int_exact: "\<bar>n\<bar> \<le> 2 ^ 53 \<Longrightarrow> f64_of_int n = Fin (of_int n)"
proof -
  assume n: "\<bar>n\<bar> \<le> 2 ^ 53"
  then have "\<bar>of_int n :: rat\<bar> \<le> of_int (2 ^ 53)" by (simp only: of_int_abs [symmetric] of_int_le_iff)
  also have "\<dots> \<le> 2 ^ 1000" by (simp add: power_increasing)
  finally show ?thesis using n by (simp add: f64_of_int_def f64_of_rat_Fin rnd_of_int)
qed

lemma f64_add_commute: "f64_add x y = f64_add y x"
  by (cases x; cases y) (simp_all add: add.commute)

lemma f64_add_zero: "rnd r = r \<Longrightarrow> \<bar>r\<bar> \<le> 2 ^ 1000 \<Longrightarrow> f64_add (Fin 0) (Fin r) = Fin r"
  by (simp add: f64_of_rat_Fin)

lemma f64_lt_irrefl [simp]: "\<not> f64_lt x x"
  by (cases x) auto

lemma f64_lt_asym: "f64_lt x y \<Longrightarrow> \<not> f64_lt y x"
  by (cases x; cases y) auto

lemma f64_lt_trans: "f64_lt x y \<Longrightarrow> f64_lt y z \<Longrightarrow> f64_lt x z"
  by (cases x; cases y; cases z) auto

lemma f64_lt_linear: "x \<noteq> NaN \<Longrightarrow> y \<noteq> NaN \<Longrightarrow> f64_lt x y \<or> x = y \<or> f64_lt y x"
  by (cases x; cases y) auto

lemma f64_lt_neg_trans: "y \<noteq> NaN \<Longrightarrow> f64_lt x z \<Longrightarrow> f64_lt x y \<or> f64_lt y z"
  by (cases x; cases y; cases z) auto

lemma f64_lt_not_NaN: "f64_lt x y \<Longrightarrow> x \<noteq> NaN \<and> y \<noteq> NaN"
  by (cases x; cases y) auto

lemma f64_not_lt_NaN [simp]: "\<not> f64_lt x NaN" "\<not> f64_lt NaN x"
  by (cases x; simp)+

text \<open>The reciprocal of a positive integer: \<open>1.0 / float64(n)\<close>.\<close>

definition f64_recip :: "int \<Rightarrow> f64" where
  "f64_recip n = f64_div (Fin 1) (f64_of_int n)"

lemma recip_exact_bounds:
  assumes "1 \<le> n" "n \<le> 2 ^ 53"
  shows "pw (-53) \<le> 1 / of_int n" and "1 / of_int n \<le> (1 :: rat)"
proof -
  have a: "(1 :: rat) \<le> of_int n" "(of_int n :: rat) \<le> 2 ^ 53"
    using assms by (simp, metis of_int_le_iff of_int_numeral of_int_power)
  show "1 / of_int n \<le> (1 :: rat)" using a by simp
  have "1 / (2 ^ 53 :: rat) \<le> 1 / of_int n" using a by (intro divide_left_mono) auto
  moreover have "pw (-53) = 1 / 2 ^ 53" by (simp add: power_int_minus)
  ultimately show "pw (-53) \<le> 1 / of_int n" by simp
qed

lemma f64_recip_eq:
  assumes "1 \<le> n" "n \<le> 2 ^ 53"
  shows "f64_recip n = Fin (rnd (1 / of_int n))"
proof -
  have "\<bar>1 / of_int n :: rat\<bar> \<le> 1" using recip_exact_bounds(2) [OF assms] assms by simp
  also have "\<dots> \<le> 2 ^ 1000" by (simp add: one_le_power)
  finally show ?thesis
    using assms f64_of_int_exact [of n] by (simp add: f64_recip_def f64_of_rat_Fin)
qed

lemma recip_bounds:
  assumes "1 \<le> n" "n \<le> 2 ^ 53"
  shows "pw (-53) \<le> rnd (1 / of_int n)" and "rnd (1 / of_int n) \<le> 1"
proof -
  note b = recip_exact_bounds [OF assms]
  show "pw (-53) \<le> rnd (1 / of_int n)" using rnd_mono [OF b(1)] rnd_pw [of "-53"] by simp
  show "rnd (1 / of_int n) \<le> 1" using rnd_mono [OF b(2)] by simp
qed

text \<open>Below \<open>2 ^ 50\<close>, different integers have different reciprocals, in the reverse order.\<close>

lemma recip_strict_antimono:
  assumes "1 \<le> m" "m < n" "n \<le> 2 ^ 50"
  shows "rnd (1 / of_int n) < rnd (1 / of_int m)"
proof -
  define x where "x = (of_int m :: rat)"
  define y where "y = (of_int n :: rat)"
  define e where "e = pw (-53)"
  have x: "1 \<le> x" and xy: "x + 1 \<le> y" using assms by (simp_all add: x_def y_def)
  have y50: "y \<le> 2 ^ 50" using assms(3) unfolding y_def by (metis of_int_le_iff of_int_numeral of_int_power)
  have e: "0 < e" "e * 2 ^ 53 = 1" by (simp_all add: e_def power_int_minus)
  have "pw (-1022) \<le> pw (-53)" by (intro pw_mono) simp
  then have nx: "pw (-1022) \<le> 1 / x" and ny: "pw (-1022) \<le> 1 / y"
    using recip_exact_bounds [of m] recip_exact_bounds [of n] assms by (auto simp: x_def y_def)
  have ex: "1 / x - 1 / x * e \<le> rnd (1 / x)" and ey: "rnd (1 / y) \<le> 1 / y + 1 / y * e"
    using rnd_rel_error [OF nx] rnd_rel_error [OF ny] by (auto simp: e_def abs_le_iff)
  have "e * (x + y) \<le> e * (2 * 2 ^ 50)" using y50 xy e by (intro mult_left_mono) auto
  also have "\<dots> < e * 2 ^ 53" using e(1) by simp
  finally have "e * (x + y) < 1" using e(2) by simp
  then have "x * (1 + e) < y * (1 - e)" using xy by (simp add: algebra_simps)
  then have "(1 + e) / y < (1 - e) / x" using x xy by (simp add: divide_less_eq less_divide_eq mult.commute)
  then have "1 / y + 1 / y * e < 1 / x - 1 / x * e" by (simp add: add_divide_distrib diff_divide_distrib)
  then show ?thesis using ex ey unfolding x_def y_def by linarith
qed


lemma f64_of_rat_rnd [simp]: "f64_of_rat (rnd q) = f64_of_rat q"
  by (simp add: f64_of_rat_def)

lemma f64_of_rat_0 [simp]: "f64_of_rat 0 = Fin 0"
  by (simp add: f64_of_rat_def Let_def)

text \<open>Adding to a zero accumulator gives the operand, when it is itself the result of an operation.\<close>

lemma f64_add_zero_of_rat: "f64_add (Fin 0) (f64_of_rat q) = f64_of_rat q"
  by (simp add: f64_of_rat_def [of q] Let_def)

lemma f64_recip_cases:
  assumes "1 \<le> n"
  shows "(\<exists>q. 0 \<le> q \<and> f64_recip n = f64_of_rat q)"
proof -
  have pos: "(1 :: rat) \<le> of_int n" using assms by simp
  have r1: "1 \<le> rnd (of_int n)" using rnd_mono [OF pos] by simp
  have i: "f64_of_int n = PInf \<or> f64_of_int n = Fin (rnd (of_int n))"
    using r1 by (auto simp: f64_of_int_def f64_of_rat_def Let_def)
  from i show ?thesis
  proof
    assume "f64_of_int n = PInf"
    then have "f64_recip n = f64_of_rat 0" by (simp add: f64_recip_def)
    then show ?thesis by blast
  next
    assume "f64_of_int n = Fin (rnd (of_int n))"
    then have "f64_recip n = f64_of_rat (1 / rnd (of_int n))" using r1 by (simp add: f64_recip_def)
    moreover have "0 \<le> 1 / rnd (of_int n)" using r1 by simp
    ultimately show ?thesis by blast
  qed
qed

lemma f64_add_zero_recip: "1 \<le> n \<Longrightarrow> f64_add (Fin 0) (f64_recip n) = f64_recip n"
  using f64_recip_cases [of n] f64_add_zero_of_rat by metis

text \<open>Sums of reciprocals: never \<open>NaN\<close>, never negative, and monotone.\<close>

definition nonneg_f64 :: "f64 \<Rightarrow> bool" where
  "nonneg_f64 x \<longleftrightarrow> x = PInf \<or> (\<exists>q. 0 \<le> q \<and> x = Fin q)"

lemma nonneg_f64_not_NaN: "nonneg_f64 x \<Longrightarrow> x \<noteq> NaN"
  by (auto simp: nonneg_f64_def)

lemma nonneg_f64_0 [simp]: "nonneg_f64 (Fin 0)"
  by (simp add: nonneg_f64_def)

lemma nonneg_f64_of_rat: "0 \<le> q \<Longrightarrow> nonneg_f64 (f64_of_rat q)"
  using rnd_nonneg [of q] by (auto simp: nonneg_f64_def f64_of_rat_def Let_def)

lemma nonneg_f64_recip: "1 \<le> n \<Longrightarrow> nonneg_f64 (f64_recip n)"
  using f64_recip_cases [of n] nonneg_f64_of_rat by auto

lemma nonneg_f64_add: "nonneg_f64 x \<Longrightarrow> nonneg_f64 y \<Longrightarrow> nonneg_f64 (f64_add x y)"
  by (auto simp: nonneg_f64_def) (metis add_nonneg_nonneg nonneg_f64_def nonneg_f64_of_rat)

lemma f64_of_rat_mono: "0 \<le> p \<Longrightarrow> p \<le> q \<Longrightarrow> f64_le (f64_of_rat p) (f64_of_rat q)"
proof -
  assume pq: "0 \<le> p" "p \<le> q"
  then have r: "0 \<le> rnd p" "rnd p \<le> rnd q" using rnd_nonneg rnd_mono by auto
  then have "rnd p \<noteq> 0 \<Longrightarrow> expo (rnd p) \<le> expo (rnd q)" by (intro expo_mono) auto
  with r show ?thesis by (auto simp: f64_of_rat_def Let_def f64_le_def f64_eq_def)
qed

lemma f64_le_refl: "x \<noteq> NaN \<Longrightarrow> f64_le x x"
  by (simp add: f64_le_def f64_eq_def)

lemma f64_le_trans: "f64_le x y \<Longrightarrow> f64_le y z \<Longrightarrow> f64_le x z"
  by (auto simp: f64_le_def f64_eq_def dest: f64_lt_trans)

lemma f64_le_iff_not_lt: "x \<noteq> NaN \<Longrightarrow> y \<noteq> NaN \<Longrightarrow> f64_le x y \<longleftrightarrow> \<not> f64_lt y x"
  using f64_lt_linear [of x y] by (auto simp: f64_le_def f64_eq_def dest: f64_lt_asym)

lemma f64_add_mono:
  assumes "nonneg_f64 a" "nonneg_f64 c" "f64_le a b" "f64_le c d"
  shows "f64_le (f64_add a c) (f64_add b d)"
proof -
  have bd: "nonneg_f64 b" "nonneg_f64 d"
    using assms by (cases a; cases b; cases c; cases d; auto simp: nonneg_f64_def f64_le_def f64_eq_def)+
  show ?thesis
  proof (cases "b = PInf \<or> d = PInf")
    case True
    then have "f64_add b d = PInf" using bd by (auto simp: nonneg_f64_def)
    moreover have "f64_add a c \<noteq> NaN" using nonneg_f64_add [OF assms(1,2)] by (rule nonneg_f64_not_NaN)
    ultimately show ?thesis by (cases "f64_add a c") (auto simp: f64_le_def f64_eq_def)
  next
    case False
    then obtain p q where pq: "b = Fin p" "d = Fin q" using bd by (auto simp: nonneg_f64_def)
    then obtain r t where rt: "a = Fin r" "c = Fin t" "0 \<le> r" "0 \<le> t"
      using assms by (auto simp: nonneg_f64_def f64_le_def f64_eq_def)
    then have "r \<le> p" "t \<le> q" using assms pq by (auto simp: f64_le_def f64_eq_def)
    then show ?thesis using pq rt by (auto intro!: f64_of_rat_mono)
  qed
qed

lemma f64_recip_antimono:
  assumes "1 \<le> m" "m \<le> n" "n \<le> 2 ^ 53"
  shows "f64_le (f64_recip n) (f64_recip m)"
proof -
  have mono: "1 / of_int n \<le> (1 / of_int m :: rat)" using assms by (intro divide_left_mono) auto
  then have "rnd (1 / of_int n) \<le> rnd (1 / of_int m)" by (rule rnd_mono)
  then show ?thesis using assms by (auto simp: f64_recip_eq f64_le_def f64_eq_def)
qed

end
