(* ===== verification/Decimal.thy ===== *)
theory Decimal
  imports Go_Errors Float64
begin

text \<open>
  Numbers as text, as the program gets them from Go's \<open>strconv\<close> and \<open>fmt\<close>: decimal integers with and
  without leading zeros, \<open>%.kf\<close> with flags, the shortest decimal that reads back as the same \<open>float64\<close>
  (what \<open>encoding/json\<close> writes), the grammar of a JSON number and its value. The lemmas: what is
  printed is read back.
\<close>

section \<open>Natural numbers\<close>

definition digit_of :: "byte \<Rightarrow> nat" where
  "digit_of b = unat b - 48"

definition read_nat :: "gostring \<Rightarrow> nat" where
  "read_nat s = foldl (\<lambda>n b. n * 10 + digit_of b) 0 s"

definition is_dec :: "byte \<Rightarrow> bool" where
  "is_dec b \<longleftrightarrow> 48 \<le> unat b \<and> unat b \<le> 57"

text \<open>A number in exactly \<open>w\<close> digits.\<close>

fun pad_dec :: "nat \<Rightarrow> nat \<Rightarrow> gostring" where
  "pad_dec 0 n = []"
| "pad_dec (Suc w) n = pad_dec w (n div 10) @ [of_nat (48 + n mod 10)]"

lemma digit_simps [simp]: "n < 10 \<Longrightarrow> digit_of (of_nat (48 + n)) = n" "n < 10 \<Longrightarrow> is_dec (of_nat (48 + n))"
  using unat_of_nat [of "48 + n", where ?'a = 8] by (simp_all add: digit_of_def is_dec_def)

lemma read_nat_snoc: "read_nat (s @ [b]) = read_nat s * 10 + digit_of b"
  by (simp add: read_nat_def)

lemma read_nat_Nil [simp]: "read_nat [] = 0"
  by (simp add: read_nat_def)

lemma read_dec_nat: "read_nat (dec_nat n) = n \<and> list_all is_dec (dec_nat n) \<and> dec_nat n \<noteq> []"
proof (induction n rule: dec_nat.induct)
  case (1 n)
  show ?case
  proof (cases "n < 10")
    case True
    then show ?thesis by (subst (1 2 3) dec_nat.simps) (simp add: read_nat_def del: of_nat_add)
  next
    case False
    with 1 show ?thesis
      by (subst (1 2 3) dec_nat.simps) (simp add: read_nat_snoc del: of_nat_add)
  qed
qed

lemma dec_nat_sel [simp]: "read_nat (dec_nat n) = n" "list_all is_dec (dec_nat n)" "dec_nat n \<noteq> []"
  using read_dec_nat by blast+

lemma read_pad_dec: "n < 10 ^ w \<Longrightarrow> read_nat (pad_dec w n) = n \<and> length (pad_dec w n) = w \<and> list_all is_dec (pad_dec w n)"
proof (induction w arbitrary: n)
  case (Suc w)
  then have "n div 10 < 10 ^ w" by (simp add: less_mult_imp_div_less mult.commute)
  with Suc.IH [of "n div 10"] show ?case by (simp add: read_nat_snoc del: of_nat_add)
qed simp

lemma pad_dec_sel [simp]: "length (pad_dec w n) = w" "list_all is_dec (pad_dec w n)"
  by (induction w arbitrary: n) (simp_all del: of_nat_add)

lemma read_nat_append: "read_nat (s @ t) = read_nat s * 10 ^ length t + read_nat t"
  by (induction t rule: rev_induct) (simp_all add: read_nat_snoc flip: append_assoc)

text \<open>The leading digit is zero only for zero.\<close>

lemma dec_nat_hd: "0 < n \<Longrightarrow> hd (dec_nat n) \<noteq> 48 \<and> is_dec (hd (dec_nat n))"
proof (induction n rule: dec_nat.induct)
  case (1 n)
  show ?case
  proof (cases "n < 10")
    case True
    then have u: "unat (of_nat (48 + n) :: byte) = 48 + n" using unat_of_nat [of "48 + n", where ?'a = 8] by simp
    have "of_nat (48 + n) \<noteq> (48 :: byte)"
    proof
      assume "of_nat (48 + n) = (48 :: byte)"
      then have "unat (of_nat (48 + n) :: byte) = 48" by simp
      with u 1(2) show False by simp
    qed
    then show ?thesis using True by (subst (1 2) dec_nat.simps) (simp del: of_nat_add)
  next
    case False
    with 1(1) have "hd (dec_nat (n div 10)) \<noteq> 48 \<and> is_dec (hd (dec_nat (n div 10)))" by simp
    then show ?thesis using False by (subst (1 2) dec_nat.simps) (simp del: of_nat_add)
  qed
qed

lemma dec_nat_0 [simp]: "dec_nat 0 = [48]"
  by (simp add: dec_nat.simps)

lemma takeWhile_digits [simp]:
  "list_all is_dec s \<Longrightarrow> \<not> is_dec b \<Longrightarrow> takeWhile is_dec (s @ b # r) = s"
  "list_all is_dec s \<Longrightarrow> \<not> is_dec b \<Longrightarrow> dropWhile is_dec (s @ b # r) = b # r"
  "list_all is_dec s \<Longrightarrow> takeWhile is_dec s = s" "list_all is_dec s \<Longrightarrow> dropWhile is_dec s = []"
  by (induction s) auto

section \<open>Fixed decimals\<close>

text \<open>\<open>%.kf\<close> without a sign: the value in units of \<open>10 ^ -k\<close>, rounded to the nearest and to even.\<close>

definition fixed_digits :: "nat \<Rightarrow> nat \<Rightarrow> gostring" where
  "fixed_digits k n = dec_nat (n div 10 ^ k) @ (if k = 0 then [] else str ''.'' @ pad_dec k (n mod 10 ^ k))"

text \<open>The verb \<open>%.kf\<close>, with the flag \<open>+\<close> or not. \<open>zneg\<close> is the sign of a zero.\<close>

fun fmt_float :: "bool \<Rightarrow> nat \<Rightarrow> bool \<Rightarrow> f64 \<Rightarrow> gostring" where
  "fmt_float flag k zneg NaN = (if flag then str ''+NaN'' else str ''NaN'')"
| "fmt_float flag k zneg PInf = str ''+Inf''"
| "fmt_float flag k zneg MInf = str ''-Inf''"
| "fmt_float flag k zneg (Fin q) =
     (if q < 0 \<or> (q = 0 \<and> zneg) then str ''-'' else if flag then str ''+'' else [])
     @ fixed_digits k (nat (rne (\<bar>q\<bar> * 10 ^ k)))"

definition spaces :: "nat \<Rightarrow> gostring" where
  "spaces n = replicate n 32"

section \<open>JSON numbers\<close>

text \<open>The digits before the point and after it, and the exponent, when there are any.\<close>

record number =
  nm_neg :: bool
  nm_int :: gostring
  nm_frac :: gostring
  nm_exp :: "int option"

definition num_ok :: "number \<Rightarrow> bool" where
  "num_ok n \<longleftrightarrow> nm_int n \<noteq> [] \<and> list_all is_dec (nm_int n) \<and> (hd (nm_int n) = 48 \<longrightarrow> nm_int n = [48]) \<and> list_all is_dec (nm_frac n)"

definition num_text :: "number \<Rightarrow> gostring" where
  "num_text n = (if nm_neg n then [45] else []) @ nm_int n @ (if nm_frac n = [] then [] else 46 # nm_frac n)
     @ (case nm_exp n of None \<Rightarrow> [] | Some z \<Rightarrow> 101 # (if z < 0 then 45 else 43) # dec_nat (nat \<bar>z\<bar>))"

definition num_value :: "number \<Rightarrow> rat" where
  "num_value n = (if nm_neg n then -1 else 1) * of_nat (read_nat (nm_int n @ nm_frac n))
     * 10 powi ((case nm_exp n of None \<Rightarrow> 0 | Some z \<Rightarrow> z) - int (length (nm_frac n)))"

text \<open>The scanner of \<open>encoding/json\<close>, from the states \<open>stateNeg\<close> and \<open>state0\<close> on: the longest number and
  the rest.\<close>

definition scan_exp :: "number \<Rightarrow> gostring \<Rightarrow> (number \<times> gostring) option" where
  "scan_exp n s =
     (case s of
        [] \<Rightarrow> Some (n, [])
      | c # r \<Rightarrow>
          if c = 101 \<or> c = 69
          then (let neg = (take 1 r = [45]); r = (if neg \<or> take 1 r = [43] then drop 1 r else r); ds = takeWhile is_dec r
                in if ds = [] then None
                   else Some (n\<lparr>nm_exp := Some (if neg then - int (read_nat ds) else int (read_nat ds))\<rparr>, dropWhile is_dec r))
          else Some (n, s))"

definition scan_frac :: "number \<Rightarrow> gostring \<Rightarrow> (number \<times> gostring) option" where
  "scan_frac n s =
     (if take 1 s = [46]
      then (let ds = takeWhile is_dec (drop 1 s)
            in if ds = [] then None else scan_exp (n\<lparr>nm_frac := ds\<rparr>) (dropWhile is_dec (drop 1 s)))
      else scan_exp n s)"

definition scan_num :: "gostring \<Rightarrow> (number \<times> gostring) option" where
  "scan_num s =
     (let neg = (take 1 s = [45]); s = (if neg then drop 1 s else s); n = \<lparr>nm_neg = neg, nm_int = [48], nm_frac = [], nm_exp = None\<rparr>
      in case s of
           [] \<Rightarrow> None
         | c # r \<Rightarrow>
             if c = 48 then scan_frac n r
             else if is_dec c then scan_frac (n\<lparr>nm_int := takeWhile is_dec s\<rparr>) (dropWhile is_dec s)
             else None)"

text \<open>What may follow a number that has been scanned to its end.\<close>

definition num_end :: "gostring \<Rightarrow> bool" where
  "num_end t \<longleftrightarrow> (case t of [] \<Rightarrow> True | c # r \<Rightarrow> \<not> is_dec c \<and> c \<notin> {46, 101, 69})"

lemma dec_chars [simp]: "\<not> is_dec 46" "\<not> is_dec 101" "\<not> is_dec 69" "\<not> is_dec 45" "\<not> is_dec 43" "\<not> is_dec 32" "\<not> is_dec 44"
  "is_dec 48"
  by (simp_all add: is_dec_def)

lemma takeWhile_num_end:
  "list_all is_dec s \<Longrightarrow> num_end t \<Longrightarrow> takeWhile is_dec (s @ t) = s \<and> dropWhile is_dec (s @ t) = t"
  by (cases t) (simp_all add: num_end_def)

lemma dec_nat_no_sign: "take 1 (dec_nat n @ t) \<noteq> [45] \<and> take 1 (dec_nat n @ t) \<noteq> [43]"
proof -
  obtain b r where b: "dec_nat n = b # r" by (cases "dec_nat n") auto
  then have "is_dec b" using dec_nat_sel(2) [of n] by simp
  with b show ?thesis by (auto simp: is_dec_def)
qed

lemma scan_exp_text:
  assumes "num_end t" "nm_exp n = None"
  shows "scan_exp n ((case e of None \<Rightarrow> [] | Some z \<Rightarrow> 101 # (if z < 0 then 45 else 43) # dec_nat (nat \<bar>z\<bar>)) @ t)
    = Some (n\<lparr>nm_exp := e\<rparr>, t)"
proof (cases e)
  case None
  with assms show ?thesis by (cases t) (auto simp: scan_exp_def num_end_def)
next
  case (Some z)
  note tw = takeWhile_num_end [OF dec_nat_sel(2) assms(1), of "nat \<bar>z\<bar>"]
  from Some show ?thesis by (auto simp: scan_exp_def Let_def tw)
qed

lemma scan_num_text:
  assumes "num_ok n" "num_end t"
  shows "scan_num (num_text n @ t) = Some (n, t)"
proof -
  define e where "e = (case nm_exp n of None \<Rightarrow> [] | Some z \<Rightarrow> 101 # (if z < 0 then 45 else 43) # dec_nat (nat \<bar>z\<bar>)) @ t"
  define f where "f = (if nm_frac n = [] then [] else 46 # nm_frac n) @ e"
  let ?m = "\<lparr>nm_neg = nm_neg n, nm_int = nm_int n, nm_frac = [], nm_exp = None\<rparr>"
  have e_end: "takeWhile is_dec (s @ e) = s \<and> dropWhile is_dec (s @ e) = e" "take 1 e \<noteq> [46]" if "list_all is_dec s" for s
    using that takeWhile_num_end [OF that assms(2)] assms(2) by (cases t; force simp: e_def num_end_def split: option.splits)+
  have f_end: "takeWhile is_dec (s @ f) = s \<and> dropWhile is_dec (s @ f) = f" if "list_all is_dec s" for s
    using that e_end [OF that] by (simp add: f_def)
  have frac: "scan_frac ?m f = Some (n, t)"
  proof (cases "nm_frac n = []")
    case True
    then show ?thesis using e_end(2) [of "[]"] scan_exp_text [OF assms(2), of ?m "nm_exp n"]
      by (simp add: scan_frac_def f_def e_def)
  next
    case False
    have "list_all is_dec (nm_frac n)" using assms(1) by (simp add: num_ok_def)
    from e_end(1) [OF this] False show ?thesis
      using scan_exp_text [OF assms(2), of "?m\<lparr>nm_frac := nm_frac n\<rparr>" "nm_exp n"]
      by (simp add: scan_frac_def f_def Let_def e_def [symmetric])
  qed
  obtain c r where i: "nm_int n = c # r" "is_dec c" "list_all is_dec r" "c = 48 \<longrightarrow> r = []"
    using assms(1) by (cases "nm_int n") (auto simp: num_ok_def)
  have c45: "c \<noteq> 45" using i(2) by auto
  have fi: "takeWhile is_dec (c # r @ f) = c # r \<and> dropWhile is_dec (c # r @ f) = f"
    using f_end [of "c # r"] i by simp
  have "num_text n @ t = (if nm_neg n then [45] else []) @ c # r @ f" by (simp add: num_text_def i(1) f_def e_def)
  then show ?thesis
    using fi frac i c45 by (auto simp: scan_num_def Let_def simp del: takeWhile.simps dropWhile.simps)
qed

section \<open>The shortest decimal of a float\<close>

text \<open>
  \<open>strconv.FormatFloat(x, _, -1, 64)\<close> for a positive \<open>x\<close>: the decimal with the fewest digits that reads
  back as \<open>x\<close>, and among those the nearest. The decimals \<open>m * 10 ^ e\<close> are tried with \<open>e\<close> going down from
  the number of digits of \<open>x\<close>; at \<open>-1074\<close> every float is such a decimal.
\<close>

definition pick_decimal :: "rat \<Rightarrow> int \<Rightarrow> int option" where
  "pick_decimal q e =
     (let x = q / 10 powi e; f = \<lfloor>x\<rfloor>; good = (\<lambda>m. f64_of_rat (of_int m * 10 powi e) = Fin q)
      in if good f \<and> good (f + 1) then Some (rne x) else if good f then Some f else if good (f + 1) then Some (f + 1) else None)"

fun shortest_from :: "rat \<Rightarrow> nat \<Rightarrow> int \<Rightarrow> nat \<times> int" where
  "shortest_from q 0 e = (nat \<lfloor>q / 10 powi e\<rfloor>, e)"
| "shortest_from q (Suc k) e = (case pick_decimal q e of Some m \<Rightarrow> (nat m, e) | None \<Rightarrow> shortest_from q k (e - 1))"

definition shortest_decimal :: "rat \<Rightarrow> nat \<times> int" where
  "shortest_decimal q =
     (let e = (if q < 1 then 0 else int (length (dec_nat (nat \<lceil>q\<rceil>)))) in shortest_from q (nat (e + 1074)) e)"

text \<open>\<open>floatEncoder\<close> of \<open>encoding/json\<close>: plain digits for magnitudes from \<open>1e-6\<close> to \<open>1e21\<close>, otherwise one
  digit before the point and an exponent without leading zeros.\<close>

definition float_number :: "rat \<Rightarrow> number" where
  "float_number q =
     (if q = 0 then \<lparr>nm_neg = False, nm_int = [48], nm_frac = [], nm_exp = None\<rparr>
      else
        (let (m, e) = shortest_decimal \<bar>q\<bar>
         in if rnd (1 / 1000000) \<le> \<bar>q\<bar> \<and> \<bar>q\<bar> < 10 ^ 21
            then (if 0 \<le> e then \<lparr>nm_neg = q < 0, nm_int = dec_nat (m * 10 ^ nat e), nm_frac = [], nm_exp = None\<rparr>
                  else \<lparr>nm_neg = q < 0, nm_int = dec_nat (m div 10 ^ nat (- e)), nm_frac = pad_dec (nat (- e)) (m mod 10 ^ nat (- e)),
                         nm_exp = None\<rparr>)
            else (let ds = dec_nat m
                  in \<lparr>nm_neg = q < 0, nm_int = [hd ds], nm_frac = tl ds, nm_exp = Some (e + int (length ds) - 1)\<rparr>)))"

definition int_number :: "int \<Rightarrow> number" where
  "int_number z = \<lparr>nm_neg = z < 0, nm_int = dec_nat (nat \<bar>z\<bar>), nm_frac = [], nm_exp = None\<rparr>"

text \<open>Reading: \<open>strconv.ParseInt\<close> and \<open>strconv.ParseFloat\<close> as \<open>encoding/json\<close> calls them.\<close>

definition number_int :: "number \<Rightarrow> int option" where
  "number_int n =
     (if nm_frac n \<noteq> [] \<or> nm_exp n \<noteq> None then None
      else (let z = (if nm_neg n then - 1 else 1) * int (read_nat (nm_int n))
            in if z < - (2 ^ 63) \<or> 2 ^ 63 \<le> z then None else Some z))"

definition number_float :: "number \<Rightarrow> f64 option" where
  "number_float n = (case f64_of_rat (num_value n) of Fin q \<Rightarrow> Some (Fin q) | _ \<Rightarrow> None)"

lemma dec_nat_ok: "hd (dec_nat n) = 48 \<Longrightarrow> dec_nat n = [48]"
  using dec_nat_hd [of n] by (cases "n = 0") auto

lemma int_number_ok [simp]: "num_ok (int_number z)"
  using dec_nat_ok by (simp add: num_ok_def int_number_def)

lemma number_int_number [simp]: "- (2 ^ 63) \<le> z \<Longrightarrow> z < 2 ^ 63 \<Longrightarrow> number_int (int_number z) = Some z"
  by (simp add: number_int_def int_number_def)

text \<open>A value that is a \<open>float64\<close>.\<close>

definition is_f64 :: "f64 \<Rightarrow> bool" where
  "is_f64 x \<longleftrightarrow> (case x of Fin q \<Rightarrow> f64_of_rat q = Fin q | _ \<Rightarrow> True)"

lemma is_f64_of_rat [simp]: "is_f64 (f64_of_rat q)"
  by (auto simp: is_f64_def f64_of_rat_def Let_def)

lemma rne_cases: "rne x = \<lfloor>x\<rfloor> \<or> rne x = \<lfloor>x\<rfloor> + 1"
  by (simp add: rne_def Let_def)

lemma pick_decimal_good:
  assumes "pick_decimal q e = Some m"
  shows "f64_of_rat (of_int m * 10 powi e) = Fin q"
proof -
  define g where "g m \<longleftrightarrow> f64_of_rat (of_int m * 10 powi e) = Fin q" for m
  define x where "x = q / 10 powi e"
  have "pick_decimal q e = (if g \<lfloor>x\<rfloor> \<and> g (\<lfloor>x\<rfloor> + 1) then Some (rne x) else if g \<lfloor>x\<rfloor> then Some \<lfloor>x\<rfloor>
      else if g (\<lfloor>x\<rfloor> + 1) then Some (\<lfloor>x\<rfloor> + 1) else None)"
    by (simp only: pick_decimal_def Let_def g_def x_def)
  then have "g m" using assms rne_cases [of x] by (auto split: if_splits)
  then show ?thesis by (simp only: g_def)
qed

lemma f64_fin_rnd: "f64_of_rat q = Fin r \<Longrightarrow> r = rnd q"
  by (simp add: f64_of_rat_def Let_def split: if_splits)

lemma fine_decimal:
  assumes "q = of_int a * pw (- int n)"
  shows "of_int \<lfloor>q / 10 powi (- int n)\<rfloor> * 10 powi (- int n) = q"
proof -
  have p: "(10 :: rat) powi (- int n) = pw (- int n) / 5 ^ n"
  proof -
    have "(10 :: rat) ^ n = 2 ^ n * 5 ^ n" by (simp only: power_mult_distrib [symmetric]) simp
    then show ?thesis by (simp add: power_int_minus field_simps)
  qed
  have z: "pw (- int n) \<noteq> 0" using pw_pos [of "- int n"] by linarith
  have d: "q / 10 powi (- int n) = of_int (a * 5 ^ n)"
    unfolding p assms using z by simp
  show ?thesis unfolding d floor_of_int unfolding d [symmetric] by simp
qed

lemma finest_decimal:
  assumes "rnd q = q"
  shows "of_int \<lfloor>q / 10 powi (-1074)\<rfloor> * 10 powi (-1074) = q"
proof -
  obtain a where "q = of_int a * pw (- int 1074)"
  proof (cases "q = 0")
    case True
    then show ?thesis using that [of 0] by simp
  next
    case False
    define k where "k = nat (max (expo q) (-1022) + 1022)"
    define n where "n = rne (q / ulp q)"
    have "max (expo q) (-1022) - 52 = int k + (- int 1074)" unfolding k_def by linarith
    then have u: "ulp q = 2 ^ k * pw (- int 1074)" by (simp only: ulp_def pw_add pw_nat)
    have "q = of_int n * ulp q" using assms False by (simp add: rnd_def n_def)
    then have "q = of_int (n * 2 ^ k) * pw (- int 1074)" by (simp only: u of_int_mult of_int_power of_int_numeral mult.assoc)
    then show ?thesis by (rule that)
  qed
  from fine_decimal [OF this] show ?thesis by (simp only: of_nat_numeral)
qed

lemma shortest_from_good:
  assumes "f64_of_rat q = Fin q" "0 < q" "e = int k - 1074" "shortest_from q k e = (m, e')"
  shows "f64_of_rat (of_nat m * 10 powi e') = Fin q"
  using assms(3,4)
proof (induction k arbitrary: e)
  case 0
  have "rnd q = q" using f64_fin_rnd [OF assms(1)] by simp
  moreover have e: "e = -1074" using 0(1) by simp
  ultimately have f: "of_int \<lfloor>q / 10 powi e\<rfloor> * 10 powi e = q" using finest_decimal by blast
  have "0 \<le> \<lfloor>q / 10 powi e\<rfloor>" using assms(2) by (simp only: zero_le_floor) (intro divide_nonneg_nonneg zero_le_power_int; simp)
  then have "rat_of_nat (nat \<lfloor>q / 10 powi e\<rfloor>) = of_int \<lfloor>q / 10 powi e\<rfloor>" by (rule of_nat_nat)
  moreover have "m = nat \<lfloor>q / 10 powi e\<rfloor>" "e' = e" using 0(2) unfolding shortest_from.simps prod.inject by blast+
  ultimately show ?case using assms(1) f by (simp only:)
next
  case (Suc k)
  show ?case
  proof (cases "pick_decimal q e")
    case None
    with Suc show ?thesis by simp
  next
    case (Some z)
    note g = pick_decimal_good [OF Some]
    have z: "0 \<le> z"
    proof (rule ccontr)
      assume "\<not> 0 \<le> z"
      then have "of_int z * (10 :: rat) powi e \<le> 0" by (simp add: mult_nonpos_nonneg)
      then have "rnd (of_int z * 10 powi e) \<le> 0" using rnd_mono [of _ 0] by simp
      then show False using f64_fin_rnd [OF g] assms(2) by simp
    qed
    then show ?thesis using g Some Suc.prems by (auto simp: of_nat_nat)
  qed
qed

lemma length_dec_nat_pos: "0 < length (dec_nat n)"
  by (cases "dec_nat n") auto

lemma shortest_decimal_good:
  assumes "f64_of_rat q = Fin q" "0 < q" "shortest_decimal q = (m, e)"
  shows "f64_of_rat (of_nat m * 10 powi e) = Fin q" and "0 < m"
proof -
  define e0 where "e0 = (if q < 1 then 0 else int (length (dec_nat (nat \<lceil>q\<rceil>))))"
  have "e0 = int (nat (e0 + 1074)) - 1074" by (simp add: e0_def)
  moreover have "shortest_from q (nat (e0 + 1074)) e0 = (m, e)" using assms(3) by (simp add: shortest_decimal_def Let_def e0_def)
  ultimately show g: "f64_of_rat (of_nat m * 10 powi e) = Fin q" by (rule shortest_from_good [OF assms(1,2)])
  then show "0 < m" using assms(2) by (cases m) auto
qed

lemma float_number_value:
  assumes "f64_of_rat q = Fin q"
  shows "num_ok (float_number q) \<and> f64_of_rat (num_value (float_number q)) = Fin q"
proof (cases "q = 0")
  case True
  then show ?thesis by (simp add: float_number_def num_ok_def num_value_def read_nat_def digit_of_def)
next
  case False
  obtain m e where me: "shortest_decimal \<bar>q\<bar> = (m, e)" by (cases "shortest_decimal \<bar>q\<bar>")
  have neg: "f64_of_rat (- x) = f64_neg (f64_of_rat x)" for x by (simp add: f64_of_rat_def Let_def)
  have "f64_of_rat \<bar>q\<bar> = Fin \<bar>q\<bar>" using assms by (auto simp: abs_if neg)
  from shortest_decimal_good [OF this _ me] False have g: "f64_of_rat (of_nat m * 10 powi e) = Fin \<bar>q\<bar>" "0 < m" by auto
  have num: "num_ok (float_number q) \<and> num_value (float_number q) = (if q < 0 then -1 else 1) * (of_nat m * 10 powi e)"
  proof (cases "rnd (1 / 1000000) \<le> \<bar>q\<bar> \<and> \<bar>q\<bar> < 10 ^ 21")
    case plain: True
    show ?thesis
    proof (cases "0 \<le> e")
      case True
      then have "of_nat (m * 10 ^ nat e) = of_nat m * (10 :: rat) powi e" by (simp add: power_int_def)
      then show ?thesis using plain True False me dec_nat_ok
        by (simp add: float_number_def num_ok_def num_value_def)
    next
      case neg_e: False
      define k where "k = nat (- e)"
      have e: "e = - int k" using neg_e by (simp add: k_def)
      have "read_nat (dec_nat (m div 10 ^ k) @ pad_dec k (m mod 10 ^ k)) = m"
        using read_pad_dec [of "m mod 10 ^ k" k] div_mult_mod_eq [of m "10 ^ k"] by (simp only: read_nat_append dec_nat_sel) simp
      then show ?thesis using plain neg_e False me dec_nat_ok
        by (simp add: float_number_def num_ok_def num_value_def e)
    qed
  next
    case sci: False
    let ?ds = "dec_nat m"
    have ds: "[hd ?ds] @ tl ?ds = ?ds" "is_dec (hd ?ds)" "hd ?ds \<noteq> 48" "list_all is_dec (tl ?ds)"
      using dec_nat_hd [OF g(2)] dec_nat_sel(2) [of m] by (cases "dec_nat m"; simp)+
    then have l: "int (length (tl ?ds)) = int (length ?ds) - 1" by (cases ?ds) simp_all
    then have r: "read_nat (hd ?ds # tl ?ds) = m" using ds(1) dec_nat_sel(1) [of m] by simp
    show ?thesis using sci False me ds(2-4) l r
      by (auto simp: float_number_def num_ok_def num_value_def Let_def)
  qed
  then show ?thesis using g(1) neg [of "of_nat m * 10 powi e"] by (auto simp: abs_if split: if_splits)
qed

lemma number_float_number: "is_f64 (Fin q) \<Longrightarrow> number_float (float_number q) = Some (Fin q)"
  using float_number_value [of q] by (simp add: number_float_def is_f64_def)

lemma float_number_ok [simp]: "num_ok (float_number q)"
proof -
  obtain m e where me: "shortest_decimal \<bar>q\<bar> = (m, e)" by (cases "shortest_decimal \<bar>q\<bar>")
  have d: "\<exists>c r. dec_nat m = c # r \<and> is_dec c \<and> list_all is_dec r" for m
    using dec_nat_sel(2,3) [of m] by (cases "dec_nat m") simp_all
  show ?thesis using d [of m] dec_nat_ok by (auto simp: float_number_def me num_ok_def Let_def)
qed

end
