(* ===== verification/Utf8.thy ===== *)
theory Utf8
  imports Prelude
begin

text \<open>
  What the program uses of Go's \<open>unicode/utf8\<close>, \<open>unicode\<close> and \<open>strings\<close>: decoding and encoding of
  runes with the acceptance ranges of the UTF-8 table, \<open>[]rune(s)\<close> and \<open>string(runes)\<close>,
  \<open>utf8.ValidString\<close>, \<open>unicode.IsSpace\<close>, \<open>unicode.IsControl\<close>, \<open>strings.TrimSpace\<close> and
  \<open>strings.TrimRight\<close>. The lemmas: encoding and decoding are inverse on valid runes and on valid
  strings, and trimming a string is trimming its runes.
\<close>

section \<open>Runes\<close>

abbreviation rune_error :: rune where
  "rune_error \<equiv> 0xFFFD"

definition valid_rune :: "rune \<Rightarrow> bool" where
  "valid_rune r \<longleftrightarrow> r < 0xD800 \<or> (0xDFFF < r \<and> r \<le> 0x10FFFF)"

lemma valid_rune_error: "valid_rune rune_error"
  by (simp add: valid_rune_def)

text \<open>Size of the sequence a lead byte opens, and the range of its second byte.\<close>

definition lead :: "nat \<Rightarrow> (nat \<times> nat \<times> nat) option" where
  "lead n =
    (if 0xC2 \<le> n \<and> n \<le> 0xDF then Some (2, 0x80, 0xBF)
     else if n = 0xE0 then Some (3, 0xA0, 0xBF)
     else if n = 0xED then Some (3, 0x80, 0x9F)
     else if 0xE1 \<le> n \<and> n \<le> 0xEF then Some (3, 0x80, 0xBF)
     else if n = 0xF0 then Some (4, 0x90, 0xBF)
     else if 0xF1 \<le> n \<and> n \<le> 0xF3 then Some (4, 0x80, 0xBF)
     else if n = 0xF4 then Some (4, 0x80, 0x8F)
     else None)"

definition is_cont :: "byte \<Rightarrow> bool" where
  "is_cont b \<longleftrightarrow> 0x80 \<le> unat b \<and> unat b \<le> 0xBF"

text \<open>
  \<open>utf8.DecodeRuneInString\<close>: the rune and its width in bytes; \<open>RuneError\<close> with width 1 for an
  invalid encoding, with width 0 for the empty string.
\<close>

fun decode_rune :: "gostring \<Rightarrow> rune \<times> nat" where
  "decode_rune [] = (rune_error, 0)"
| "decode_rune (b0 # bs) =
     (if unat b0 < 0x80 then (unat b0, 1)
      else case lead (unat b0) of
        None \<Rightarrow> (rune_error, 1)
      | Some (sz, lo, hi) \<Rightarrow>
          if length bs < sz - 1 then (rune_error, 1)
          else if unat (bs ! 0) < lo \<or> hi < unat (bs ! 0) then (rune_error, 1)
          else if sz = 2 then (unat b0 mod 32 * 64 + unat (bs ! 0) mod 64, 2)
          else if \<not> is_cont (bs ! 1) then (rune_error, 1)
          else if sz = 3 then
            (unat b0 mod 16 * 4096 + unat (bs ! 0) mod 64 * 64 + unat (bs ! 1) mod 64, 3)
          else if \<not> is_cont (bs ! 2) then (rune_error, 1)
          else (unat b0 mod 8 * 262144 + unat (bs ! 0) mod 64 * 4096
                + unat (bs ! 1) mod 64 * 64 + unat (bs ! 2) mod 64, 4))"

text \<open>\<open>utf8.AppendRune\<close>, which \<open>strings.Builder.WriteRune\<close> and \<open>string(runes)\<close> use.\<close>

definition encode_rune :: "rune \<Rightarrow> gostring" where
  "encode_rune r =
     (if r \<le> 0x7F then [of_nat r]
      else if r \<le> 0x7FF then [of_nat (0xC0 + r div 64), of_nat (0x80 + r mod 64)]
      else if \<not> valid_rune r then [0xEF, 0xBF, 0xBD]
      else if r \<le> 0xFFFF then
        [of_nat (0xE0 + r div 4096), of_nat (0x80 + r div 64 mod 64), of_nat (0x80 + r mod 64)]
      else
        [of_nat (0xF0 + r div 262144), of_nat (0x80 + r div 4096 mod 64),
         of_nat (0x80 + r div 64 mod 64), of_nat (0x80 + r mod 64)])"

lemma encode_rune_nonempty [simp]: "encode_rune r \<noteq> []"
  by (simp add: encode_rune_def)

lemma encode_rune_invalid: "\<not> valid_rune r \<Longrightarrow> encode_rune r = encode_rune rune_error"
  by (simp add: encode_rune_def valid_rune_def)

lemma offset_mod: "y < m \<Longrightarrow> (k * m + y) mod m = (y :: nat)"
  by simp

lemma cont_mod: "y < 64 \<Longrightarrow> (0x80 + y) mod 64 = (y :: nat)"
  using offset_mod [of y 64 2] by simp

lemma split_base64:
  fixes r :: nat
  shows "r = r div 64 * 64 + r mod 64"
    and "r = r div 4096 * 4096 + r div 64 mod 64 * 64 + r mod 64"
    and "r = r div 262144 * 262144 + r div 4096 mod 64 * 4096 + r div 64 mod 64 * 64 + r mod 64"
proof -
  have a: "r div 4096 = r div 64 div 64" "r div 262144 = r div 4096 div 64"
    by (simp_all add: div_mult2_eq [symmetric])
  note d = div_mult_mod_eq [of r 64] div_mult_mod_eq [of "r div 64" 64] div_mult_mod_eq [of "r div 4096" 64]
  show "r = r div 64 * 64 + r mod 64" by simp
  show "r = r div 4096 * 4096 + r div 64 mod 64 * 64 + r mod 64" using a d by linarith
  show "r = r div 262144 * 262144 + r div 4096 mod 64 * 4096 + r div 64 mod 64 * 64 + r mod 64"
    using a d by linarith
qed

lemma unat_byte [simp]: "n < 256 \<Longrightarrow> unat (of_nat n :: byte) = n"
  by (simp add: unat_of_nat)

lemma decode_width: "s \<noteq> [] \<Longrightarrow> 0 < snd (decode_rune s)"
  by (cases s) (auto simp: Let_def split: option.split)

lemma decode_width_le: "snd (decode_rune s) \<le> length s"
  by (cases s) (auto simp: lead_def Let_def Suc_le_eq split: option.split)

text \<open>Decoding what was encoded, with anything after it.\<close>

lemma decode_encode:
  assumes "valid_rune r"
  shows "decode_rune (encode_rune r @ rest) = (r, length (encode_rune r))"
proof -
  consider "r \<le> 0x7F" | "0x7F < r" "r \<le> 0x7FF" | "0x7FF < r" "r \<le> 0xFFFF" | "0xFFFF < r" "r \<le> 0x10FFFF"
    using assms unfolding valid_rune_def by linarith
  then show ?thesis
  proof cases
    case 1
    then show ?thesis by (simp add: encode_rune_def)
  next
    case 2
    define x where "x = r div 64"
    define y where "y = r mod 64"
    have r: "r = x * 64 + y" unfolding x_def y_def by (rule split_base64(1))
    have b: "2 \<le> x" "x \<le> 31" "y < 64" using 2 by (auto simp: x_def y_def)
    have l: "lead (0xC0 + x) = Some (2, 0x80, 0xBF)"
      using b by (simp add: lead_def)
    have m: "(0xC0 + x) mod 32 = x" "(0x80 + y) mod 64 = y"
      using b offset_mod [of x 32 6] cont_mod by simp_all
    have e: "encode_rune r = [of_nat (0xC0 + x), of_nat (0x80 + y)]"
      using 2 by (simp add: encode_rune_def x_def y_def)
    show ?thesis unfolding e using l b m by (simp add: r del: of_nat_add)
  next
    case 3
    define x where "x = r div 4096"
    define y where "y = r div 64 mod 64"
    define z where "z = r mod 64"
    have r: "r = x * 4096 + y * 64 + z" unfolding x_def y_def z_def by (rule split_base64(2))
    have b: "x \<le> 15" "y < 64" "z < 64" using 3 by (auto simp: x_def y_def z_def)
    have acc: "\<exists>lo hi. lead (0xE0 + x) = Some (3, lo, hi) \<and> lo \<le> 0x80 + y \<and> 0x80 + y \<le> hi"
    proof -
      consider "x = 0" "32 \<le> y" | "x = 13" "y < 32" | "x \<noteq> 0" "x \<noteq> 13"
        using 3 b assms r unfolding valid_rune_def by (cases "x = 0"; cases "x = 13"; force)
      then show ?thesis using b by cases (auto simp: lead_def)
    qed
    then obtain lo hi where l: "lead (0xE0 + x) = Some (3, lo, hi)" "lo \<le> 0x80 + y" "0x80 + y \<le> hi"
      by blast
    have m: "(0xE0 + x) mod 16 = x" "(0x80 + y) mod 64 = y" "(0x80 + z) mod 64 = z"
      using b offset_mod [of x 16 14] cont_mod by simp_all
    have e: "encode_rune r = [of_nat (0xE0 + x), of_nat (0x80 + y), of_nat (0x80 + z)]"
      using 3 assms by (simp add: encode_rune_def x_def y_def z_def)
    show ?thesis unfolding e using l b m
      by (simp add: is_cont_def r del: of_nat_add)
  next
    case 4
    define w where "w = r div 262144"
    define x where "x = r div 4096 mod 64"
    define y where "y = r div 64 mod 64"
    define z where "z = r mod 64"
    have r: "r = w * 262144 + x * 4096 + y * 64 + z" unfolding w_def x_def y_def z_def by (rule split_base64(3))
    have b: "w \<le> 4" "x < 64" "y < 64" "z < 64" using 4 by (auto simp: w_def x_def y_def z_def)
    have acc: "\<exists>lo hi. lead (0xF0 + w) = Some (4, lo, hi) \<and> lo \<le> 0x80 + x \<and> 0x80 + x \<le> hi"
    proof -
      consider "w = 0" "16 \<le> x" | "w = 4" "x < 16" | "w \<noteq> 0" "w \<noteq> 4"
        using 4 b r by (cases "w = 0"; cases "w = 4"; force)
      then show ?thesis using b by cases (auto simp: lead_def)
    qed
    then obtain lo hi where l: "lead (0xF0 + w) = Some (4, lo, hi)" "lo \<le> 0x80 + x" "0x80 + x \<le> hi"
      by blast
    have m: "(0xF0 + w) mod 8 = w" "(0x80 + x) mod 64 = x" "(0x80 + y) mod 64 = y" "(0x80 + z) mod 64 = z"
      using b offset_mod [of w 8 30] cont_mod by simp_all
    have e: "encode_rune r = [of_nat (0xF0 + w), of_nat (0x80 + x), of_nat (0x80 + y), of_nat (0x80 + z)]"
      using 4 assms by (simp add: encode_rune_def w_def x_def y_def z_def)
    show ?thesis unfolding e using l b m
      by (simp add: is_cont_def r del: of_nat_add)
  qed
qed


text \<open>Conversely, what decodes to more than an error is the encoding of the rune decoded.\<close>

lemma lead_cases:
  assumes "lead n = Some (sz, lo, hi)"
  obtains x where "sz = 2" "n = 0xC0 + x" "2 \<le> x" "x \<le> 31" "lo = 0x80" "hi = 0xBF"
    | x where "sz = 3" "n = 0xE0 + x" "x \<le> 15" "0x80 \<le> lo" "hi \<le> 0xBF"
        "x = 0 \<longrightarrow> lo = 0xA0" "x = 13 \<longrightarrow> hi = 0x9F"
    | x where "sz = 4" "n = 0xF0 + x" "x \<le> 4" "0x80 \<le> lo" "hi \<le> 0xBF"
        "x = 0 \<longrightarrow> lo = 0x90" "x = 4 \<longrightarrow> hi = 0x8F"
proof -
  have d: "\<exists>x. n = k + x" if "k \<le> n" for k using that le_iff_add by blast
  consider "0xC2 \<le> n" "n \<le> 0xDF" "(sz, lo, hi) = (2, 0x80, 0xBF)"
    | "0xE0 \<le> n" "n \<le> 0xEF" "sz = 3" "0x80 \<le> lo" "hi \<le> 0xBF"
        "n = 0xE0 \<longrightarrow> lo = 0xA0" "n = 0xED \<longrightarrow> hi = 0x9F"
    | "0xF0 \<le> n" "n \<le> 0xF4" "sz = 4" "0x80 \<le> lo" "hi \<le> 0xBF"
        "n = 0xF0 \<longrightarrow> lo = 0x90" "n = 0xF4 \<longrightarrow> hi = 0x8F"
    using assms unfolding lead_def by (auto split: if_splits)
  then show thesis
  proof cases
    case 1
    then show ?thesis using d [of 192] by (auto intro: that(1))
  next
    case 2
    then show ?thesis using d [of 224] by (auto intro!: that(2))
  next
    case 3
    then show ?thesis using d [of 240] by (auto intro!: that(3))
  qed
qed

lemma cont_offset: "0x80 \<le> unat b \<Longrightarrow> unat b \<le> 0xBF \<Longrightarrow> \<exists>y < 64. unat b = 0x80 + y"
  by (rule exI [of _ "unat b - 0x80"]) simp

lemma byte_eqI: "unat b = n \<Longrightarrow> b = (of_nat n :: byte)"
  by auto

lemma div_mod_64:
  fixes a z r :: nat
  shows "r = a * 64 + z \<Longrightarrow> z < 64 \<Longrightarrow> r div 64 = a" and "r = a * 64 + z \<Longrightarrow> z < 64 \<Longrightarrow> r mod 64 = z"
  by simp_all

lemma encode_parts2:
  assumes "2 \<le> x" "x \<le> 31" "y < 64"
  shows "encode_rune (x * 64 + y) = [of_nat (0xC0 + x), of_nat (0x80 + y)]"
    and "valid_rune (x * 64 + y)"
  using assms by (simp_all add: encode_rune_def valid_rune_def)

lemma encode_parts3:
  assumes "x \<le> 15" "y < 64" "z < 64" "x = 0 \<longrightarrow> 32 \<le> y" "x = 13 \<longrightarrow> y < 32"
  shows "encode_rune (x * 4096 + y * 64 + z) = [of_nat (0xE0 + x), of_nat (0x80 + y), of_nat (0x80 + z)]"
    and "valid_rune (x * 4096 + y * 64 + z)"
proof -
  define r where "r = x * 4096 + y * 64 + z"
  have "r = (x * 64 + y) * 64 + z" by (simp add: r_def)
  note d = div_mod_64 [OF this assms(3)]
  then have d2: "r div 4096 = x" "r div 64 mod 64 = y"
    using assms div_mult2_eq [of r 64 64] by simp_all
  have lo: "0x7FF < r" using assms by (cases "x = 0") (auto simp: r_def)
  have hi: "r \<le> 0xFFFF" using assms by (simp add: r_def)
  have v: "valid_rune r"
  proof -
    consider "x < 13" | "x = 13" | "14 \<le> x" by linarith
    then show ?thesis using assms by cases (auto simp: valid_rune_def r_def)
  qed
  show "encode_rune r = [of_nat (0xE0 + x), of_nat (0x80 + y), of_nat (0x80 + z)]" "valid_rune r"
    using lo hi v d(2) d2 by (simp_all add: encode_rune_def)
qed

lemma encode_parts4:
  assumes "w \<le> 4" "x < 64" "y < 64" "z < 64" "w = 0 \<longrightarrow> 16 \<le> x" "w = 4 \<longrightarrow> x < 16"
  shows "encode_rune (w * 262144 + x * 4096 + y * 64 + z)
       = [of_nat (0xF0 + w), of_nat (0x80 + x), of_nat (0x80 + y), of_nat (0x80 + z)]"
    and "valid_rune (w * 262144 + x * 4096 + y * 64 + z)"
proof -
  define r where "r = w * 262144 + x * 4096 + y * 64 + z"
  have "r = ((w * 64 + x) * 64 + y) * 64 + z" by (simp add: r_def)
  note d = div_mod_64 [OF this assms(4)]
  have q: "r div 4096 = r div 64 div 64" "r div 262144 = r div 4096 div 64"
    by (simp_all add: div_mult2_eq [symmetric])
  have d2: "r div 4096 = w * 64 + x" "r div 64 mod 64 = y"
    unfolding q using div_mod_64 [OF d(1) assms(3)] by simp_all
  have d3: "r div 262144 = w" "r div 4096 mod 64 = x"
    unfolding q(2) using div_mod_64 [OF d2(1) assms(2)] by simp_all
  have lo: "0xFFFF < r" using assms by (cases "w = 0") (auto simp: r_def)
  have hi: "r \<le> 0x10FFFF" using assms by (cases "w = 4") (auto simp: r_def)
  show "encode_rune r = [of_nat (0xF0 + w), of_nat (0x80 + x), of_nat (0x80 + y), of_nat (0x80 + z)]"
    "valid_rune r"
    using lo hi d(2) d2(2) d3 by (simp_all add: encode_rune_def valid_rune_def)
qed


lemma decode_rune_cases:
  assumes "s \<noteq> []"
  shows "decode_rune s = (rune_error, 1)
    \<or> (valid_rune (fst (decode_rune s)) \<and> take (snd (decode_rune s)) s = encode_rune (fst (decode_rune s)))"
proof -
  obtain b0 bs where s: "s = b0 # bs" using assms by (cases s) auto
  show ?thesis
  proof (cases "unat b0 < 0x80")
    case True
    then show ?thesis by (simp add: s encode_rune_def valid_rune_def)
  next
    case big: False
    show ?thesis
    proof (cases "lead (unat b0)")
      case None
      then show ?thesis using big by (simp add: s)
    next
      case (Some t)
      then obtain sz lo hi where l: "lead (unat b0) = Some (sz, lo, hi)" by (cases t) auto
      show ?thesis
      proof (cases "decode_rune s = (rune_error, 1)")
        case ok: False
        from l show ?thesis
        proof (cases rule: lead_cases)
          case (1 x)
          then obtain b1 t where bs: "bs = b1 # t" "0x80 \<le> unat b1" "unat b1 \<le> 0xBF"
            using ok l big by (cases bs) (auto simp: s split: if_splits)
          then obtain y where y: "y < 64" "unat b1 = 0x80 + y" using cont_offset by blast
          have "decode_rune s = (x * 64 + y, 2)"
            using 1 l big bs y offset_mod [of x 32 6] by (simp add: s cont_mod)
          then show ?thesis
            using encode_parts2 [OF 1(3,4) y(1)] s bs byte_eqI [OF 1(2)] byte_eqI [OF y(2)] by simp
        next
          case (2 x)
          then obtain b1 b2 t where bs: "bs = b1 # b2 # t" "lo \<le> unat b1" "unat b1 \<le> hi" "is_cont b2"
            using ok l big by (cases bs; cases "tl bs") (auto simp: s split: if_splits)
          then obtain y where y: "y < 64" "unat b1 = 0x80 + y" using 2 cont_offset [of b1] by auto
          obtain z where z: "z < 64" "unat b2 = 0x80 + z" using bs cont_offset [of b2] by (auto simp: is_cont_def)
          have d: "decode_rune s = (x * 4096 + y * 64 + z, 3)"
            using 2 l big bs y z offset_mod [of x 16 14] by (simp add: s cont_mod)
          have "x = 0 \<longrightarrow> 32 \<le> y" "x = 13 \<longrightarrow> y < 32" using 2 bs y by auto
          from encode_parts3 [OF 2(3) y(1) z(1) this] show ?thesis
            using d s bs byte_eqI [OF 2(2)] byte_eqI [OF y(2)] byte_eqI [OF z(2)] by simp
        next
          case (3 w)
          then obtain b1 b2 b3 t where bs: "bs = b1 # b2 # b3 # t" "lo \<le> unat b1" "unat b1 \<le> hi"
              "is_cont b2" "is_cont b3"
            using ok l big by (cases bs; cases "tl bs"; cases "tl (tl bs)") (auto simp: s split: if_splits)
          then obtain x where x: "x < 64" "unat b1 = 0x80 + x" using 3 cont_offset [of b1] by auto
          obtain y where y: "y < 64" "unat b2 = 0x80 + y" using bs cont_offset [of b2] by (auto simp: is_cont_def)
          obtain z where z: "z < 64" "unat b3 = 0x80 + z" using bs cont_offset [of b3] by (auto simp: is_cont_def)
          have d: "decode_rune s = (w * 262144 + x * 4096 + y * 64 + z, 4)"
            using 3 l big bs x y z offset_mod [of w 8 30] by (simp add: s cont_mod)
          have "w = 0 \<longrightarrow> 16 \<le> x" "w = 4 \<longrightarrow> x < 16" using 3 bs x by auto
          from encode_parts4 [OF 3(3) x(1) y(1) z(1) this] show ?thesis
            using d s bs byte_eqI [OF 3(2)] byte_eqI [OF x(2)] byte_eqI [OF y(2)] byte_eqI [OF z(2)]
            by simp
        qed
      qed simp
    qed
  qed
qed

section \<open>Strings as runes\<close>

text \<open>
  The runes of a string with the bytes each was decoded from: what \<open>for _, r := range s\<close> walks
  over, and \<open>[]rune(s)\<close> collects.
\<close>

function segs :: "gostring \<Rightarrow> (rune \<times> gostring) list" where
  "segs s = (if s = [] then []
     else (fst (decode_rune s), take (snd (decode_rune s)) s) # segs (drop (snd (decode_rune s)) s))"
  by pat_completeness auto
termination
  by (relation "measure length") (auto simp: decode_width)

declare segs.simps [simp del]

lemma segs_Nil [simp]: "segs [] = []"
  by (simp add: segs.simps)

lemma segs_step: "s \<noteq> [] \<Longrightarrow>
  segs s = (fst (decode_rune s), take (snd (decode_rune s)) s) # segs (drop (snd (decode_rune s)) s)"
  by (subst segs.simps) simp

definition runes :: "gostring \<Rightarrow> rune list" where
  "runes s = map fst (segs s)"

definition of_runes :: "rune list \<Rightarrow> gostring" where
  "of_runes rs = concat (map encode_rune rs)"

definition valid_utf8 :: "gostring \<Rightarrow> bool" where
  "valid_utf8 s \<longleftrightarrow> list_all (\<lambda>(r, bs). \<not> (r = rune_error \<and> length bs = 1)) (segs s)"

lemma of_runes_simps [simp]:
  "of_runes [] = []" "of_runes (r # rs) = encode_rune r @ of_runes rs"
  "of_runes (xs @ ys) = of_runes xs @ of_runes ys"
  by (simp_all add: of_runes_def)

lemma of_runes_Nil_iff [simp]: "of_runes rs = [] \<longleftrightarrow> rs = []"
  by (cases rs) auto

lemma concat_segs: "concat (map snd (segs s)) = s"
proof (induction s rule: segs.induct)
  case (1 s)
  then show ?case by (cases "s = []") (simp_all add: segs_step)
qed

lemma segs_of_runes_append:
  "list_all valid_rune rs \<Longrightarrow> segs (of_runes rs @ t) = map (\<lambda>r. (r, encode_rune r)) rs @ segs t"
  by (induction rs) (simp_all add: segs_step decode_encode)

lemma segs_of_runes:
  "list_all valid_rune rs \<Longrightarrow> segs (of_runes rs) = map (\<lambda>r. (r, encode_rune r)) rs"
  using segs_of_runes_append [of rs "[]"] by simp

lemma runes_of_runes [simp]: "list_all valid_rune rs \<Longrightarrow> runes (of_runes rs) = rs"
  by (simp add: runes_def segs_of_runes comp_def)

lemma encode_rune_error: "encode_rune rune_error = [0xEF, 0xBF, 0xBD]"
  by (simp add: encode_rune_def valid_rune_def)

lemma valid_utf8_of_runes [simp]: "valid_utf8 (of_runes rs)"
proof -
  define n where "n r = (if valid_rune r then r else rune_error)" for r
  have n: "encode_rune (n r) = encode_rune r" "valid_rune (n r)" for r
    using valid_rune_error encode_rune_invalid [of r] by (auto simp: n_def)
  then have "of_runes rs = of_runes (map n rs)" and v: "list_all valid_rune (map n rs)"
    by (simp_all add: of_runes_def comp_def list_all_iff)
  moreover have "length (encode_rune (n r)) \<noteq> 1" if "n r = rune_error" for r
    unfolding that encode_rune_error by simp
  ultimately show ?thesis
    by (auto simp: valid_utf8_def segs_of_runes [OF v] list_all_iff)
qed

lemma segs_sound:
  "(r, bs) \<in> set (segs s) \<Longrightarrow> (r = rune_error \<and> length bs = 1) \<or> (valid_rune r \<and> bs = encode_rune r)"
proof (induction s rule: segs.induct)
  case (1 s)
  show ?case
  proof (cases "s = []")
    case False
    then show ?thesis
      using 1 decode_rune_cases [OF False] by (cases s) (auto simp: segs_step)
  qed (use 1 in simp)
qed

lemma valid_utf8_runes: "valid_utf8 s \<Longrightarrow> list_all valid_rune (runes s) \<and> of_runes (runes s) = s"
proof -
  assume v: "valid_utf8 s"
  then have p: "(r, bs) \<in> set (segs s) \<Longrightarrow> valid_rune r \<and> bs = encode_rune r" for r bs
    using segs_sound by (fastforce simp: valid_utf8_def list_all_iff)
  then have "map snd (segs s) = map encode_rune (runes s)"
    by (auto simp: runes_def)
  then have "of_runes (runes s) = s"
    using concat_segs [of s] by (simp add: of_runes_def)
  with p show ?thesis by (auto simp: runes_def list_all_iff)
qed

lemma valid_utf8_iff: "valid_utf8 s \<longleftrightarrow> (\<exists>rs. list_all valid_rune rs \<and> s = of_runes rs)"
  using valid_utf8_runes by (metis valid_utf8_of_runes)

lemma runes_ascii: "list_all (\<lambda>b. unat b < 128) s \<Longrightarrow> of_runes (map unat s) = s \<and> list_all valid_rune (map unat s)"
proof -
  have "encode_rune (unat b) = [b] \<and> valid_rune (unat b)" if "unat b < 128" for b :: byte
    using that by (simp add: encode_rune_def valid_rune_def)
  then show "list_all (\<lambda>b. unat b < 128) s \<Longrightarrow> of_runes (map unat s) = s \<and> list_all valid_rune (map unat s)"
    by (induction s) (auto simp: of_runes_def)
qed

lemma valid_utf8_ascii: "list_all (\<lambda>b. unat b < 128) s \<Longrightarrow> valid_utf8 s"
  by (metis runes_ascii valid_utf8_of_runes)

lemma runes_eq_ascii: "list_all (\<lambda>b. unat b < 128) s \<Longrightarrow> runes s = map unat s"
  by (metis runes_ascii runes_of_runes)

lemma runes_valid: "list_all valid_rune (runes s)"
proof -
  have "valid_rune r" if "(r, bs) \<in> set (segs s)" for r bs
    using segs_sound [OF that] valid_rune_error by blast
  then show ?thesis by (auto simp: runes_def list_all_iff)
qed

lemma length_runes_le: "length (runes s) \<le> length s"
proof (induction s rule: segs.induct)
  case (1 s)
  show ?case
  proof (cases "s = []")
    case False
    have "0 < snd (decode_rune s)" "snd (decode_rune s) \<le> length s"
      using False decode_width decode_width_le by auto
    then show ?thesis using 1 [OF False] False by (simp add: runes_def segs_step)
  qed (simp add: runes_def)
qed

text \<open>Cutting a string between two of its segments does not change how either part decodes.\<close>

lemma length_encode_1: "length (encode_rune r) = 1 \<Longrightarrow> r < 0x80"
  by (simp add: encode_rune_def split: if_splits)

lemma decode_prefix:
  assumes "s \<noteq> []" "snd (decode_rune s) \<le> m"
  shows "decode_rune (take m s) = decode_rune s"
proof -
  have tk: "decode_rune (take m s) = (r, length (encode_rune r))"
    if "valid_rune r" "take k s = encode_rune r" "k \<le> m" for r k
  proof -
    have "take m s = take k s @ take (m - k) (drop k s)" using that(3) by (simp add: take_drop_slice)
    then show ?thesis using that decode_encode by simp
  qed
  have m: "0 < m" using assms decode_width [of s] by linarith
  from decode_rune_cases [OF assms(1)] show ?thesis
  proof
    assume bad: "decode_rune s = (rune_error, 1)"
    have ne: "take m s \<noteq> []" using assms(1) m by simp
    from decode_rune_cases [OF ne] show ?thesis
    proof
      assume "valid_rune (fst (decode_rune (take m s)))
        \<and> take (snd (decode_rune (take m s))) (take m s) = encode_rune (fst (decode_rune (take m s)))"
      then obtain r k where r: "valid_rune r" "take k (take m s) = encode_rune r" by blast
      have "s = encode_rune r @ drop (min k m) s"
        using r(2) by (metis append_take_drop_id min.commute take_take)
      then have "decode_rune s = (r, length (encode_rune r))" using decode_encode r(1) by metis
      then have r1: "r = rune_error" "length (encode_rune r) = 1" using bad by simp_all
      then have "r < 0x80" using length_encode_1 by blast
      with r1(1) have False by simp
      then show ?thesis ..
    qed (simp add: bad)
  next
    assume v: "valid_rune (fst (decode_rune s)) \<and> take (snd (decode_rune s)) s = encode_rune (fst (decode_rune s))"
    then have "length (encode_rune (fst (decode_rune s))) = snd (decode_rune s)"
      using decode_width_le [of s] by (metis length_take min.absorb2)
    with v tk assms(2) show ?thesis by (metis prod.collapse)
  qed
qed

lemma segs_split: "segs s = xs @ ys \<Longrightarrow> segs (concat (map snd xs)) = xs \<and> segs (concat (map snd ys)) = ys"
proof (induction xs arbitrary: s)
  case Nil
  then show ?case using concat_segs [of s] by auto
next
  case (Cons x xs)
  let ?n = "snd (decode_rune s)"
  have ne: "s \<noteq> []" using Cons.prems by auto
  then have x: "x = (fst (decode_rune s), take ?n s)" and t: "segs (drop ?n s) = xs @ ys"
    using Cons.prems by (simp_all add: segs_step)
  note IH = Cons.IH [OF t]
  have d: "drop ?n s = concat (map snd xs) @ concat (map snd ys)"
    using t by (metis concat_append concat_segs map_append)
  let ?p = "take ?n s @ concat (map snd xs)"
  have "?p = take (?n + length (concat (map snd xs))) s"
    using d by (simp add: take_add)
  then have "decode_rune ?p = decode_rune s" using decode_prefix [OF ne] by simp
  moreover have "?p \<noteq> []" "drop ?n ?p = concat (map snd xs)" "take ?n ?p = take ?n s"
    using ne decode_width [OF ne] decode_width_le [of s] by auto
  ultimately show ?case using IH x by (simp add: segs_step)
qed

section \<open>Character classes and trimming\<close>

text \<open>\<open>unicode.IsSpace\<close>: the white-space property.\<close>

definition is_space :: "rune \<Rightarrow> bool" where
  "is_space r \<longleftrightarrow>
     (9 \<le> r \<and> r \<le> 13) \<or> r = 0x20 \<or> r = 0x85 \<or> r = 0xA0 \<or> r = 0x1680 \<or> (0x2000 \<le> r \<and> r \<le> 0x200A)
     \<or> r = 0x2028 \<or> r = 0x2029 \<or> r = 0x202F \<or> r = 0x205F \<or> r = 0x3000"

text \<open>\<open>unicode.IsControl\<close>: category Cc.\<close>

definition is_control :: "rune \<Rightarrow> bool" where
  "is_control r \<longleftrightarrow> r < 0x20 \<or> (0x7F \<le> r \<and> r \<le> 0x9F)"

definition trim :: "('a \<Rightarrow> bool) \<Rightarrow> 'a list \<Rightarrow> 'a list" where
  "trim P xs = rev (dropWhile P (rev (dropWhile P xs)))"

text \<open>\<open>strings.TrimSpace\<close>: cut the leading and trailing white-space runes.\<close>

definition trim_space :: "gostring \<Rightarrow> gostring" where
  "trim_space s = concat (map snd (trim (is_space \<circ> fst) (segs s)))"

text \<open>\<open>strings.TrimRight(s, " ")\<close>: a cutset of one ASCII byte.\<close>

definition trim_right_sp :: "gostring \<Rightarrow> gostring" where
  "trim_right_sp s = rev (dropWhile (\<lambda>b. b = 0x20) (rev s))"

lemma trim_map: "trim P (map f xs) = map f (trim (P \<circ> f) xs)"
  by (simp add: trim_def dropWhile_map rev_map)

lemma trim_Nil [simp]: "trim P [] = []"
  by (simp add: trim_def)

lemma trim_sublist: "\<exists>as bs. xs = as @ trim P xs @ bs \<and> list_all P as \<and> list_all P bs"
proof -
  let ?m = "dropWhile P xs"
  have "xs = takeWhile P xs @ ?m" by simp
  moreover have "?m = trim P xs @ rev (takeWhile P (rev ?m))"
    unfolding trim_def rev_append [symmetric] by (simp only: takeWhile_dropWhile_id rev_rev_ident)
  ultimately have "xs = takeWhile P xs @ trim P xs @ rev (takeWhile P (rev ?m))" by simp
  moreover have "list_all P (takeWhile P xs)" "list_all P (rev (takeWhile P (rev ?m)))"
    by (auto simp: list_all_iff dest: set_takeWhileD)
  ultimately show ?thesis by blast
qed

lemma set_trim: "set (trim P xs) \<subseteq> set xs"
  using trim_sublist [of xs P] by (metis Un_upper1 Un_upper2 order_trans set_append)

lemma length_trim: "length (trim P xs) \<le> length xs"
  using length_dropWhile_le [of P "rev (dropWhile P xs)"] length_dropWhile_le [of P xs]
  by (simp add: trim_def)

lemma trim_eq_Nil_iff: "trim P xs = [] \<longleftrightarrow> list_all P xs"
proof
  assume "trim P xs = []"
  then obtain as bs where "xs = as @ bs" "list_all P as" "list_all P bs"
    using trim_sublist [of xs P] by auto
  then show "list_all P xs" by simp
next
  assume "list_all P xs"
  then have "dropWhile P xs = []" by (simp only: dropWhile_eq_Nil_conv list_all_iff)
  then show "trim P xs = []" by (simp only: trim_def rev.simps dropWhile.simps)
qed

lemma trim_hd: "trim P xs \<noteq> [] \<Longrightarrow> \<not> P (hd (trim P xs))"
proof -
  assume ne: "trim P xs \<noteq> []"
  let ?m = "dropWhile P xs"
  have "?m \<noteq> []"
  proof
    assume "?m = []"
    then show False using ne by (simp only: trim_def rev.simps dropWhile.simps simp_thms)
  qed
  then have "\<not> P (hd ?m)" by (rule hd_dropWhile)
  moreover have "?m = trim P xs @ rev (takeWhile P (rev ?m))"
    unfolding trim_def rev_append [symmetric] by (simp only: takeWhile_dropWhile_id rev_rev_ident)
  ultimately show ?thesis using ne by (metis hd_append2)
qed

lemma trim_last: "trim P xs \<noteq> [] \<Longrightarrow> \<not> P (last (trim P xs))"
  unfolding trim_def by (simp only: last_rev rev_is_Nil_conv hd_dropWhile not_False_eq_True)

lemma dropWhile_hd: "xs = [] \<or> \<not> P (hd xs) \<Longrightarrow> dropWhile P xs = xs"
  by (cases xs) auto

lemma trim_id: "xs = [] \<or> (\<not> P (hd xs) \<and> \<not> P (last xs)) \<Longrightarrow> trim P xs = xs"
  by (auto simp: trim_def dropWhile_hd hd_rev)

lemma trim_idem [simp]: "trim P (trim P xs) = trim P xs"
  by (rule trim_id) (use trim_hd trim_last in blast)

lemma segs_trim_space: "segs (trim_space s) = trim (is_space \<circ> fst) (segs s)"
proof -
  obtain as bs where "segs s = as @ trim (is_space \<circ> fst) (segs s) @ bs"
    using trim_sublist by blast
  then have "segs (concat (map snd (trim (is_space \<circ> fst) (segs s) @ bs)))
      = trim (is_space \<circ> fst) (segs s) @ bs"
    using segs_split by blast
  then show ?thesis unfolding trim_space_def using segs_split by blast
qed

lemma runes_trim_space: "runes (trim_space s) = trim is_space (runes s)"
  by (simp add: runes_def segs_trim_space trim_map)

lemma trim_space_idem [simp]: "trim_space (trim_space s) = trim_space s"
  by (metis segs_trim_space trim_idem trim_space_def)

lemma segs_Nil_iff [simp]: "segs s = [] \<longleftrightarrow> s = []"
  by (metis concat.simps(1) concat_segs list.simps(8) segs_Nil)

lemma runes_Nil_iff [simp]: "runes s = [] \<longleftrightarrow> s = []"
  by (simp add: runes_def)

lemma runes_Nil [simp]: "runes [] = []"
  by simp

lemma trim_space_of_runes:
  "list_all valid_rune rs \<Longrightarrow> trim_space (of_runes rs) = of_runes (trim is_space rs)"
  by (simp only: trim_space_def segs_of_runes trim_map) (simp add: comp_def of_runes_def)

lemma trim_space_Nil [simp]: "trim_space [] = []"
  by (simp add: trim_space_def)

lemma trim_space_valid: "valid_utf8 s \<Longrightarrow> valid_utf8 (trim_space s)"
  by (metis trim_space_of_runes valid_utf8_of_runes valid_utf8_runes)

lemma list_all_trim: "list_all Q xs \<Longrightarrow> list_all Q (trim P xs)"
  using set_trim [of P xs] by (auto simp: list_all_iff)

lemma trim_member: "x \<in> set xs \<Longrightarrow> \<not> P x \<Longrightarrow> x \<in> set (trim P xs)"
proof -
  assume x: "x \<in> set xs" "\<not> P x"
  obtain as bs where "xs = as @ trim P xs @ bs" "list_all P as" "list_all P bs"
    using trim_sublist by blast
  then have "x \<in> set as \<union> set (trim P xs) \<union> set bs" "x \<notin> set as" "x \<notin> set bs"
    using x by (metis UnCI UnE set_append, auto simp: list_all_iff)
  then show ?thesis by blast
qed

end
