(* ===== verification/Json.thy ===== *)
theory Json
  imports Http Decimal Utf8
begin

text \<open>
  What the program uses of Go's \<open>encoding/json\<close>: the text of a string with its escapes, values in compact and
  in indented form, the scanner, and the decoding of objects into structs. A string is kept as it is
  written between the quotes, since a time is decoded from that text. The lemmas: \<open>unquote\<close> undoes
  \<open>quote\<close> but for ill-formed bytes, whatever is decoded is well-formed UTF-8, and a value that is written
  is read back, with anything after it.
\<close>

section \<open>Strings\<close>

text \<open>\<open>\\uXXXX\<close>.\<close>

definition u_escape :: "nat \<Rightarrow> gostring" where
  "u_escape n = [92, 117, hex_digit (n div 4096 mod 16), hex_digit (n div 256 mod 16), hex_digit (n div 16 mod 16), hex_digit (n mod 16)]"

text \<open>\<open>appendString\<close> with \<open>escapeHTML\<close>.\<close>

definition quote_rune :: "rune \<times> gostring \<Rightarrow> gostring" where
  "quote_rune x =
     (case x of (r, bs) \<Rightarrow>
        if r = rune_error \<and> length bs = 1 then u_escape rune_error
        else if r = 0x22 \<or> r = 0x5C then [92, of_nat r]
        else if r = 8 then [92, 98] else if r = 12 then [92, 102] else if r = 10 then [92, 110]
        else if r = 13 then [92, 114] else if r = 9 then [92, 116]
        else if r < 0x20 \<or> r = 0x3C \<or> r = 0x3E \<or> r = 0x26 \<or> r = 0x2028 \<or> r = 0x2029 then u_escape r
        else bs)"

definition quote :: "gostring \<Rightarrow> gostring" where
  "quote s = concat (map quote_rune (segs s))"

definition hex_val :: "byte \<Rightarrow> nat option" where
  "hex_val b =
     (let n = unat b
      in if 48 \<le> n \<and> n \<le> 57 then Some (n - 48) else if 97 \<le> n \<and> n \<le> 102 then Some (n - 87)
         else if 65 \<le> n \<and> n \<le> 70 then Some (n - 55) else None)"

definition hex4 :: "gostring \<Rightarrow> nat option" where
  "hex4 s =
     (case s of
        a # b # c # d # r \<Rightarrow>
          (case (hex_val a, hex_val b, hex_val c, hex_val d) of
             (Some a, Some b, Some c, Some d) \<Rightarrow> Some (a * 4096 + b * 256 + c * 16 + d)
           | _ \<Rightarrow> None)
      | _ \<Rightarrow> None)"

text \<open>\<open>stateInString\<close> and the states of an escape: the text up to the closing quote, and the rest.\<close>

fun scan_str :: "gostring \<Rightarrow> (gostring \<times> gostring) option" where
  "scan_str [] = None"
| "scan_str (c # s) =
     (if c = 34 then Some ([], s)
      else if c = 92 then
        (case s of
           [] \<Rightarrow> None
         | e # s' \<Rightarrow>
             if e \<in> {34, 92, 47, 98, 102, 110, 114, 116} then map_option (\<lambda>(a, r). (c # e # a, r)) (scan_str s')
             else if e = 117 \<and> hex4 s' \<noteq> None
             then map_option (\<lambda>(a, r). (c # e # take 4 s' @ a, r)) (scan_str (drop 4 s'))
             else None)
      else if unat c < 32 then None
      else map_option (\<lambda>(a, r). (c # a, r)) (scan_str s))"

text \<open>\<open>unquoteBytes\<close> on a text the scanner has passed. Half of a surrogate pair becomes the replacement
  rune, and so does every byte that is not UTF-8.\<close>

definition unescape :: "byte \<Rightarrow> byte" where
  "unescape e = (if e = 98 then 8 else if e = 102 then 12 else if e = 110 then 10 else if e = 114 then 13
     else if e = 116 then 9 else e)"

definition surrogate :: "nat \<Rightarrow> bool" where
  "surrogate r \<longleftrightarrow> 0xD800 \<le> r \<and> r \<le> 0xDFFF"

definition pair_of :: "nat \<Rightarrow> gostring \<Rightarrow> rune option" where
  "pair_of hi s =
     (if take 2 s = [92, 117]
      then (case hex4 (drop 2 s) of
              Some lo \<Rightarrow> if hi < 0xDC00 \<and> 0xDC00 \<le> lo \<and> lo \<le> 0xDFFF
                then Some ((hi - 0xD800) * 1024 + (lo - 0xDC00) + 0x10000) else None
            | None \<Rightarrow> None)
      else None)"

function unquote :: "gostring \<Rightarrow> gostring" where
  "unquote s =
     (case s of
        [] \<Rightarrow> []
      | c # t \<Rightarrow>
          if c = 92 then
            (case t of
               [] \<Rightarrow> []
             | e # t' \<Rightarrow>
                 if e = 117 then
                   (case hex4 t' of
                      None \<Rightarrow> []
                    | Some r \<Rightarrow>
                        if surrogate r then
                          (case pair_of r (drop 4 t') of
                             Some r' \<Rightarrow> encode_rune r' @ unquote (drop 10 t')
                           | None \<Rightarrow> encode_rune rune_error @ unquote (drop 4 t'))
                        else encode_rune r @ unquote (drop 4 t'))
                 else encode_rune (unat (unescape e)) @ unquote t')
          else encode_rune (fst (decode_rune s)) @ unquote (drop (snd (decode_rune s)) s))"
  by pat_completeness auto
termination
proof (relation "measure length", goal_cases)
  case (6 s c t)
  then show ?case using decode_width [of s] by simp
qed auto

declare unquote.simps [simp del]

lemma hex_val_digit [simp]: "n < 16 \<Longrightarrow> hex_val (hex_digit n) = Some n"
  by (auto simp: hex_val_def hex_digit_def Let_def unat_of_nat)

lemma base16:
  fixes n :: nat
  shows "n div 4096 * 4096 + n div 256 mod 16 * 256 + n div 16 mod 16 * 16 + n mod 16 = n"
proof -
  define a b c where "a = n div 16" and "b = a div 16" and "c = b div 16"
  have d: "n div 256 = b" "n div 4096 = c" by (simp_all add: a_def b_def c_def div_mult2_eq [symmetric])
  show ?thesis
    using div_mult_mod_eq [of n 16] div_mult_mod_eq [of a 16] div_mult_mod_eq [of b 16]
    unfolding d a_def [symmetric] b_def [symmetric] c_def [symmetric] by linarith
qed

lemma hex4_u_escape [simp]: "n < 65536 \<Longrightarrow> hex4 (drop 2 (u_escape n) @ t) = Some n"
  by (simp add: hex4_def u_escape_def base16)

lemma u_escape_split: "u_escape n = 92 # 117 # drop 2 (u_escape n)" "length (drop 2 (u_escape n)) = 4"
  by (simp_all add: u_escape_def)

text \<open>A text the scanner passes over inside a string.\<close>

definition passes :: "gostring \<Rightarrow> bool" where
  "passes p \<longleftrightarrow> (\<forall>t. scan_str (p @ t) = map_option (\<lambda>(a, r). (p @ a, r)) (scan_str t))"

lemma passes_Nil [simp]: "passes []"
  by (simp add: passes_def option.map_ident_strong case_prod_beta)

lemma passes_append: "passes p \<Longrightarrow> passes q \<Longrightarrow> passes (p @ q)"
  by (simp add: passes_def option.map_comp comp_def case_prod_unfold)

lemma passes_u_escape: "n < 65536 \<Longrightarrow> passes (u_escape n)"
proof -
  assume n: "n < 65536"
  define h where "h = drop 2 (u_escape n)"
  have u: "u_escape n = 92 # 117 # h" "length h = 4" "hex4 (h @ t) = Some n" for t
    using n u_escape_split by (simp_all add: h_def)
  then show ?thesis by (simp add: passes_def)
qed

lemma passes_plain: "unat c \<ge> 32 \<Longrightarrow> c \<noteq> 34 \<Longrightarrow> c \<noteq> 92 \<Longrightarrow> passes [c]"
  by (simp add: passes_def)

lemma passes_bytes: "list_all (\<lambda>c. 32 \<le> unat c \<and> c \<noteq> 34 \<and> c \<noteq> 92) bs \<Longrightarrow> passes bs"
proof (induction bs)
  case (Cons c bs)
  then show ?case using passes_append [OF passes_plain, of c bs] by simp
qed simp

lemma encode_rune_high: "0x80 \<le> r \<Longrightarrow> list_all (\<lambda>c. 0x80 \<le> unat c) (encode_rune r)"
proof -
  assume r: "0x80 \<le> r"
  have b: "unat (of_nat (k + m mod 64) :: byte) = k + m mod 64" if "k \<le> 0x80" for k m :: nat
  proof -
    have "m mod 64 < 64" by simp
    then have "k + m mod 64 < 256" using that by linarith
    then show ?thesis by (rule unat_byte)
  qed
  consider "r \<le> 0x7FF" | "\<not> r \<le> 0x7FF" "\<not> valid_rune r" | "\<not> r \<le> 0x7FF" "valid_rune r" "r \<le> 0xFFFF"
    | "\<not> r \<le> 0x7FF" "valid_rune r" "\<not> r \<le> 0xFFFF" by blast
  then show ?thesis
  proof cases
    case 1
    then have "192 + r div 64 < 256" by auto
    with 1 r show ?thesis by (simp add: encode_rune_def b unat_byte del: of_nat_add)
  next
    case 3
    then have "224 + r div 4096 < 256" by auto
    with 3 r show ?thesis by (simp add: encode_rune_def b unat_byte del: of_nat_add)
  next
    case 4
    then have "240 + r div 262144 < 256" by (auto simp: valid_rune_def)
    with 4 r show ?thesis by (simp add: encode_rune_def b unat_byte del: of_nat_add)
  qed (use r in \<open>simp add: encode_rune_def\<close>)
qed

lemma encode_rune_ascii: "r < 0x80 \<Longrightarrow> encode_rune r = [of_nat r]"
  by (simp add: encode_rune_def)

lemma of_nat_byte_eq: "m < 256 \<Longrightarrow> n < 256 \<Longrightarrow> (of_nat m :: byte) = of_nat n \<longleftrightarrow> m = n"
  by (metis unat_byte)

lemma quote_rune_pass:
  assumes "(r, bs) \<in> set (segs s)"
  shows "passes (quote_rune (r, bs))"
proof -
  have simple: "passes [92, e]" if "e \<in> {34, 92, 47, 98, 102, 110, 114, 116}" for e :: byte
    using that by (auto simp: passes_def)
  consider "r = rune_error" "length bs = 1" | "\<not> (r = rune_error \<and> length bs = 1)" "valid_rune r" "bs = encode_rune r"
    using segs_sound [OF assms] by blast
  then show ?thesis
  proof cases
    case 1
    then show ?thesis by (simp add: quote_rune_def passes_u_escape)
  next
    case 2
    have "passes (encode_rune r)" if "\<not> r < 0x20" "r \<noteq> 0x22" "r \<noteq> 0x5C"
    proof (cases "r < 0x80")
      case True
      have "(of_nat r :: byte) \<noteq> of_nat 34" "(of_nat r :: byte) \<noteq> of_nat 92"
        using True that of_nat_byte_eq [of r 34] of_nat_byte_eq [of r 92] by simp_all
      then show ?thesis using True that unat_byte [of r] by (simp add: encode_rune_ascii passes_plain)
    next
      case False
      have "32 \<le> unat c \<and> c \<noteq> 34 \<and> c \<noteq> 92" if "0x80 \<le> unat c" for c :: byte using that by auto
      with encode_rune_high [of r] False show ?thesis
        by (intro passes_bytes) (auto elim: list.pred_mono_strong)
    qed
    then show ?thesis using 2 simple by (auto simp: quote_rune_def passes_u_escape)
  qed
qed

lemma quote_passes: "passes (quote s)"
proof -
  have "passes (concat (map quote_rune xs))" if "set xs \<subseteq> set (segs s)" for xs
    using that by (induction xs) (auto simp: quote_rune_pass intro!: passes_append)
  then show ?thesis by (simp add: quote_def)
qed

text \<open>The text between two quotes is any text the scanner passes.\<close>

definition raw_ok :: "gostring \<Rightarrow> bool" where
  "raw_ok raw \<longleftrightarrow> (\<forall>t. scan_str (raw @ 34 # t) = Some (raw, t))"

lemma passes_raw: "passes p \<Longrightarrow> raw_ok p"
  by (simp add: passes_def raw_ok_def)

lemma quote_ok [simp]: "raw_ok (quote s)"
  by (rule passes_raw [OF quote_passes])

lemma unquote_Nil [simp]: "unquote [] = []"
  by (simp add: unquote.simps)

lemma unquote_u_escape:
  assumes "n < 65536" "\<not> surrogate n"
  shows "unquote (u_escape n @ t) = encode_rune n @ unquote t"
proof -
  define h where "h = drop 2 (u_escape n)"
  have u: "u_escape n = 92 # 117 # h" "length h = 4" "hex4 (h @ t) = Some n"
    using assms(1) u_escape_split by (simp_all add: h_def)
  then show ?thesis using assms(2) by (simp add: unquote.simps [of "92 # 117 # h @ t"])
qed

lemma unquote_simple: "e \<noteq> 117 \<Longrightarrow> unquote (92 # e # t) = encode_rune (unat (unescape e)) @ unquote t"
  by (simp add: unquote.simps [of "92 # e # t"])

lemma unquote_rune:
  assumes "valid_rune r" "r \<noteq> 0x5C"
  shows "unquote (encode_rune r @ t) = encode_rune r @ unquote t"
proof -
  obtain c cs where c: "encode_rune r = c # cs" by (cases "encode_rune r") auto
  have "c \<noteq> 92"
  proof (cases "r < 0x80")
    case True
    with c assms(2) of_nat_byte_eq [of r 92] show ?thesis by (auto simp: encode_rune_ascii)
  next
    case False
    with encode_rune_high [of r] c show ?thesis by auto
  qed
  then show ?thesis using decode_encode [OF assms(1), of t] c by (simp add: unquote.simps [of "c # cs @ t"])
qed

lemma unquote_quote_rune:
  assumes "(r, bs) \<in> set (segs s)"
  shows "unquote (quote_rune (r, bs) @ t) = encode_rune r @ unquote t"
proof -
  consider "r = rune_error" "length bs = 1" | "\<not> (r = rune_error \<and> length bs = 1)" "valid_rune r" "bs = encode_rune r"
    using segs_sound [OF assms] by blast
  then show ?thesis
  proof cases
    case 1
    then show ?thesis by (simp add: quote_rune_def unquote_u_escape surrogate_def)
  next
    case 2
    have low: "unat (of_nat r :: byte) = r" if "r < 128" using that by (intro unat_byte) simp
    have ne: "(of_nat r :: byte) \<noteq> 117" if "r = 0x22 \<or> r = 0x5C" using that by auto
    show ?thesis using 2(1) unfolding 2(3)
      by (auto simp: quote_rune_def unquote_simple unescape_def unquote_u_escape surrogate_def unquote_rune 2(2) low ne)
  qed
qed

text \<open>What is left of a string that is written as JSON: every byte that is not UTF-8 becomes the
  replacement rune.\<close>

definition clean :: "gostring \<Rightarrow> gostring" where
  "clean s = of_runes (runes s)"

lemma unquote_quote: "unquote (quote s) = clean s"
proof -
  have "unquote (concat (map quote_rune xs)) = of_runes (map fst xs)" if "set xs \<subseteq> set (segs s)" for xs
    using that by (induction xs) (auto simp: unquote_quote_rune)
  from this [of "segs s"] show ?thesis by (simp add: quote_def clean_def runes_def)
qed

lemma clean_valid [simp]: "valid_utf8 (clean s)"
  by (simp add: clean_def)

lemma clean_id [simp]: "valid_utf8 s \<Longrightarrow> clean s = s"
  using valid_utf8_runes by (simp add: clean_def)

lemma valid_encode_append: "valid_utf8 s \<Longrightarrow> valid_utf8 (encode_rune r @ s)"
  by (metis of_runes_simps(2) valid_utf8_iff valid_utf8_of_runes)

lemma unquote_valid: "valid_utf8 (unquote raw)"
proof (induction raw rule: unquote.induct)
  case (1 s)
  have nil: "valid_utf8 []" by (simp add: valid_utf8_def)
  show ?case
  proof (cases s)
    case (Cons c t)
    show ?thesis
    proof (cases "c = 92")
      case False
      then have "unquote s = encode_rune (fst (decode_rune s)) @ unquote (drop (snd (decode_rune s)) s)"
        unfolding unquote.simps [of s] using Cons by (simp del: decode_rune.simps)
      with 1(5) [OF Cons False] show ?thesis by (simp only: valid_encode_append)
    next
      case c: True
      show ?thesis
      proof (cases t)
        case t: (Cons e t')
        note IH = 1(1-4) [OF Cons c t]
        show ?thesis
        proof (cases "e = 117")
          case False
          with IH(4) Cons c t show ?thesis by (simp add: unquote_simple valid_encode_append)
        next
          case e: True
          show ?thesis
          proof (cases "hex4 t'")
            case (Some r)
            have "unquote s = (if surrogate r then
                (case pair_of r (drop 4 t') of
                   Some r' \<Rightarrow> encode_rune r' @ unquote (drop 10 t')
                 | None \<Rightarrow> encode_rune rune_error @ unquote (drop 4 t'))
              else encode_rune r @ unquote (drop 4 t'))"
              unfolding unquote.simps [of s] using Cons c t e Some by simp
            with IH(1-3) [OF e Some] show ?thesis
              by (cases "pair_of r (drop 4 t')") (simp_all add: valid_encode_append)
          next
            case None
            then have "unquote s = []" unfolding unquote.simps [of s] using Cons c t e by simp
            with nil show ?thesis by simp
          qed
        qed
      next
        case Nil
        then have "unquote s = []" unfolding unquote.simps [of s] using Cons c by simp
        with nil show ?thesis by simp
      qed
    qed
  qed (use nil in simp)
qed

section \<open>Values\<close>

datatype json = JNull | JBool bool | JNum number | JStr gostring | JArr "json list" | JObj "(gostring \<times> json) list"

text \<open>
  The text of a value: compact, or with \<open>SetIndent\<close>. \<open>nl d\<close> is what goes between the elements at depth
  \<open>d\<close>, and \<open>sp\<close> what follows a colon.
\<close>

fun json_text :: "(nat \<Rightarrow> gostring) \<Rightarrow> gostring \<Rightarrow> nat \<Rightarrow> json \<Rightarrow> gostring"
  and arr_rest :: "(nat \<Rightarrow> gostring) \<Rightarrow> gostring \<Rightarrow> nat \<Rightarrow> json list \<Rightarrow> gostring"
  and obj_rest :: "(nat \<Rightarrow> gostring) \<Rightarrow> gostring \<Rightarrow> nat \<Rightarrow> (gostring \<times> json) list \<Rightarrow> gostring" where
  "json_text nl sp d JNull = str ''null''"
| "json_text nl sp d (JBool b) = (if b then str ''true'' else str ''false'')"
| "json_text nl sp d (JNum n) = num_text n"
| "json_text nl sp d (JStr raw) = 34 # raw @ [34]"
| "json_text nl sp d (JArr []) = [91, 93]"
| "json_text nl sp d (JArr (x # xs)) = 91 # nl (Suc d) @ json_text nl sp (Suc d) x @ arr_rest nl sp d xs"
| "json_text nl sp d (JObj []) = [123, 125]"
| "json_text nl sp d (JObj ((k, x) # fs)) =
     123 # nl (Suc d) @ 34 # k @ 34 # 58 # sp @ json_text nl sp (Suc d) x @ obj_rest nl sp d fs"
| "arr_rest nl sp d [] = nl d @ [93]"
| "arr_rest nl sp d (x # xs) = 44 # nl (Suc d) @ json_text nl sp (Suc d) x @ arr_rest nl sp d xs"
| "obj_rest nl sp d [] = nl d @ [125]"
| "obj_rest nl sp d ((k, x) # fs) = 44 # nl (Suc d) @ 34 # k @ 34 # 58 # sp @ json_text nl sp (Suc d) x @ obj_rest nl sp d fs"

text \<open>\<open>json.Marshal\<close>; \<open>Encoder.Encode\<close>, which adds a line break; and \<open>Encode\<close> after \<open>SetIndent("", "  ")\<close>.\<close>

definition json_marshal :: "json \<Rightarrow> gostring" where
  "json_marshal j = json_text (\<lambda>d. []) [] 0 j"

definition json_encode :: "json \<Rightarrow> gostring" where
  "json_encode j = json_marshal j @ [10]"

definition json_indent :: "json \<Rightarrow> gostring" where
  "json_indent j = json_text (\<lambda>d. 10 # replicate (2 * d) 32) [32] 0 j @ [10]"

text \<open>The scanner. \<open>n\<close> is fuel, \<open>d\<close> the number of arrays and objects around the value, which must not
  exceed 10000.\<close>

definition is_ws :: "byte \<Rightarrow> bool" where
  "is_ws b \<longleftrightarrow> b = 32 \<or> b = 9 \<or> b = 10 \<or> b = 13"

definition skip_ws :: "gostring \<Rightarrow> gostring" where
  "skip_ws s = dropWhile is_ws s"

definition scan_word :: "string \<Rightarrow> json \<Rightarrow> gostring \<Rightarrow> (json \<times> gostring) option" where
  "scan_word w v s = (if take (length w) s = str w then Some (v, drop (length w) s) else None)"

fun scan_value :: "nat \<Rightarrow> nat \<Rightarrow> gostring \<Rightarrow> (json \<times> gostring) option"
  and scan_elems :: "nat \<Rightarrow> nat \<Rightarrow> gostring \<Rightarrow> (json list \<times> gostring) option"
  and scan_members :: "nat \<Rightarrow> nat \<Rightarrow> gostring \<Rightarrow> ((gostring \<times> json) list \<times> gostring) option" where
  "scan_value 0 d s = None"
| "scan_value (Suc n) d s =
     (case skip_ws s of
        [] \<Rightarrow> None
      | c # r \<Rightarrow>
          if c = 123 then
            (if 10000 \<le> d then None
             else if take 1 (skip_ws r) = [125] then Some (JObj [], drop 1 (skip_ws r))
             else map_option (map_prod JObj (\<lambda>r. r)) (scan_members n (Suc d) r))
          else if c = 91 then
            (if 10000 \<le> d then None
             else if take 1 (skip_ws r) = [93] then Some (JArr [], drop 1 (skip_ws r))
             else map_option (map_prod JArr (\<lambda>r. r)) (scan_elems n (Suc d) r))
          else if c = 34 then map_option (map_prod JStr (\<lambda>r. r)) (scan_str r)
          else if c = 116 then scan_word ''true'' (JBool True) (c # r)
          else if c = 102 then scan_word ''false'' (JBool False) (c # r)
          else if c = 110 then scan_word ''null'' JNull (c # r)
          else map_option (map_prod JNum (\<lambda>r. r)) (scan_num (c # r)))"
| "scan_elems 0 d s = None"
| "scan_elems (Suc n) d s =
     (case scan_value n d s of
        None \<Rightarrow> None
      | Some (v, r) \<Rightarrow>
          (case skip_ws r of
             [] \<Rightarrow> None
           | c # r \<Rightarrow>
               if c = 44 then map_option (map_prod (Cons v) (\<lambda>r. r)) (scan_elems n d r)
               else if c = 93 then Some ([v], r)
               else None))"
| "scan_members 0 d s = None"
| "scan_members (Suc n) d s =
     (if take 1 (skip_ws s) \<noteq> [34] then None
      else
        (case scan_str (drop 1 (skip_ws s)) of
           None \<Rightarrow> None
         | Some (k, r) \<Rightarrow>
             if take 1 (skip_ws r) \<noteq> [58] then None
             else
               (case scan_value n d (drop 1 (skip_ws r)) of
                  None \<Rightarrow> None
                | Some (v, r) \<Rightarrow>
                    (case skip_ws r of
                       [] \<Rightarrow> None
                     | c # r \<Rightarrow>
                         if c = 44 then map_option (map_prod (Cons (k, v)) (\<lambda>r. r)) (scan_members n d r)
                         else if c = 125 then Some ([(k, v)], r)
                         else None))))"

text \<open>\<open>Decoder.Decode\<close> reads one value and leaves what follows; \<open>Unmarshal\<close> takes nothing but white space after it.\<close>

definition json_decode :: "gostring \<Rightarrow> json option" where
  "json_decode s = map_option fst (scan_value (2 * length s + 1) 0 s)"

definition json_unmarshal :: "gostring \<Rightarrow> json option" where
  "json_unmarshal s =
     (case scan_value (2 * length s + 1) 0 s of None \<Rightarrow> None | Some (v, r) \<Rightarrow> if skip_ws r = [] then Some v else None)"

section \<open>What is written is read back\<close>

fun json_ok :: "json \<Rightarrow> bool" where
  "json_ok (JNum n) = num_ok n"
| "json_ok (JStr raw) = raw_ok raw"
| "json_ok (JArr xs) = list_all json_ok xs"
| "json_ok (JObj fs) = list_all (\<lambda>(k, x). raw_ok k \<and> json_ok x) fs"
| "json_ok _ = True"

fun json_depth :: "json \<Rightarrow> nat" where
  "json_depth (JArr xs) = Suc (fold (\<lambda>x m. max (json_depth x) m) xs 0)"
| "json_depth (JObj fs) = Suc (fold (\<lambda>(k, x) m. max (json_depth x) m) fs 0)"
| "json_depth _ = 0"

lemma fold_max_le: "fold (\<lambda>x m. max (f x) m) xs a \<le> b \<longleftrightarrow> a \<le> b \<and> list_all (\<lambda>x. f x \<le> b) xs"
  for f :: "'a \<Rightarrow> nat"
  by (induction xs arbitrary: a) auto

lemma json_depth_le:
  "json_depth (JArr xs) \<le> Suc m \<longleftrightarrow> list_all (\<lambda>x. json_depth x \<le> m) xs"
  "json_depth (JObj fs) \<le> Suc m \<longleftrightarrow> list_all (\<lambda>(k, x). json_depth x \<le> m) fs"
  using fold_max_le [of json_depth xs 0 m] fold_max_le [of "\<lambda>(k, x). json_depth x" fs 0 m]
  by (simp_all add: case_prod_unfold)

lemma skip_ws_simps [simp]:
  "skip_ws [] = []" "\<not> is_ws c \<Longrightarrow> skip_ws (c # s) = c # s" "is_ws c \<Longrightarrow> skip_ws (c # s) = skip_ws s"
  by (simp_all add: skip_ws_def)

lemma skip_ws_append: "list_all is_ws w \<Longrightarrow> skip_ws (w @ s) = skip_ws s"
  by (induction w) auto

lemma not_ws [simp]: "\<not> is_ws 34" "\<not> is_ws 44" "\<not> is_ws 58" "\<not> is_ws 91" "\<not> is_ws 93" "\<not> is_ws 123" "\<not> is_ws 125"
  "\<not> is_ws 116" "\<not> is_ws 102" "\<not> is_ws 110" "\<not> is_ws 45"
  by (simp_all add: is_ws_def)

lemma dec_not_ws: "is_dec c \<Longrightarrow> \<not> is_ws c \<and> c \<notin> {34, 91, 123, 116, 102, 110}"
  by (auto simp: is_dec_def is_ws_def)

lemma ws_num_end: "list_all is_ws w \<Longrightarrow> num_end t \<Longrightarrow> num_end (w @ t)"
  by (cases w) (auto simp: num_end_def is_ws_def is_dec_def)

lemma num_text_hd: "num_ok n \<Longrightarrow> \<exists>c r. num_text n = c # r \<and> (c = 45 \<or> is_dec c)"
  by (cases "nm_int n") (auto simp: num_text_def num_ok_def)

lemma scan_value_num:
  assumes "num_ok n" "num_end t"
  shows "scan_value (Suc k) d (num_text n @ t) = Some (JNum n, t)"
proof -
  obtain c r where c: "num_text n = c # r" "c = 45 \<or> is_dec c" using num_text_hd [OF assms(1)] by blast
  then have "\<not> is_ws c \<and> c \<notin> {34, 91, 123, 116, 102, 110}" using dec_not_ws by auto
  with scan_num_text [OF assms] c(1) show ?thesis by simp
qed

text \<open>The first byte of a value's text is no white space and no closing bracket.\<close>

lemma json_text_hd:
  "json_ok j \<Longrightarrow> \<exists>c r. json_text nl sp e j = c # r \<and> \<not> is_ws c \<and> c \<notin> {93, 125}"
proof (cases j)
  case (JNum n)
  assume "json_ok j"
  with JNum obtain c r where "num_text n = c # r" "c = 45 \<or> is_dec c" using num_text_hd [of n] by auto
  then show ?thesis using JNum dec_not_ws [of c] by (auto simp: is_dec_def)
next
  case (JArr xs)
  then show ?thesis by (cases xs) auto
next
  case (JObj fs)
  then show ?thesis by (cases fs) auto
qed auto

lemma scan_word_str: "scan_word w v (str w @ t) = Some (v, t)"
  by (simp add: scan_word_def)

lemmas scan_words = scan_word_str [of "''true''", simplified] scan_word_str [of "''false''", simplified]
  scan_word_str [of "''null''", simplified]

locale layout =
  fixes nl :: "nat \<Rightarrow> gostring" and sp :: gostring
  assumes blank: "list_all is_ws (nl d)" "list_all is_ws sp"
begin

lemma brackets_end: "num_end (44 # t)" "num_end (nl e @ 93 # t)" "num_end (nl e @ 125 # t)"
  by (simp add: num_end_def is_dec_def) (rule ws_num_end [OF blank(1)], simp add: num_end_def is_dec_def)+

lemma rest_end: "num_end (arr_rest nl sp e xs @ t)" "num_end (obj_rest nl sp e fs @ t)"
  by (cases xs; simp add: brackets_end) (cases fs; auto simp: brackets_end)

lemma skip_nl [simp]: "skip_ws (nl e @ s) = skip_ws s" "skip_ws (sp @ s) = skip_ws s"
  by (simp_all add: skip_ws_append blank)

lemma scan_value_skip:
  "scan_value k d (nl e @ s) = scan_value k d s" "scan_value k d (sp @ s) = scan_value k d s"
  by (cases k; simp)+

definition reads :: "json \<Rightarrow> bool" where
  "reads x \<longleftrightarrow> (\<forall>e n d t. num_end t \<longrightarrow> d + json_depth x \<le> 10000 \<longrightarrow> 2 * length (json_text nl sp e x) \<le> n \<longrightarrow>
     scan_value n d (json_text nl sp e x @ t) = Some (x, t))"

lemma readsD:
  "reads x \<Longrightarrow> num_end t \<Longrightarrow> d + json_depth x \<le> 10000 \<Longrightarrow> 2 * length (json_text nl sp e x) \<le> n \<Longrightarrow>
     scan_value n d (json_text nl sp e x @ t) = Some (x, t)"
  by (simp add: reads_def)

lemma read_elems:
  "list_all (\<lambda>x. reads x \<and> d + json_depth x \<le> 10000) (x # xs) \<Longrightarrow>
     2 * length (json_text nl sp (Suc e) x @ arr_rest nl sp e xs) \<le> n \<Longrightarrow>
     scan_elems n d (json_text nl sp (Suc e) x @ arr_rest nl sp e xs @ t) = Some (x # xs, t)"
proof (induction xs arbitrary: x n)
  case Nil
  then obtain k where n: "n = Suc k" by (cases n) auto
  have "scan_value k d (json_text nl sp (Suc e) x @ arr_rest nl sp e [] @ t) = Some (x, arr_rest nl sp e [] @ t)"
    using Nil n by (intro readsD rest_end) auto
  then show ?case by (simp add: n)
next
  case (Cons y ys)
  then obtain k where n: "n = Suc k" by (cases n) auto
  have "scan_value k d (json_text nl sp (Suc e) x @ arr_rest nl sp e (y # ys) @ t) = Some (x, arr_rest nl sp e (y # ys) @ t)"
    using Cons.prems n by (intro readsD rest_end) auto
  moreover have "scan_elems k d (json_text nl sp (Suc e) y @ arr_rest nl sp e ys @ t) = Some (y # ys, t)"
    using Cons.prems n by (intro Cons.IH) auto
  then have "scan_elems k d (nl (Suc e) @ json_text nl sp (Suc e) y @ arr_rest nl sp e ys @ t) = Some (y # ys, t)"
    by (cases k) (simp_all add: scan_value_skip)
  ultimately show ?case by (simp add: n)
qed

lemma read_members:
  "list_all (\<lambda>(k, x). raw_ok k \<and> reads x \<and> d + json_depth x \<le> 10000) ((k, x) # fs) \<Longrightarrow>
     2 * length (34 # k @ 34 # 58 # sp @ json_text nl sp (Suc e) x @ obj_rest nl sp e fs) \<le> n \<Longrightarrow>
     scan_members n d (34 # k @ 34 # 58 # sp @ json_text nl sp (Suc e) x @ obj_rest nl sp e fs @ t) = Some ((k, x) # fs, t)"
proof (induction fs arbitrary: k x n)
  case Nil
  then obtain m where n: "n = Suc m" by (cases n) auto
  have "scan_value m d (json_text nl sp (Suc e) x @ obj_rest nl sp e [] @ t) = Some (x, obj_rest nl sp e [] @ t)"
    using Nil n by (intro readsD rest_end) auto
  then show ?case using Nil.prems(1) by (simp add: n raw_ok_def scan_value_skip)
next
  case (Cons f fs)
  obtain k' y where f: "f = (k', y)" by (cases f)
  from Cons obtain m where n: "n = Suc m" by (cases n) auto
  have "scan_value m d (json_text nl sp (Suc e) x @ obj_rest nl sp e (f # fs) @ t) = Some (x, obj_rest nl sp e (f # fs) @ t)"
    using Cons.prems n by (intro readsD rest_end) auto
  moreover have "scan_members m d (34 # k' @ 34 # 58 # sp @ json_text nl sp (Suc e) y @ obj_rest nl sp e fs @ t) = Some ((k', y) # fs, t)"
    using Cons.prems n f by (intro Cons.IH) auto
  then have "scan_members m d (nl (Suc e) @ 34 # k' @ 34 # 58 # sp @ json_text nl sp (Suc e) y @ obj_rest nl sp e fs @ t) = Some ((k', y) # fs, t)"
    by (cases m) simp_all
  ultimately show ?case using Cons.prems(1) by (simp add: n f raw_ok_def scan_value_skip)
qed

lemma all_read: "json_ok x \<Longrightarrow> reads x"
proof (induction x)
  case (JNum m)
  have "num_text m \<noteq> []" using JNum num_text_hd [of m] by auto
  then show ?case unfolding reads_def using JNum
    by (intro allI impI, rename_tac e n d t, case_tac n) (simp_all add: scan_value_num del: scan_value.simps)
next
  case (JStr raw)
  then show ?case unfolding reads_def
    by (intro allI impI, rename_tac e n d t, case_tac n) (simp_all add: raw_ok_def)
next
  case (JArr xs)
  show ?case unfolding reads_def
  proof (intro allI impI)
    fix e n d t
    assume t: "num_end t" and d: "d + json_depth (JArr xs) \<le> 10000" and l: "2 * length (json_text nl sp e (JArr xs)) \<le> n"
    then obtain k where n: "n = Suc k" by (cases n; cases xs) auto
    have "json_depth (JArr xs) \<le> Suc (9999 - d)" "d \<le> 9999" using d by auto
    then have "list_all (\<lambda>x. json_depth x \<le> 9999 - d) xs" by (simp only: json_depth_le)
    then have all: "list_all (\<lambda>x. reads x \<and> Suc d + json_depth x \<le> 10000) xs"
      using JArr \<open>d \<le> 9999\<close> by (auto simp: list_all_iff)
    show "scan_value n d (json_text nl sp e (JArr xs) @ t) = Some (JArr xs, t)"
    proof (cases xs)
      case Nil
      with n \<open>d \<le> 9999\<close> show ?thesis by simp
    next
      case (Cons y ys)
      have "json_ok y" using JArr.prems Cons by simp
      then obtain c r where c: "json_text nl sp (Suc e) y = c # r" "\<not> is_ws c" "c \<notin> {93, 125}" using json_text_hd by blast
      have "scan_elems k (Suc d) (json_text nl sp (Suc e) y @ arr_rest nl sp e ys @ t) = Some (y # ys, t)"
        using all l Cons n by (intro read_elems) auto
      then have "scan_elems k (Suc d) (nl (Suc e) @ json_text nl sp (Suc e) y @ arr_rest nl sp e ys @ t) = Some (y # ys, t)"
        by (cases k) (simp_all add: scan_value_skip)
      then show ?thesis using Cons n c \<open>d \<le> 9999\<close> by simp
    qed
  qed
next
  case (JObj fs)
  show ?case unfolding reads_def
  proof (intro allI impI)
    fix e n d t
    assume t: "num_end t" and d: "d + json_depth (JObj fs) \<le> 10000" and l: "2 * length (json_text nl sp e (JObj fs)) \<le> n"
    then obtain m where n: "n = Suc m" by (cases n; cases fs) auto
    have "json_depth (JObj fs) \<le> Suc (9999 - d)" "d \<le> 9999" using d by auto
    then have "list_all (\<lambda>(k, x). json_depth x \<le> 9999 - d) fs" by (simp only: json_depth_le)
    then have all: "list_all (\<lambda>(k, x). raw_ok k \<and> reads x \<and> Suc d + json_depth x \<le> 10000) fs"
      using JObj \<open>d \<le> 9999\<close> by (fastforce simp: list_all_iff snds.simps)
    show "scan_value n d (json_text nl sp e (JObj fs) @ t) = Some (JObj fs, t)"
    proof (cases fs)
      case Nil
      with n \<open>d \<le> 9999\<close> show ?thesis by simp
    next
      case (Cons f gs)
      obtain k y where f: "f = (k, y)" by (cases f)
      have "scan_members m (Suc d) (34 # k @ 34 # 58 # sp @ json_text nl sp (Suc e) y @ obj_rest nl sp e gs @ t) = Some ((k, y) # gs, t)"
        using all l Cons n f by (intro read_members) auto
      then have "scan_members m (Suc d) (nl (Suc e) @ 34 # k @ 34 # 58 # sp @ json_text nl sp (Suc e) y @ obj_rest nl sp e gs @ t) = Some ((k, y) # gs, t)"
        by (cases m) simp_all
      then show ?thesis using Cons n f \<open>d \<le> 9999\<close> by simp
    qed
  qed
next
  case (JBool b)
  then show ?case unfolding reads_def
    by (intro allI impI, rename_tac e n d t, case_tac n; cases b) (auto simp: scan_words)
next
  case JNull
  then show ?case unfolding reads_def
    by (intro allI impI, rename_tac e n d t, case_tac n) (auto simp: scan_words)
qed

lemma decode_text:
  "json_ok j \<Longrightarrow> json_depth j \<le> 10000 \<Longrightarrow> num_end t \<Longrightarrow> json_decode (json_text nl sp 0 j @ t) = Some j"
  using readsD [OF all_read, of j t 0 0 "2 * length (json_text nl sp 0 j @ t) + 1"] by (simp add: json_decode_def)

lemma unmarshal_text:
  "json_ok j \<Longrightarrow> json_depth j \<le> 10000 \<Longrightarrow> list_all is_ws t \<Longrightarrow> json_unmarshal (json_text nl sp 0 j @ t) = Some j"
proof -
  assume a: "json_ok j" "json_depth j \<le> 10000" "list_all is_ws t"
  have "num_end t" using ws_num_end [OF a(3), of "[]"] by (simp add: num_end_def)
  moreover have "skip_ws t = []" using skip_ws_append [OF a(3), of "[]"] by simp
  ultimately show ?thesis
    using readsD [OF all_read [OF a(1)], of t 0 0 "2 * length (json_text nl sp 0 j @ t) + 1"] a(2) by (simp add: json_unmarshal_def)
qed

end

interpretation compact: layout "\<lambda>d. []" "[]"
  by unfold_locales simp_all

interpretation indented: layout "\<lambda>d. 10 # replicate (2 * d) 32" "[32]"
  by unfold_locales (simp_all add: is_ws_def list_all_iff)

lemma decode_marshal: "json_ok j \<Longrightarrow> json_depth j \<le> 10000 \<Longrightarrow> num_end t \<Longrightarrow> json_decode (json_marshal j @ t) = Some j"
  unfolding json_marshal_def by (rule compact.decode_text)

lemma decode_encode_json: "json_ok j \<Longrightarrow> json_depth j \<le> 10000 \<Longrightarrow> json_decode (json_encode j @ t) = Some j"
  using decode_marshal [of j "10 # t"] by (simp add: json_encode_def num_end_def is_dec_def)

lemma decode_indent: "json_ok j \<Longrightarrow> json_depth j \<le> 10000 \<Longrightarrow> json_decode (json_indent j @ t) = Some j"
  using indented.decode_text [of j "10 # t"] by (simp add: json_indent_def num_end_def is_dec_def)

lemma unmarshal_marshal: "json_ok j \<Longrightarrow> json_depth j \<le> 10000 \<Longrightarrow> json_unmarshal (json_marshal j) = Some j"
  unfolding json_marshal_def using compact.unmarshal_text [of j "[]"] by simp

section \<open>The fuel is enough\<close>

lemma skip_ws_length: "length (skip_ws s) \<le> length s"
  by (simp add: skip_ws_def length_dropWhile_le)

lemma skip_ws_Cons: "skip_ws s = c # r \<Longrightarrow> length r < length s"
  using skip_ws_length [of s] by simp

lemma scan_str_length: "scan_str s = Some (a, r) \<Longrightarrow> length r < length s"
proof (induction s arbitrary: a r rule: scan_str.induct)
  case (2 c s)
  show ?case
  proof (cases "c = 34 \<or> c \<noteq> 92")
    case True
    then show ?thesis using 2 by (fastforce split: if_splits)
  next
    case False
    then obtain e s' where s: "s = e # s'" using 2(4) by (cases s) auto
    show ?thesis
    proof (cases "e \<in> {34, 92, 47, 98, 102, 110, 114, 116}")
      case True
      with False s 2(4) obtain a' where "scan_str s' = Some (a', r)" by auto
      from 2(1) [OF _ _ s True this] False s show ?thesis by auto
    next
      case e: False
      with False s 2(4) obtain a' where x: "scan_str (drop 4 s') = Some (a', r)" "e = 117 \<and> hex4 s' \<noteq> None"
        by (auto split: if_splits)
      from 2(2) [OF _ _ s e x(2) x(1)] False s show ?thesis by auto
    qed
  qed
qed simp

lemma scan_exp_length: "scan_exp n s = Some (m, r) \<Longrightarrow> length r \<le> length s"
proof (cases s)
  case (Cons c t)
  assume a: "scan_exp n s = Some (m, r)"
  show ?thesis
  proof (cases "c = 101 \<or> c = 69")
    case True
    with a Cons have "\<exists>k. r = dropWhile is_dec (drop k t)"
      by (auto simp: scan_exp_def Let_def split: if_splits intro: exI [of _ 1] exI [of _ 0])
    then obtain k where "r = dropWhile is_dec (drop k t)" by blast
    then show ?thesis using Cons length_dropWhile_le [of is_dec "drop k t"] by simp
  qed (use a Cons in \<open>simp add: scan_exp_def\<close>)
qed (simp add: scan_exp_def)

lemma scan_frac_length: "scan_frac n s = Some (m, r) \<Longrightarrow> length r \<le> length s"
proof (cases "take 1 s = [46]")
  case True
  assume "scan_frac n s = Some (m, r)"
  with True have "length r \<le> length (dropWhile is_dec (drop 1 s))"
    by (auto simp: scan_frac_def Let_def split: if_splits dest: scan_exp_length)
  then show ?thesis using length_dropWhile_le [of is_dec "drop 1 s"] by simp
qed (auto simp: scan_frac_def dest: scan_exp_length)

lemma scan_num_length: "scan_num s = Some (m, r) \<Longrightarrow> length r < length s"
proof -
  assume a: "scan_num s = Some (m, r)"
  define z where "z = (if take 1 s = [45] then drop 1 s else s)"
  have l: "length z \<le> length s" by (simp add: z_def)
  define m0 where "m0 = \<lparr>nm_neg = take 1 s = [45], nm_int = [48], nm_frac = [], nm_exp = None\<rparr>"
  have sn: "scan_num s = (case z of [] \<Rightarrow> None | c # r \<Rightarrow> if c = 48 then scan_frac m0 r
      else if is_dec c then scan_frac (m0\<lparr>nm_int := takeWhile is_dec z\<rparr>) (dropWhile is_dec z) else None)"
    by (simp only: scan_num_def Let_def z_def m0_def)
  from a obtain c t where z: "z = c # t" by (cases z) (auto simp: sn)
  have "length r < length z"
  proof (cases "c = 48")
    case True
    with a z show ?thesis by (auto simp: sn dest: scan_frac_length)
  next
    case False
    with a z have d: "is_dec c" "length r \<le> length (dropWhile is_dec z)"
      by (auto simp: sn split: if_splits dest: scan_frac_length)
    then show ?thesis using z length_dropWhile_le [of is_dec t] by simp
  qed
  with l show ?thesis by simp
qed

lemma scan_word_length: "w \<noteq> [] \<Longrightarrow> scan_word w v s = Some (x, r) \<Longrightarrow> length r < length s"
proof -
  assume w: "w \<noteq> []" "scan_word w v s = Some (x, r)"
  then have e: "take (length w) s = str w" "r = drop (length w) s" by (auto simp: scan_word_def split: if_splits)
  have "length w \<le> length s" using arg_cong [OF e(1), of length] by simp
  with w(1) e(2) show ?thesis by (cases w) auto
qed

lemma scan_length:
  "scan_value n d s = Some (v, r) \<Longrightarrow> length r < length s"
  "scan_elems n d s = Some (vs, r) \<Longrightarrow> length r < length s"
  "scan_members n d s = Some (fs, r) \<Longrightarrow> length r < length s"
proof (induction n d s and n d s and n d s arbitrary: v r and vs r and fs r rule: scan_value_scan_elems_scan_members.induct)
  case (2 n d s)
  obtain c t where c: "skip_ws s = c # t" using 2(3) by (cases "skip_ws s") auto
  have l: "length t < length s" "length (skip_ws t) \<le> length t" using skip_ws_Cons [OF c] skip_ws_length by auto
  have sub: "length r \<le> length t"
  proof (cases "c = 123 \<or> c = 91")
    case True
    then show ?thesis
    proof
      assume "c = 123"
      with 2(3) c show ?thesis using 2(1) [OF c] l by (fastforce split: if_splits)
    next
      assume "c = 91"
      with 2(3) c show ?thesis using 2(2) [OF c] l by (fastforce split: if_splits)
    qed
  next
    case False
    with 2(3) c have "c = 34 \<and> (\<exists>a. scan_str t = Some (a, r))
        \<or> scan_word ''true'' (JBool True) (c # t) = Some (v, r) \<or> scan_word ''false'' (JBool False) (c # t) = Some (v, r)
        \<or> scan_word ''null'' JNull (c # t) = Some (v, r) \<or> (\<exists>m. scan_num (c # t) = Some (m, r))"
      by (auto split: if_splits)
    then have "length r < length (c # t)"
      using scan_word_length [of "''true''" "JBool True" "c # t" v r] scan_word_length [of "''false''" "JBool False" "c # t" v r]
        scan_word_length [of "''null''" JNull "c # t" v r]
      by (auto dest: scan_str_length scan_num_length)
    then show ?thesis by simp
  qed
  with l show ?case by simp
next
  case (4 n d s)
  from 4(3) obtain x q where x: "scan_value n d s = Some (x, q)" by (auto split: option.splits)
  with 4(3) obtain c t where c: "skip_ws q = c # t" by (cases "skip_ws q") auto
  have "length r \<le> length t"
    using 4(2) [OF x refl c] 4(3) x c by (fastforce split: if_splits)
  then show ?case using skip_ws_Cons [OF c] 4(1) [OF x] by simp
next
  case (6 n d s)
  from 6(3) obtain k q where k: "take 1 (skip_ws s) = [34]" "scan_str (drop 1 (skip_ws s)) = Some (k, q)"
    by (auto split: if_splits option.splits)
  with 6(3) obtain x p where x: "take 1 (skip_ws q) = [58]" "scan_value n d (drop 1 (skip_ws q)) = Some (x, p)"
    by (auto split: if_splits option.splits)
  with 6(3) k obtain c t where c: "skip_ws p = c # t" by (cases "skip_ws p") auto
  have "length r \<le> length t"
    using 6(2) [of "(k, q)" k q "(x, p)" x p c t] 6(3) k x c by (fastforce split: if_splits)
  then show ?case
    using skip_ws_Cons [OF c] 6(1) [of "(k, q)" k q x p] k x scan_str_length [OF k(2)] skip_ws_length [of s] skip_ws_length [of q]
    by simp
qed simp_all

text \<open>With more fuel than the decoder takes nothing changes: a value has more bytes than half of its fuel.\<close>

lemma fuel_step:
  "2 * length s < n \<Longrightarrow> scan_value (Suc n) d s = scan_value n d s"
  "2 * length s + 1 < n \<Longrightarrow> scan_elems (Suc n) d s = scan_elems n d s"
  "2 * length s + 1 < n \<Longrightarrow> scan_members (Suc n) d s = scan_members n d s"
proof (induction n arbitrary: d s)
  case (Suc n)
  {
    case 1
    show ?case
    proof (cases "skip_ws s")
      case (Cons c r)
      then have "2 * length r + 1 < n" using 1 skip_ws_Cons by fastforce
      then show ?thesis
        unfolding scan_value.simps(2) [of "Suc n"] scan_value.simps(2) [of n] Cons list.case
        by (simp only: Suc.IH(2,3))
    qed simp
  next
    case 2
    then have v: "scan_value (Suc n) d s = scan_value n d s" by (intro Suc.IH(1)) simp
    have "scan_elems (Suc n) d q = scan_elems n d q" if "scan_value n d s = Some (x, r)" "skip_ws r = c # q" for x r c q
      using 2 scan_length(1) [OF that(1)] skip_ws_Cons [OF that(2)] by (intro Suc.IH(2)) simp
    then show ?case unfolding scan_elems.simps(2) [of "Suc n"] scan_elems.simps(2) [of n] v
      by (auto split: option.split list.split)
  next
    case 3
    have v: "scan_value (Suc n) d (drop 1 (skip_ws r)) = scan_value n d (drop 1 (skip_ws r))"
      if "scan_str (drop 1 (skip_ws s)) = Some (k, r)" for k r
      using 3 scan_str_length [OF that] skip_ws_length [of s] skip_ws_length [of r] by (intro Suc.IH(1)) simp
    have m: "scan_members (Suc n) d q = scan_members n d q"
      if "scan_str (drop 1 (skip_ws s)) = Some (k, r)" "scan_value n d (drop 1 (skip_ws r)) = Some (x, p)" "skip_ws p = c # q"
      for k r x p c q
      using 3 scan_str_length [OF that(1)] scan_length(1) [OF that(2)] skip_ws_Cons [OF that(3)] skip_ws_length [of s]
        skip_ws_length [of r] by (intro Suc.IH(3)) simp
    note eqs = scan_members.simps(2) [of "Suc n" d s] scan_members.simps(2) [of n d s]
    show ?case
    proof (cases "scan_str (drop 1 (skip_ws s))")
      case s: (Some kr)
      obtain k r where kr: "kr = (k, r)" by (cases kr)
      note v = v [OF s [unfolded kr]] and m = m [OF s [unfolded kr]]
      show ?thesis
      proof (cases "scan_value n d (drop 1 (skip_ws r))")
        case x: (Some xp)
        obtain x p where xp: "xp = (x, p)" by (cases xp)
        show ?thesis
        proof (cases "skip_ws p")
          case (Cons c q)
          show ?thesis unfolding eqs s kr option.case prod.case v x xp Cons list.case m [OF x [unfolded xp] Cons] ..
        qed (simp only: eqs s kr option.case prod.case v x xp list.case)
      qed (simp only: eqs s kr option.case prod.case v)
    qed (simp only: eqs option.case)
  }
qed simp_all

lemma fuel_enough:
  assumes "2 * length s < n"
  shows "scan_value n d s = scan_value (2 * length s + 1) d s"
proof -
  define m where "m = 2 * length s + 1"
  have "scan_value (m + k) d s = scan_value m d s" for k
  proof (induction k)
    case (Suc k)
    have "2 * length s < m + k" by (simp add: m_def)
    from fuel_step(1) [OF this] Suc.IH show ?case by (simp only: add_Suc_right)
  qed (simp only: add_0_right)
  from this [of "n - m"] assms show ?thesis unfolding m_def by (metis Suc_eq_plus1 Suc_leI le_add_diff_inverse)
qed

section \<open>Structs\<close>

text \<open>
  Decoding an object into a struct: the members in their order, each stored in the field whose name is the key,
  or equals it up to case. Unknown keys are skipped, \<open>null\<close> leaves a field as it is, and a value of another
  type makes the whole decoding fail. \<open>foldName\<close> maps the two runes outside ASCII whose case folds to a letter.
\<close>

definition fold_rune :: "rune \<Rightarrow> rune" where
  "fold_rune r = (if 97 \<le> r \<and> r \<le> 122 then r - 32 else if r = 0x17F then 0x53 else if r = 0x212A then 0x4B else r)"

definition fold_name :: "gostring \<Rightarrow> rune list" where
  "fold_name s = map fold_rune (runes s)"

definition key_is :: "string \<Rightarrow> gostring \<Rightarrow> bool" where
  "key_is name raw \<longleftrightarrow> fold_name (unquote raw) = fold_name (str name)"

fun field :: "string \<Rightarrow> (json \<Rightarrow> 'a \<Rightarrow> 'a option) \<Rightarrow> 'a \<Rightarrow> (gostring \<times> json) list \<Rightarrow> 'a option" where
  "field name dec a [] = Some a"
| "field name dec a ((k, v) # fs) =
     (if key_is name k then (case dec v a of None \<Rightarrow> None | Some a \<Rightarrow> field name dec a fs) else field name dec a fs)"

text \<open>The members a value has for a struct: those of an object, none for \<open>null\<close>.\<close>

definition members :: "json \<Rightarrow> (gostring \<times> json) list option" where
  "members j = (case j of JObj fs \<Rightarrow> Some fs | JNull \<Rightarrow> Some [] | _ \<Rightarrow> None)"

definition into_string :: "json \<Rightarrow> gostring \<Rightarrow> gostring option" where
  "into_string j old = (case j of JStr raw \<Rightarrow> Some (unquote raw) | JNull \<Rightarrow> Some old | _ \<Rightarrow> None)"

definition into_bool :: "json \<Rightarrow> bool \<Rightarrow> bool option" where
  "into_bool j old = (case j of JBool b \<Rightarrow> Some b | JNull \<Rightarrow> Some old | _ \<Rightarrow> None)"

definition into_int :: "json \<Rightarrow> int \<Rightarrow> int option" where
  "into_int j old = (case j of JNum n \<Rightarrow> number_int n | JNull \<Rightarrow> Some old | _ \<Rightarrow> None)"

definition into_float :: "json \<Rightarrow> f64 \<Rightarrow> f64 option" where
  "into_float j old = (case j of JNum n \<Rightarrow> number_float n | JNull \<Rightarrow> Some old | _ \<Rightarrow> None)"

text \<open>A slice; an element is decoded over the one at its place, if there was one.\<close>

fun into_elems :: "(json \<Rightarrow> 'a \<Rightarrow> 'a option) \<Rightarrow> 'a \<Rightarrow> json list \<Rightarrow> 'a list \<Rightarrow> 'a list option" where
  "into_elems dec zero [] old = Some []"
| "into_elems dec zero (j # js) old =
     (case dec j (case old of [] \<Rightarrow> zero | a # _ \<Rightarrow> a) of
        None \<Rightarrow> None
      | Some x \<Rightarrow> map_option (Cons x) (into_elems dec zero js (drop 1 old)))"

definition into_list :: "(json \<Rightarrow> 'a \<Rightarrow> 'a option) \<Rightarrow> 'a \<Rightarrow> json \<Rightarrow> 'a list \<Rightarrow> 'a list option" where
  "into_list dec zero j old = (case j of JArr js \<Rightarrow> into_elems dec zero js old | JNull \<Rightarrow> Some [] | _ \<Rightarrow> None)"

text \<open>What the encoders write for the values of a struct.\<close>

definition jstr :: "gostring \<Rightarrow> json" where
  "jstr s = JStr (quote s)"

definition jint :: "int \<Rightarrow> json" where
  "jint z = JNum (int_number z)"

text \<open>\<open>floatEncoder\<close> refuses what is not finite.\<close>

definition jfloat :: "f64 \<Rightarrow> json option" where
  "jfloat x = (case x of Fin q \<Rightarrow> Some (JNum (float_number q)) | _ \<Rightarrow> None)"

definition jkey :: "string \<Rightarrow> gostring" where
  "jkey k = quote (str k)"

definition jobj :: "(string \<times> json) list \<Rightarrow> json" where
  "jobj fs = JObj (map (\<lambda>(k, v). (jkey k, v)) fs)"

section \<open>Reading what was written\<close>

lemma jkey_ok [simp]: "raw_ok (jkey k)"
  by (simp add: jkey_def)

lemma key_is_jkey [simp]:
  assumes "list_all (\<lambda>c. of_char c < (128 :: nat)) n" "list_all (\<lambda>c. of_char c < (128 :: nat)) k"
  shows "key_is n (jkey k) \<longleftrightarrow> map (\<lambda>c. fold_rune (of_char c)) k = map (\<lambda>c. fold_rune (of_char c)) n"
proof -
  have u: "unat (of_char c :: byte) = of_char c" if "of_char c < (128 :: nat)" for c
  proof -
    have "(of_char c :: byte) = of_nat (of_char c)" by (simp only: of_nat_of_char)
    with that show ?thesis by (simp only: unat_byte)
  qed
  have a: "list_all (\<lambda>b. unat b < 128) (str s) \<and> map unat (str s) = map of_char s" if "list_all (\<lambda>c. of_char c < (128 :: nat)) s" for s
    using that by (induction s) (auto simp: u)
  have "fold_name (str s) = map (\<lambda>c. fold_rune (of_char c)) s \<and> clean (str s) = str s" if "list_all (\<lambda>c. of_char c < (128 :: nat)) s" for s
    using a [OF that] runes_eq_ascii [of "str s"] valid_utf8_ascii [of "str s"] by (simp add: fold_name_def comp_def)
  with assms show ?thesis by (simp add: key_is_def jkey_def unquote_quote)
qed

lemma into_string_jstr [simp]: "into_string (jstr s) old = Some (clean s)"
  by (simp add: into_string_def jstr_def unquote_quote)

lemma into_string_valid: "into_string j old = Some s \<Longrightarrow> valid_utf8 old \<Longrightarrow> valid_utf8 s"
  using unquote_valid by (auto simp: into_string_def split: json.splits)

lemma field_string_valid: "field name into_string a fs = Some s \<Longrightarrow> valid_utf8 a \<Longrightarrow> valid_utf8 s"
  by (induction name "into_string" a fs rule: field.induct) (auto split: if_splits option.splits dest: into_string_valid)

lemma into_bool_JBool [simp]: "into_bool (JBool b) old = Some b"
  by (simp add: into_bool_def)

lemma into_int_jint [simp]: "- (2 ^ 63) \<le> z \<Longrightarrow> z < 2 ^ 63 \<Longrightarrow> into_int (jint z) old = Some z"
  by (simp add: into_int_def jint_def)

lemma into_float_jfloat: "jfloat x = Some j \<Longrightarrow> is_f64 x \<Longrightarrow> into_float j old = Some x"
  by (cases x) (auto simp: into_float_def jfloat_def number_float_number)

lemma into_elems_map: "list_all (\<lambda>x. \<forall>old. dec (enc x) old = Some (g x)) xs \<Longrightarrow> into_elems dec zero (map enc xs) old = Some (map g xs)"
  by (induction xs arbitrary: old) auto

lemma members_jobj [simp]: "members (jobj fs) = Some (map (\<lambda>(k, v). (jkey k, v)) fs)"
  by (simp add: members_def jobj_def)

lemma jstr_ok [simp]: "json_ok (jstr s)" "json_depth (jstr s) = 0"
  by (simp_all add: jstr_def)

lemma jint_ok [simp]: "json_ok (jint z)" "json_depth (jint z) = 0"
  by (simp_all add: jint_def)

lemma jfloat_ok: "jfloat x = Some j \<Longrightarrow> json_ok j \<and> json_depth j = 0"
  by (cases x) (auto simp: jfloat_def)

lemma jobj_ok [simp]: "json_ok (jobj fs) \<longleftrightarrow> list_all (\<lambda>(k, v). json_ok v) fs"
  by (simp add: jobj_def list.pred_map comp_def case_prod_unfold)

lemma jobj_depth: "json_depth (jobj fs) \<le> Suc m \<longleftrightarrow> list_all (\<lambda>(k, v). json_depth v \<le> m) fs"
  unfolding jobj_def json_depth_le by (simp add: list.pred_map comp_def case_prod_unfold)

lemma jobj_ok_depth:
  "list_all (\<lambda>(k, v). json_ok v \<and> json_depth v \<le> m) fs \<Longrightarrow> json_ok (jobj fs) \<and> json_depth (jobj fs) \<le> Suc m"
  unfolding jobj_ok jobj_depth by (auto simp: list_all_iff)

lemma jobj_shallow: "list_all (\<lambda>(k, v). json_depth v \<le> 9) fs \<Longrightarrow> json_depth (jobj fs) \<le> 10000"
  using jobj_depth [of fs 9] by linarith

lemma decode_alone: "json_ok j \<Longrightarrow> json_depth j \<le> 10000 \<Longrightarrow> json_decode (json_marshal j) = Some j"
  using decode_marshal [of j "[]"] by (simp add: num_end_def)

section \<open>Lists of values\<close>

fun all_or_none :: "'a option list \<Rightarrow> 'a list option" where
  "all_or_none [] = Some []"
| "all_or_none (x # xs) = (case x of None \<Rightarrow> None | Some y \<Rightarrow> map_option (Cons y) (all_or_none xs))"

lemma all_or_none_Some: "all_or_none xs = Some ys \<longleftrightarrow> xs = map Some ys"
  by (induction xs arbitrary: ys) (auto split: option.splits)

lemma all_or_none_None: "all_or_none xs = None \<longleftrightarrow> None \<in> set xs"
  by (induction xs) (auto split: option.split)

end
