(* ===== verification/Gotime.thy ===== *)
theory Gotime
  imports Decimal "HOL-Library.Monad_Syntax"
begin

text \<open>
  What the program uses of Go's \<open>time\<close>. A \<open>time.Time\<close> is the number of nanoseconds since Go's zero time, the
  start of the year 1 in UTC; the local zone is an argument, its offset in minutes. \<open>civil\<close> is the calendar of
  \<open>absDate\<close>, \<open>rfc3339_nano\<close> the text \<open>MarshalJSON\<close> writes, and \<open>parse_rfc3339\<close> what \<open>UnmarshalJSON\<close> takes. The
  lemmas: the calendar is inverted by counting days, and a time that is written is read back exactly, in
  any zone.
\<close>

section \<open>The calendar\<close>

definition is_leap :: "int \<Rightarrow> bool" where
  "is_leap y \<longleftrightarrow> y mod 4 = 0 \<and> (y mod 100 \<noteq> 0 \<or> y mod 400 = 0)"

definition month_lengths :: "int \<Rightarrow> int list" where
  "month_lengths y = [31, if is_leap y then 29 else 28, 31, 30, 31, 30, 31, 31, 30, 31, 30, 31]"

definition days_before :: "int \<Rightarrow> int" where
  "days_before y = (let n = y - 1 in 365 * n + n div 4 - n div 100 + n div 400)"

text \<open>The day of a date, counted from the first of January of the year 1.\<close>

definition day_number :: "int \<Rightarrow> int \<Rightarrow> int \<Rightarrow> int" where
  "day_number y m d = days_before y + sum_list (take (nat (m - 1)) (month_lengths y)) + (d - 1)"

fun month_scan :: "int list \<Rightarrow> int \<Rightarrow> int \<times> int" where
  "month_scan [] r = (1, r + 1)"
| "month_scan (l # ls) r = (if r < l then (1, r + 1) else (let (m, d) = month_scan ls (r - l) in (m + 1, d)))"

text \<open>The year of a day, and the day in the year.\<close>

definition year_day :: "int \<Rightarrow> int \<times> int" where
  "year_day z =
     (let r = z mod 146097;
          n100 = min 3 (r div 36524); r = r - 36524 * n100;
          n4 = r div 1461; r = r mod 1461;
          n1 = min 3 (r div 365); r = r - 365 * n1;
          y = 400 * (z div 146097) + 100 * n100 + 4 * n4 + n1 + 1
      in (y, r))"

definition civil :: "int \<Rightarrow> int \<times> int \<times> int" where
  "civil z = (let (y, r) = year_day z in (y, month_scan (month_lengths y) r))"

lemma month_scan_sound:
  assumes "month_scan ls r = (m, d)" "0 \<le> r" "r < sum_list ls"
  shows "1 \<le> m \<and> m \<le> int (length ls) \<and> 1 \<le> d \<and> d \<le> ls ! nat (m - 1) \<and> sum_list (take (nat (m - 1)) ls) + (d - 1) = r"
  using assms
proof (induction ls arbitrary: r m)
  case (Cons l ls)
  show ?case
  proof (cases "r < l")
    case False
    obtain k where k: "month_scan ls (r - l) = (k, d)" "m = k + 1"
      using Cons.prems(1) False by (cases "month_scan ls (r - l)") auto
    from Cons.IH [OF k(1)] Cons.prems False
    have ih: "1 \<le> k" "k \<le> int (length ls)" "1 \<le> d" "d \<le> ls ! nat (k - 1)" "sum_list (take (nat (k - 1)) ls) + (d - 1) = r - l"
      by auto
    then have "nat (m - 1) = Suc (nat (k - 1))" using k(2) by simp
    with ih k(2) show ?thesis by simp
  qed (use Cons in auto)
qed simp

lemma year_length: "sum_list (month_lengths y) = (if is_leap y then 366 else 365)"
  by (simp add: month_lengths_def)

lemma year_day_sound:
  assumes "year_day z = (y, r)"
  shows "days_before y + r = z" "0 \<le> r" "r < (if is_leap y then 366 else 365)"
proof -
  define n400 r0 where "n400 = z div 146097" and "r0 = z mod 146097"
  define n100 where "n100 = min 3 (r0 div 36524)"
  define r1 where "r1 = r0 - 36524 * n100"
  define n4 r2 where "n4 = r1 div 1461" and "r2 = r1 mod 1461"
  define n1 where "n1 = min 3 (r2 div 365)"
  have yr: "y = 400 * n400 + 100 * n100 + 4 * n4 + n1 + 1" "r = r2 - 365 * n1"
  proof -
    have "year_day z = (400 * n400 + 100 * n100 + 4 * n4 + n1 + 1, r2 - 365 * n1)"
      by (simp only: year_day_def Let_def n400_def r0_def n100_def r1_def n4_def r2_def n1_def)
    then show "y = 400 * n400 + 100 * n100 + 4 * n4 + n1 + 1" "r = r2 - 365 * n1" using assms by simp_all
  qed
  have z: "z = 146097 * n400 + r0" by (simp add: n400_def r0_def)
  have r0: "0 \<le> r0" "r0 < 146097" by (simp_all add: r0_def)
  have n100: "0 \<le> n100" "n100 \<le> 3" using r0 by (simp_all add: n100_def)
  have r1: "0 \<le> r1" "r1 < (if n100 = 3 then 36525 else 36524)" using r0 by (auto simp: r1_def n100_def min_def)
  have n4: "0 \<le> n4" "n4 \<le> 24" "r1 = 1461 * n4 + r2" using r1 by (auto simp: n4_def r2_def split: if_splits)
  have r2: "0 \<le> r2" "r2 < 1461" by (simp_all add: r2_def)
  have r24: "n4 = 24 \<and> n100 \<noteq> 3 \<longrightarrow> r2 < 1460" using r1 n4(3) by auto
  have n1: "0 \<le> n1" "n1 \<le> 3" using r2 by (simp_all add: n1_def)
  have r: "0 \<le> r" "r < (if n1 = 3 then 366 else 365)" "n4 = 24 \<and> n100 \<noteq> 3 \<longrightarrow> r < 365"
    using r2 r24 by (auto simp: yr(2) n1_def min_def)
  define n where "n = 100 * n100 + 4 * n4 + n1"
  have n: "0 \<le> n" "n < 400" using n100 n4 n1 by (simp_all add: n_def)
  have y: "y = 400 * n400 + n + 1" by (simp add: yr(1) n_def)
  have q4: "(y - 1) div 4 = 100 * n400 + 25 * n100 + n4" using n1 by (simp add: y n_def)
  have q100: "(y - 1) div 100 = 4 * n400 + n100"
  proof -
    have "0 \<le> 4 * n4 + n1" "4 * n4 + n1 < 100" using n4 n1 by auto
    then show ?thesis by (simp add: y n_def)
  qed
  have q400: "(y - 1) div 400 = n400" using n by (simp add: y)
  have "days_before y = 146097 * n400 + 36524 * n100 + 1461 * n4 + 365 * n1"
    by (simp add: days_before_def Let_def q4 q100 q400) (simp add: y n_def)
  then show "days_before y + r = z" using z n4(3) by (simp add: r1_def yr(2))
  show "0 \<le> r" by (rule r)
  show "r < (if is_leap y then 366 else 365)"
  proof (cases "n1 = 3 \<and> (n4 \<noteq> 24 \<or> n100 = 3)")
    case False
    then show ?thesis using r by auto
  next
    case True
    have "y mod 4 = 0" using True by (simp add: y n_def)
    moreover have "y mod 100 \<noteq> 0 \<or> y mod 400 = 0"
    proof (cases "n4 = 24")
      case t: True
      then have "y = 400 * (n400 + 1)" using True by (simp add: y n_def)
      then show ?thesis by simp
    next
      case f: False
      have y100: "y = 100 * (4 * n400 + n100) + (4 * n4 + 4)" using True by (simp add: y n_def)
      have "0 < 4 * n4 + 4" "4 * n4 + 4 < 100" using f n4 by auto
      then have "(4 * n4 + 4) mod 100 \<noteq> 0" by simp
      then show ?thesis unfolding y100 mod_mult_self4 by blast
    qed
    ultimately have "is_leap y" by (simp add: is_leap_def)
    with r show ?thesis by (auto split: if_splits)
  qed
qed

text \<open>The calendar gives a date that exists, and counting its days gives the day back.\<close>

definition valid_date :: "int \<Rightarrow> int \<Rightarrow> int \<Rightarrow> bool" where
  "valid_date y m d \<longleftrightarrow> 1 \<le> m \<and> m \<le> 12 \<and> 1 \<le> d \<and> d \<le> month_lengths y ! nat (m - 1)"

lemma civil_sound:
  assumes "civil z = (y, m, d)"
  shows "valid_date y m d" and "day_number y m d = z"
proof -
  obtain y' r' where yr: "year_day z = (y', r')" by (cases "year_day z")
  then have "y' = y" using assms by (simp add: civil_def)
  with yr have "month_scan (month_lengths y) r' = (m, d) \<and> days_before y + r' = z \<and> 0 \<le> r' \<and> r' < (if is_leap y then 366 else 365)"
    using year_day_sound [of z y' r'] assms by (simp add: civil_def)
  then have r': "month_scan (month_lengths y) r' = (m, d)" "days_before y + r' = z" "0 \<le> r'" "r' < sum_list (month_lengths y)"
    by (auto simp: year_length)
  from month_scan_sound [OF r'(1,3,4)] r'(2) show "valid_date y m d" "day_number y m d = z"
    by (simp_all add: valid_date_def day_number_def) (simp_all add: month_lengths_def)
qed

section \<open>Writing a time\<close>

text \<open>The fields of a time on the clock of a zone \<open>off\<close> minutes east of UTC.\<close>

record clock =
  ck_year :: int
  ck_month :: int
  ck_day :: int
  ck_hour :: int
  ck_minute :: int
  ck_second :: int
  ck_nano :: int

definition clock_of :: "int \<Rightarrow> time \<Rightarrow> clock" where
  "clock_of off t =
     (let l = t + off * 60000000000; s = l div 1000000000; (y, m, d) = civil (s div 86400); r = s mod 86400
      in \<lparr>ck_year = y, ck_month = m, ck_day = d, ck_hour = r div 3600, ck_minute = r div 60 mod 60, ck_second = r mod 60,
           ck_nano = l mod 1000000000\<rparr>)"

definition of_clock :: "int \<Rightarrow> clock \<Rightarrow> time" where
  "of_clock off c =
     (((day_number (ck_year c) (ck_month c) (ck_day c) * 24 + ck_hour c) * 60 + ck_minute c - off) * 60 + ck_second c) * 1000000000
     + ck_nano c"

definition clock_ok :: "clock \<Rightarrow> bool" where
  "clock_ok c \<longleftrightarrow> valid_date (ck_year c) (ck_month c) (ck_day c) \<and> 0 \<le> ck_hour c \<and> ck_hour c < 24
     \<and> 0 \<le> ck_minute c \<and> ck_minute c < 60 \<and> 0 \<le> ck_second c \<and> ck_second c < 60 \<and> 0 \<le> ck_nano c \<and> ck_nano c < 1000000000"

lemma clock_roundtrip: "clock_ok (clock_of off t) \<and> of_clock off (clock_of off t) = t"
proof -
  define l where "l = t + off * 60000000000"
  define s where "s = l div 1000000000"
  define r where "r = s mod 86400"
  obtain y m d where ymd: "civil (s div 86400) = (y, m, d)" by (cases "civil (s div 86400)") auto
  have c: "clock_of off t = \<lparr>ck_year = y, ck_month = m, ck_day = d, ck_hour = r div 3600, ck_minute = r div 60 mod 60,
      ck_second = r mod 60, ck_nano = l mod 1000000000\<rparr>"
    using ymd unfolding clock_of_def Let_def l_def s_def r_def by simp
  have r: "0 \<le> r" "r < 86400" by (simp_all add: r_def)
  have h: "r = (r div 3600 * 60 + r div 60 mod 60) * 60 + r mod 60" "r div 3600 < 24" "0 \<le> r div 3600"
  proof -
    have q: "r div 3600 = r div 60 div 60" using zdiv_zmult2_eq [of 60 r 60] by simp
    show "r = (r div 3600 * 60 + r div 60 mod 60) * 60 + r mod 60"
      by (simp only: q div_mult_mod_eq)
    show "r div 3600 < 24" "0 \<le> r div 3600" using r by auto
  qed
  have s: "s = s div 86400 * 86400 + r" "l = s * 1000000000 + l mod 1000000000"
    using div_mult_mod_eq [of s 86400] div_mult_mod_eq [of l 1000000000] by (simp_all only: r_def s_def)
  note day = civil_sound [OF ymd]
  define H M S D N where "H = r div 3600" and "M = r div 60 mod 60" and "S = r mod 60" and "D = s div 86400"
    and "N = l mod 1000000000"
  have "r = (H * 60 + M) * 60 + S" "s = D * 86400 + r" "l = s * 1000000000 + N"
    unfolding H_def M_def S_def D_def N_def by (rule h(1) s)+
  then have "(((D * 24 + H) * 60 + M - off) * 60 + S) * 1000000000 + N = l - off * 60000000000" by (simp add: algebra_simps)
  then have "of_clock off (clock_of off t) = l - off * 60000000000"
    unfolding c of_clock_def clock.select_convs day(2) H_def M_def S_def D_def N_def .
  moreover have "clock_ok (clock_of off t)"
    unfolding c clock_ok_def clock.select_convs using day(1) h(2,3) by (intro conjI) simp_all
  ultimately show ?thesis by (simp add: l_def)
qed

text \<open>A number in at least \<open>w\<close> digits, as \<open>appendInt\<close> writes it.\<close>

definition pad_int :: "nat \<Rightarrow> int \<Rightarrow> gostring" where
  "pad_int w z = (if z < 0 then str ''-'' else [])
     @ (let n = nat \<bar>z\<bar> in if n < 10 ^ w then pad_dec w n else dec_nat n)"

definition date_text :: "clock \<Rightarrow> gostring" where
  "date_text c = pad_int 4 (ck_year c) @ [45] @ pad_int 2 (ck_month c) @ [45] @ pad_int 2 (ck_day c)"

definition time_text :: "clock \<Rightarrow> gostring" where
  "time_text c = pad_int 2 (ck_hour c) @ [58] @ pad_int 2 (ck_minute c) @ [58] @ pad_int 2 (ck_second c)"

text \<open>\<open>".999999999"\<close>: up to nine digits, without the zeros at the end.\<close>

definition nano_text :: "int \<Rightarrow> gostring" where
  "nano_text ns = (if ns = 0 then [] else 46 # rev (dropWhile (\<lambda>b. b = 48) (rev (pad_dec 9 (nat ns)))))"

definition zone_text :: "int \<Rightarrow> gostring" where
  "zone_text off = (if off = 0 then [90]
     else (if off < 0 then [45] else [43]) @ pad_int 2 (\<bar>off\<bar> div 60) @ [58] @ pad_int 2 (\<bar>off\<bar> mod 60))"

definition rfc3339_nano :: "int \<Rightarrow> time \<Rightarrow> gostring" where
  "rfc3339_nano off t = (let c = clock_of off t in date_text c @ [84] @ time_text c @ nano_text (ck_nano c) @ zone_text off)"

text \<open>What \<open>MarshalJSON\<close> refuses: a year that does not have four digits, and an offset of a day or more.\<close>

definition time_encodable :: "(time \<Rightarrow> int) \<Rightarrow> time \<Rightarrow> bool" where
  "time_encodable zone t \<longleftrightarrow> 0 \<le> ck_year (clock_of (zone t) t) \<and> ck_year (clock_of (zone t) t) \<le> 9999 \<and> \<bar>zone t\<bar> < 24 * 60"

section \<open>Reading a time\<close>

definition lit :: "byte \<Rightarrow> gostring \<Rightarrow> gostring option" where
  "lit c s = (case s of [] \<Rightarrow> None | b # r \<Rightarrow> if b = c then Some r else None)"

definition digits2 :: "gostring \<Rightarrow> (int \<times> gostring) option" where
  "digits2 s = (case s of a # b # r \<Rightarrow> if is_dec a \<and> is_dec b then Some (int (read_nat [a, b]), r) else None | _ \<Rightarrow> None)"

definition digits4 :: "gostring \<Rightarrow> (int \<times> gostring) option" where
  "digits4 s = (if length s < 4 \<or> \<not> list_all is_dec (take 4 s) then None else Some (int (read_nat (take 4 s)), drop 4 s))"

text \<open>\<open>getnum\<close> for an hour, which may have one digit.\<close>

definition digits12 :: "gostring \<Rightarrow> (int \<times> gostring) option" where
  "digits12 s =
     (case s of
        [] \<Rightarrow> None
      | a # r \<Rightarrow> if \<not> is_dec a then None
          else (case r of b # r' \<Rightarrow> if is_dec b then Some (int (read_nat [a, b]), r') else Some (int (read_nat [a]), r)
                        | [] \<Rightarrow> Some (int (read_nat [a]), r)))"

definition in_range :: "int \<Rightarrow> int \<Rightarrow> (int \<times> gostring) option \<Rightarrow> (int \<times> gostring) option" where
  "in_range lo hi r = (case r of None \<Rightarrow> None | Some (n, s) \<Rightarrow> if lo \<le> n \<and> n \<le> hi then Some (n, s) else None)"

text \<open>A fraction of a second, after a point or a comma; digits past the ninth are dropped.\<close>

definition read_frac :: "gostring \<Rightarrow> int \<times> gostring" where
  "read_frac s =
     (case s of
        c # d # r \<Rightarrow>
          if (c = 46 \<or> c = 44) \<and> is_dec d
          then (let ds = take 9 (takeWhile is_dec (d # r))
                in (int (read_nat ds) * 10 ^ (9 - length ds), dropWhile is_dec (d # r)))
          else (0, s)
      | _ \<Rightarrow> (0, s))"

definition read_zone :: "gostring \<Rightarrow> (int \<times> gostring) option" where
  "read_zone s =
     (if take 1 s = [90] then Some (0, drop 1 s)
      else if take 1 s = [43] \<or> take 1 s = [45]
      then do {
        (h, r) \<leftarrow> in_range 0 24 (digits2 (drop 1 s));
        r \<leftarrow> lit 58 r;
        (m, r) \<leftarrow> in_range 0 60 (digits2 r);
        Some ((if take 1 s = [45] then - (h * 60 + m) else h * 60 + m), r)
      }
      else None)"

definition parse_rfc3339 :: "gostring \<Rightarrow> time option" where
  "parse_rfc3339 s = do {
     (y, s) \<leftarrow> digits4 s; s \<leftarrow> lit 45 s;
     (mo, s) \<leftarrow> in_range 1 12 (digits2 s); s \<leftarrow> lit 45 s;
     (d, s) \<leftarrow> digits2 s; s \<leftarrow> lit 84 s;
     (h, s) \<leftarrow> in_range 0 23 (digits12 s); s \<leftarrow> lit 58 s;
     (mi, s) \<leftarrow> in_range 0 59 (digits2 s); s \<leftarrow> lit 58 s;
     (sec, s) \<leftarrow> in_range 0 59 (digits2 s);
     (ns, s) \<leftarrow> Some (read_frac s);
     (off, s) \<leftarrow> read_zone s;
     if s = [] \<and> valid_date y mo d
     then Some (of_clock off \<lparr>ck_year = y, ck_month = mo, ck_day = d, ck_hour = h, ck_minute = mi, ck_second = sec, ck_nano = ns\<rparr>)
     else None
   }"

lemma pad_int_pad: "0 \<le> z \<Longrightarrow> z < 10 ^ w \<Longrightarrow> pad_int w z = pad_dec w (nat z)"
  by (simp add: pad_int_def nat_less_iff)

lemma pad2: "0 \<le> z \<Longrightarrow> z < 100 \<Longrightarrow>
  \<exists>a b. pad_int 2 z = [a, b] \<and> is_dec a \<and> is_dec b \<and> int (read_nat [a, b]) = z"
proof -
  assume z: "0 \<le> z" "z < 100"
  then have p: "pad_int 2 z = pad_dec 2 (nat z)" by (simp add: pad_int_pad)
  have r: "read_nat (pad_dec 2 (nat z)) = nat z" using read_pad_dec [of "nat z" 2] z by (simp add: nat_less_iff)
  have l: "length (pad_dec 2 (nat z)) = 2" "list_all is_dec (pad_dec 2 (nat z))" by (rule pad_dec_sel)+
  then obtain a b where "pad_dec 2 (nat z) = [a, b]" by (auto simp: length_Suc_conv numeral_2_eq_2)
  with p r l z show ?thesis by auto
qed

lemma digits2_pad [simp]: "0 \<le> z \<Longrightarrow> z < 100 \<Longrightarrow> digits2 (pad_int 2 z @ s) = Some (z, s)"
  using pad2 [of z] by (auto simp: digits2_def)

lemma digits12_pad [simp]: "0 \<le> z \<Longrightarrow> z < 100 \<Longrightarrow> digits12 (pad_int 2 z @ s) = Some (z, s)"
  using pad2 [of z] by (auto simp: digits12_def)

lemma digits4_pad [simp]:
  assumes "0 \<le> z" "z \<le> 9999"
  shows "digits4 (pad_int 4 z @ s) = Some (z, s)"
proof -
  have p: "pad_int 4 z = pad_dec 4 (nat z)" using assms by (simp add: pad_int_pad)
  have "read_nat (pad_dec 4 (nat z)) = nat z" using read_pad_dec [of "nat z" 4] assms by (simp add: nat_less_iff)
  then show ?thesis unfolding p digits4_def using pad_dec_sel [of 4 "nat z"] assms by simp
qed

lemma within_Some [simp]: "lo \<le> n \<Longrightarrow> n \<le> hi \<Longrightarrow> in_range lo hi (Some (n, s)) = Some (n, s)"
  by (simp add: in_range_def)

lemma lit_Cons [simp]: "lit c (c # s) = Some s"
  by (simp add: lit_def)

lemma strip_zeros:
  "list_all (\<lambda>b. b = 48) zs \<Longrightarrow> read_nat (ds @ zs) = read_nat ds * 10 ^ length zs"
proof -
  have "list_all (\<lambda>b. b = 48) zs \<Longrightarrow> read_nat zs = 0"
    by (induction zs rule: rev_induct) (auto simp: read_nat_snoc digit_of_def)
  then show "list_all (\<lambda>b. b = 48) zs \<Longrightarrow> read_nat (ds @ zs) = read_nat ds * 10 ^ length zs"
    by (simp add: read_nat_append)
qed

lemma zone_text_hd: "\<exists>c r. zone_text off = c # r \<and> c \<in> {90, 43, 45}"
  by (auto simp: zone_text_def)

lemma read_frac_text:
  assumes "0 \<le> ns" "ns < 1000000000"
  shows "read_frac (nano_text ns @ zone_text off @ t) = (ns, zone_text off @ t)"
proof -
  obtain c r where z: "zone_text off = c # r" "c \<in> {90, 43, 45}" using zone_text_hd by blast
  then have c: "\<not> is_dec c" "c \<noteq> 46" "c \<noteq> 44" by (auto simp: is_dec_def)
  show ?thesis
  proof (cases "ns = 0")
    case True
    with z c show ?thesis by (simp add: nano_text_def read_frac_def split: list.split)
  next
    case False
    define ds where "ds = rev (dropWhile (\<lambda>b. b = 48) (rev (pad_dec 9 (nat ns))))"
    define zs where "zs = rev (takeWhile (\<lambda>b. b = (48 :: byte)) (rev (pad_dec 9 (nat ns))))"
    have sp: "pad_dec 9 (nat ns) = ds @ zs" unfolding ds_def zs_def
      by (metis rev_append rev_rev_ident takeWhile_dropWhile_id)
    have zs: "list_all (\<lambda>b. b = 48) zs" by (auto simp: zs_def list_all_iff dest: set_takeWhileD)
    have "nat ns < 10 ^ 9" using assms by (simp add: nat_less_iff)
    then have pd: "read_nat (ds @ zs) = nat ns" "length (ds @ zs) = 9" "list_all is_dec (ds @ zs)"
      using read_pad_dec [of "nat ns" 9] unfolding sp by auto
    then have len: "9 - length ds = length zs" and ls: "length ds \<le> 9" by auto
    have v: "int (read_nat ds) * 10 ^ length zs = ns"
    proof -
      have "nat ns = read_nat ds * 10 ^ length zs" using strip_zeros [OF zs, of ds] pd(1) by simp
      then have "int (nat ns) = int (read_nat ds * 10 ^ length zs)" by (rule arg_cong)
      then show ?thesis using assms(1) by simp
    qed
    have "ds \<noteq> []" using v False by auto
    then obtain d dr where d: "ds = d # dr" by (cases ds) auto
    have dec: "is_dec d" "list_all is_dec dr" using pd(3) d by simp_all
    have tw: "takeWhile is_dec (d # dr @ c # r @ t) = d # dr" "dropWhile is_dec (d # dr @ c # r @ t) = c # r @ t"
      using takeWhile_digits(1,2) [of "d # dr" c "r @ t"] dec c(1) by simp_all
    have nt: "nano_text ns = 46 # d # dr" using False d by (simp add: nano_text_def ds_def)
    have "read_frac (46 # d # dr @ c # r @ t) = (int (read_nat ds) * 10 ^ length zs, c # r @ t)"
      using dec(1) ls d len by (simp add: read_frac_def Let_def tw del: takeWhile.simps dropWhile.simps) 
    then show ?thesis using nt z(1) v by simp
  qed
qed

lemma read_zone_text: "\<bar>off\<bar> < 24 * 60 \<Longrightarrow> read_zone (zone_text off @ t) = Some (off, t)"
proof -
  assume o: "\<bar>off\<bar> < 24 * 60"
  then have b: "0 \<le> \<bar>off\<bar> div 60" "\<bar>off\<bar> div 60 < 24" by auto
  define h m where "h = \<bar>off\<bar> div 60" and "m = \<bar>off\<bar> mod 60"
  have "h * 60 + m = \<bar>off\<bar>" "0 \<le> m" "m < 60" by (simp_all add: h_def m_def)
  then show ?thesis using b unfolding zone_text_def h_def [symmetric] m_def [symmetric]
    by (auto simp: read_zone_def)
qed

lemma month_lengths_small: "1 \<le> m \<Longrightarrow> m \<le> 12 \<Longrightarrow> month_lengths y ! nat (m - 1) \<le> 31"
proof -
  assume "1 \<le> m" "m \<le> 12"
  then have "nat (m - 1) < length (month_lengths y)" by (simp add: month_lengths_def)
  then have "month_lengths y ! nat (m - 1) \<in> set (month_lengths y)" by (rule nth_mem)
  then show ?thesis by (auto simp: month_lengths_def split: if_splits)
qed

lemma parse_rfc3339_nano:
  assumes "time_encodable zone t"
  shows "parse_rfc3339 (rfc3339_nano (zone t) t) = Some t"
proof -
  define c where "c = clock_of (zone t) t"
  have ok: "clock_ok c" "of_clock (zone t) c = t" using clock_roundtrip unfolding c_def by blast+
  then have v: "valid_date (ck_year c) (ck_month c) (ck_day c)" by (simp add: clock_ok_def)
  then have d: "1 \<le> ck_day c" "ck_day c \<le> 31" "1 \<le> ck_month c" "ck_month c \<le> 12"
    using month_lengths_small [of "ck_month c" "ck_year c"] by (simp_all add: valid_date_def)
  have y: "0 \<le> ck_year c" "ck_year c \<le> 9999" "\<bar>zone t\<bar> < 24 * 60" using assms by (simp_all add: time_encodable_def c_def)
  have b: "0 \<le> ck_hour c" "ck_hour c < 24" "0 \<le> ck_minute c" "ck_minute c < 60" "0 \<le> ck_second c" "ck_second c < 60"
    "0 \<le> ck_nano c" "ck_nano c < 1000000000" using ok(1) by (simp_all add: clock_ok_def)
  have "read_zone (zone_text (zone t)) = Some (zone t, [])" using read_zone_text [OF y(3), of "[]"] by simp
  moreover have "read_frac (nano_text (ck_nano c) @ zone_text (zone t)) = (ck_nano c, zone_text (zone t))"
    using read_frac_text [OF b(7,8), of "zone t" "[]"] by simp
  ultimately have "parse_rfc3339 (rfc3339_nano (zone t) t) = Some (of_clock (zone t)
      \<lparr>ck_year = ck_year c, ck_month = ck_month c, ck_day = ck_day c, ck_hour = ck_hour c, ck_minute = ck_minute c,
       ck_second = ck_second c, ck_nano = ck_nano c\<rparr>)"
    using y d b v
    by (simp add: parse_rfc3339_def rfc3339_nano_def Let_def c_def [symmetric] date_text_def time_text_def)
  also have "\<dots> = Some t" using ok(2) by (cases c) simp
  finally show ?thesis .
qed

section \<open>The characters of a time\<close>

text \<open>A text that JSON writes as it is.\<close>

definition plain_char :: "byte \<Rightarrow> bool" where
  "plain_char b \<longleftrightarrow> 32 \<le> unat b \<and> b \<noteq> 34 \<and> b \<noteq> 92"

lemma plain_dec: "is_dec b \<Longrightarrow> plain_char b"
  by (auto simp: plain_char_def is_dec_def)

lemma plain_digits: "list_all is_dec s \<Longrightarrow> list_all plain_char s"
  by (auto simp: list_all_iff plain_dec)

lemma plain_pad_int: "list_all plain_char (pad_int w z)"
  using plain_digits [OF pad_dec_sel(2)] plain_digits [OF dec_nat_sel(2)]
  by (simp add: pad_int_def Let_def) (simp add: plain_char_def)

lemma plain_nano: "list_all plain_char (nano_text ns)"
proof -
  have "set (dropWhile P (rev s)) \<subseteq> set s" for P and s :: gostring using set_dropWhileD by fastforce
  moreover have "list_all plain_char (pad_dec 9 (nat ns))" by (rule plain_digits) simp
  ultimately show ?thesis by (fastforce simp: nano_text_def plain_char_def list_all_iff)
qed

lemma plain_rfc3339: "list_all plain_char (rfc3339_nano off t)"
  unfolding rfc3339_nano_def Let_def date_text_def time_text_def zone_text_def
  using plain_pad_int plain_nano by (auto simp: plain_char_def)

lemma rfc3339_not_Nil [simp]: "rfc3339_nano off t \<noteq> []"
  by (simp add: rfc3339_nano_def Let_def)

end
