(* ===== verification/Cursor.thy ===== *)
theory Cursor
  imports Json Gotime
begin

text \<open>
  \<open>internal/api/cursor.go\<close>: the opaque pagination token, a JSON object in unpadded URL-safe base64.
  \<open>base64.RawURLEncoding\<close> is written out, with its decoder's habit of skipping line breaks and
  ignoring stray trailing bits, and so is the two-field JSON object, with the time in RFC 3339 on the
  clock of the local zone. \<open>EncodeCursor\<close> and \<open>DecodeCursor\<close> take the codec of the object as an argument.
\<close>

section \<open>base64.RawURLEncoding\<close>

definition b64_char :: "nat \<Rightarrow> byte" where
  "b64_char n = of_nat (if n < 26 then 65 + n else if n < 52 then 71 + n else if n < 62 then n - 4
                        else if n = 62 then 45 else 95)"

definition b64_value :: "byte \<Rightarrow> nat option" where
  "b64_value b =
     (let n = unat b
      in if 65 \<le> n \<and> n \<le> 90 then Some (n - 65) else if 97 \<le> n \<and> n \<le> 122 then Some (n - 71)
         else if 48 \<le> n \<and> n \<le> 57 then Some (n + 4) else if n = 45 then Some 62 else if n = 95 then Some 63 else None)"

fun b64_sextets :: "nat list \<Rightarrow> nat list" where
  "b64_sextets [] = []"
| "b64_sextets [a] = [a div 4, a mod 4 * 16]"
| "b64_sextets [a, b] = [a div 4, a mod 4 * 16 + b div 16, b mod 16 * 4]"
| "b64_sextets (a # b # c # r) =
     [a div 4, a mod 4 * 16 + b div 16, b mod 16 * 4 + c div 64, c mod 64] @ b64_sextets r"

fun b64_octets :: "nat list \<Rightarrow> nat list option" where
  "b64_octets [] = Some []"
| "b64_octets [w] = None"
| "b64_octets [w, x] = Some [w * 4 + x div 16]"
| "b64_octets [w, x, y] = Some [w * 4 + x div 16, x mod 16 * 16 + y div 4]"
| "b64_octets (w # x # y # z # r) =
     map_option (\<lambda>os. (w * 4 + x div 16) # (x mod 16 * 16 + y div 4) # (y mod 4 * 64 + z) # os) (b64_octets r)"

definition b64_encode :: "gostring \<Rightarrow> gostring" where
  "b64_encode s = map b64_char (b64_sextets (map unat s))"

fun all_some :: "'a option list \<Rightarrow> 'a list option" where
  "all_some [] = Some []"
| "all_some (x # xs) = (case x of None \<Rightarrow> None | Some y \<Rightarrow> map_option (Cons y) (all_some xs))"

definition b64_decode :: "gostring \<Rightarrow> gostring option" where
  "b64_decode s =
     (case all_some (map b64_value (filter (\<lambda>b. b \<noteq> 10 \<and> b \<noteq> 13) s)) of
        None \<Rightarrow> None
      | Some vs \<Rightarrow> map_option (map of_nat) (b64_octets vs))"

lemma b64_octets_sextets:
  "list_all (\<lambda>a. a < 256) os \<Longrightarrow> b64_octets (b64_sextets os) = Some os"
proof (induction os rule: b64_sextets.induct)
  case (4 a b c r)
  have "(a mod 4 * 16 + b div 16) div 16 = a mod 4" "(a mod 4 * 16 + b div 16) mod 16 = b div 16"
    "(b mod 16 * 4 + c div 64) div 4 = b mod 16" "(b mod 16 * 4 + c div 64) mod 4 = c div 64"
    using 4(2) by (simp_all add: less_mult_imp_div_less)
  with 4 show ?case by simp
next
  case (3 a b)
  have "(a mod 4 * 16 + b div 16) div 16 = a mod 4" "(a mod 4 * 16 + b div 16) mod 16 = b div 16"
    using 3 by (simp_all add: less_mult_imp_div_less)
  then show ?case by simp
qed simp_all

lemma sextet_bounds:
  fixes a b :: nat
  assumes "b < 256"
  shows "a mod 4 * 16 + b div 16 < 64" "a mod 16 * 4 + b div 64 < 64" "a mod 16 * 4 < 64" "a mod 4 * 16 < 64"
    "b div 4 < 64"
proof -
  have d: "b div 16 < 16" "b div 64 < 4" "b div 4 < 64" using assms by (simp_all add: less_mult_imp_div_less)
  have m: "a mod 4 < 4" "a mod 16 < 16" by simp_all
  show "a mod 4 * 16 + b div 16 < 64" "a mod 16 * 4 + b div 64 < 64" "a mod 16 * 4 < 64" "a mod 4 * 16 < 64"
    "b div 4 < 64" using d m by linarith+
qed

lemma b64_sextets_small: "list_all (\<lambda>a. a < 256) os \<Longrightarrow> list_all (\<lambda>v. v < 64) (b64_sextets os)"
  by (induction os rule: b64_sextets.induct) (simp_all add: sextet_bounds)

lemma unat_of_nat_small: "n < 256 \<Longrightarrow> unat (of_nat n :: byte) = n"
  by (rule unat_byte)

lemma b64_value_char: "n < 64 \<Longrightarrow> b64_value (b64_char n) = Some n"
proof -
  assume n: "n < 64"
  define m where "m = (if n < 26 then 65 + n else if n < 52 then 71 + n else if n < 62 then n - 4
                        else if n = 62 then 45 else 95)"
  have "m < 256" using n unfolding m_def by (split if_split | linarith)+
  then have u: "unat (b64_char n) = m" unfolding b64_char_def m_def [symmetric] by (rule unat_of_nat_small)
  consider "n < 26" | "26 \<le> n" "n < 52" | "52 \<le> n" "n < 62" | "n = 62" | "n = 63" using n by linarith
  then show ?thesis unfolding b64_value_def Let_def u by cases (auto simp: m_def)
qed

lemma b64_char_no_break: "n < 64 \<Longrightarrow> b64_char n \<noteq> 10 \<and> b64_char n \<noteq> 13"
proof -
  assume "n < 64"
  then have "b64_value (b64_char n) \<noteq> None" by (simp add: b64_value_char)
  moreover have "b64_value 10 = None" "b64_value 13 = None" by (simp_all add: b64_value_def)
  ultimately show ?thesis by metis
qed

lemma unat_byte_less: "unat (b :: byte) < 256"
  using unsigned_less [of b] by simp

lemma all_some_map: "list_all (\<lambda>x. f (g x) = Some x) xs \<Longrightarrow> all_some (map f (map g xs)) = Some xs"
  by (induction xs) auto

lemma b64_roundtrip: "b64_decode (b64_encode s) = Some s"
proof -
  let ?v = "b64_sextets (map unat s)"
  have u: "unat b < 256" for b :: byte by (rule unat_byte_less)
  then have small: "list_all (\<lambda>a. a < 256) (map unat s)" by (simp add: list_all_iff)
  note v = b64_sextets_small [OF small]
  have "filter (\<lambda>b. b \<noteq> 10 \<and> b \<noteq> 13) (map b64_char ?v) = map b64_char ?v"
    using v b64_char_no_break by (auto simp: filter_id_conv list_all_iff)
  moreover have "all_some (map b64_value (map b64_char ?v)) = Some ?v"
    using v b64_value_char by (intro all_some_map) (simp add: list_all_iff)
  ultimately show ?thesis
    using b64_octets_sextets [OF small] by (simp add: b64_encode_def b64_decode_def comp_def)
qed

section \<open>The cursor\<close>

record cursor =
  cur_time :: time
  cur_id :: gostring

definition zero_cursor :: cursor where
  "zero_cursor = \<lparr>cur_time = 0, cur_id = []\<rparr>"

definition encode_cursor :: "(cursor \<Rightarrow> go_error + gostring) \<Rightarrow> cursor \<Rightarrow> go_error + gostring" where
  "encode_cursor marshal c = bind_err (marshal c) (\<lambda>raw. Inr (b64_encode raw))"

definition decode_cursor :: "(gostring \<Rightarrow> cursor option) \<Rightarrow> gostring \<Rightarrow> go_error + cursor" where
  "decode_cursor unmarshal s =
     (if s = [] then Inr zero_cursor
      else case b64_decode s of
             None \<Rightarrow> Inl (Plain (str ''cursor: invalid base64''))
           | Some raw \<Rightarrow>
               (case unmarshal raw of
                  None \<Rightarrow> Inl (Plain (str ''cursor: invalid payload''))
                | Some c \<Rightarrow> if cur_id c = [] then Inl (Plain (str ''cursor: empty id'')) else Inr c))"

text \<open>What the pages rely on: the codec keeps a cursor whose id is well-formed text, and an encoded object is
  not empty.\<close>

definition json_cursor :: "(cursor \<Rightarrow> go_error + gostring) \<Rightarrow> (gostring \<Rightarrow> cursor option) \<Rightarrow> bool" where
  "json_cursor marshal unmarshal \<longleftrightarrow>
     (\<forall>c raw. valid_utf8 (cur_id c) \<longrightarrow> marshal c = Inr raw \<longrightarrow> raw \<noteq> [] \<and> unmarshal raw = Some c)"

section \<open>Its JSON\<close>

definition into_time :: "json \<Rightarrow> time \<Rightarrow> time option" where
  "into_time j old = (case j of JStr raw \<Rightarrow> parse_rfc3339 raw | JNull \<Rightarrow> Some old | _ \<Rightarrow> None)"

definition jtime :: "(time \<Rightarrow> int) \<Rightarrow> time \<Rightarrow> json" where
  "jtime zone t = JStr (rfc3339_nano (zone t) t)"

definition cursor_json :: "(time \<Rightarrow> int) \<Rightarrow> cursor \<Rightarrow> json" where
  "cursor_json zone c = jobj [(''t'', jtime zone (cur_time c)), (''i'', jstr (cur_id c))]"

definition cursor_to_json :: "(time \<Rightarrow> int) \<Rightarrow> cursor \<Rightarrow> go_error + gostring" where
  "cursor_to_json zone c =
     (if time_encodable zone (cur_time c) then Inr (json_marshal (cursor_json zone c))
      else Inl (Plain (str ''Time.MarshalJSON: year or offset outside of range'')))"

definition cursor_of_json :: "gostring \<Rightarrow> cursor option" where
  "cursor_of_json raw = do {
     j \<leftarrow> json_unmarshal raw;
     fs \<leftarrow> members j;
     t \<leftarrow> field ''t'' into_time 0 fs;
     i \<leftarrow> field ''i'' into_string [] fs;
     Some \<lparr>cur_time = t, cur_id = i\<rparr>
   }"

lemma raw_ok_time [simp]: "raw_ok (rfc3339_nano off t)"
  using plain_rfc3339 [of off t] by (intro passes_raw passes_bytes) (simp add: plain_char_def [abs_def])

lemma jtime_ok [simp]: "json_ok (jtime zone t)" "json_depth (jtime zone t) = 0"
  by (simp_all add: jtime_def)

lemma into_time_jtime: "time_encodable zone t \<Longrightarrow> into_time (jtime zone t) old = Some t"
  by (simp add: into_time_def jtime_def parse_rfc3339_nano)

lemma json_marshal_not_Nil [simp]: "json_marshal (jobj fs) \<noteq> []"
  by (cases fs) (auto simp: json_marshal_def jobj_def)

lemma cursor_json_roundtrip: "json_cursor (cursor_to_json zone) cursor_of_json"
proof -
  have "cursor_of_json (json_marshal (cursor_json zone c)) = Some c"
    if v: "valid_utf8 (cur_id c)" and e: "time_encodable zone (cur_time c)" for c
  proof -
    have ok: "json_ok (cursor_json zone c)" by (simp add: cursor_json_def)
    have "json_depth (cursor_json zone c) \<le> Suc 0" unfolding cursor_json_def jobj_depth by simp
    then have "json_depth (cursor_json zone c) \<le> 10000" by simp
    note u = unmarshal_marshal [OF ok this]
    show ?thesis unfolding cursor_of_json_def u using v e
      by (cases c) (simp add: cursor_json_def fold_rune_def into_time_jtime)
  qed
  moreover have "json_marshal (cursor_json zone c) \<noteq> []" for c by (simp add: cursor_json_def)
  ultimately show ?thesis by (simp add: json_cursor_def cursor_to_json_def)
qed

lemma b64_encode_Nil: "b64_encode s = [] \<longleftrightarrow> s = []"
  by (cases "map unat s" rule: b64_sextets.cases) (auto simp: b64_encode_def)

lemma cursor_roundtrip_lemma:
  assumes "json_cursor marshal unmarshal" "valid_utf8 (cur_id c)" "cur_id c \<noteq> []"
    "encode_cursor marshal c = Inr s"
  shows "decode_cursor unmarshal s = Inr c"
proof -
  from assms(4) obtain raw where raw: "marshal c = Inr raw" "s = b64_encode raw"
    by (auto simp: encode_cursor_def bind_err_Inr_iff)
  with assms(1,2) have "raw \<noteq> []" "unmarshal raw = Some c" unfolding json_cursor_def by blast+
  with assms(3) raw(2) show ?thesis by (simp add: decode_cursor_def b64_roundtrip b64_encode_Nil)
qed

section \<open>Properties\<close>

text \<open>C29. A token handed out by the list endpoint decodes to the position it was made from, to the
  nanosecond and whatever the local zone.\<close>

theorem cursor_roundtrip:
  assumes "encode_cursor (cursor_to_json zone) c = Inr s" "valid_utf8 (cur_id c)" "cur_id c \<noteq> []"
  shows "decode_cursor cursor_of_json s = Inr c"
  by (rule cursor_roundtrip_lemma [OF cursor_json_roundtrip assms(2,3,1)])

lemma ex_time_encodable: "time_encodable (\<lambda>t. 120) 5"
  by code_simp

theorem cursor_roundtrip_witness:
  "\<exists>s. encode_cursor (cursor_to_json (\<lambda>t. 120)) \<lparr>cur_time = 5, cur_id = str ''ab''\<rparr> = Inr s
     \<and> decode_cursor cursor_of_json s = Inr \<lparr>cur_time = 5, cur_id = str ''ab''\<rparr>"
proof -
  obtain s where s: "encode_cursor (cursor_to_json (\<lambda>t. 120)) \<lparr>cur_time = 5, cur_id = str ''ab''\<rparr> = Inr s"
    by (simp add: encode_cursor_def cursor_to_json_def ex_time_encodable)
  have "valid_utf8 (str ''ab'')" by (rule valid_utf8_ascii) simp
  from cursor_roundtrip [OF s] this s show ?thesis by simp
qed

text \<open>A token consists of URL-safe letters only, and decoding accepts a token only if it is empty
  (the first page) or names a document.\<close>

theorem cursor_tokens:
  "(case encode_cursor marshal c of Inl e \<Rightarrow> True | Inr s \<Rightarrow> list_all (\<lambda>b. b64_value b \<noteq> None) s)
   \<and> (case decode_cursor unmarshal t of Inl e \<Rightarrow> t \<noteq> [] | Inr d \<Rightarrow> (if t = [] then d = zero_cursor else cur_id d \<noteq> []))"
proof
  show "case encode_cursor marshal c of Inl e \<Rightarrow> True | Inr s \<Rightarrow> list_all (\<lambda>b. b64_value b \<noteq> None) s"
  proof (cases "marshal c")
    case (Inr raw)
    have u: "unat b < 256" for b :: byte by (rule unat_byte_less)
    then have small: "list_all (\<lambda>a. a < 256) (map unat raw)" by (simp add: list_all_iff)
    from b64_sextets_small [OF this] Inr show ?thesis
      by (auto simp: encode_cursor_def b64_encode_def list_all_iff b64_value_char)
  qed (simp add: encode_cursor_def)
  show "case decode_cursor unmarshal t of Inl e \<Rightarrow> t \<noteq> [] | Inr d \<Rightarrow> (if t = [] then d = zero_cursor else cur_id d \<noteq> [])"
    by (auto simp: decode_cursor_def split: option.split)
qed

end
