(* ===== verification/Chunker.thy ===== *)
theory Chunker
  imports Utf8
begin

text \<open>
  \<open>internal/chunker/chunker.go\<close>: \<open>Split\<close> with its option defaults, \<open>preferBoundary\<close>, \<open>isSpace\<close> and
  \<open>CountRunes\<close>. The loop of \<open>Split\<close> is a \<open>partial_function (option)\<close>, so that a loop that does not
  end would be \<open>None\<close>; it is proved to end for every body and every option. The lemmas describe the
  loop by its chain of windows: they start at 0, end at the length of the body, leave no gap,
  overlap by exactly the clamped \<open>Overlap\<close> and are never longer than the clamped \<open>MaxChars\<close>.
\<close>

section \<open>Options and chunks\<close>

record chunk_opts =
  target_chars :: int
  max_chars :: int
  overlap :: int

record chunk =
  ck_index :: nat
  ck_text :: gostring

definition default_target_chars :: int where "default_target_chars = 500"
definition default_max_chars :: int where "default_max_chars = 700"
definition default_overlap :: int where "default_overlap = 50"

definition zero_opts :: chunk_opts where
  "zero_opts = \<lparr>target_chars = 0, max_chars = 0, overlap = 0\<rparr>"

text \<open>The clamping at the head of \<open>Split\<close>, one assignment after the other.\<close>

definition clamp_opts :: "chunk_opts \<Rightarrow> chunk_opts" where
  "clamp_opts o0 =
     (let o1 = (if target_chars o0 \<le> 0 then o0\<lparr>target_chars := default_target_chars\<rparr> else o0);
          o2 = (if max_chars o1 \<le> 0 then o1\<lparr>max_chars := default_max_chars\<rparr> else o1);
          o3 = (if max_chars o2 < target_chars o2 then o2\<lparr>max_chars := target_chars o2\<rparr> else o2);
          o4 = (if overlap o3 < 0 then o3\<lparr>overlap := 0\<rparr> else o3)
      in if target_chars o4 \<le> overlap o4 then o4\<lparr>overlap := target_chars o4 div 4\<rparr> else o4)"

section \<open>Boundaries\<close>

definition is_blank :: "rune \<Rightarrow> bool" where
  "is_blank r \<longleftrightarrow> r = 0x20 \<or> r = 0x09 \<or> r = 0x0A \<or> r = 0x0D"

text \<open>The runes that end a sentence: full stop, exclamation mark, question mark, newline.\<close>

definition ends_sentence :: "rune \<Rightarrow> bool" where
  "ends_sentence r \<longleftrightarrow> r = 0x2E \<or> r = 0x21 \<or> r = 0x3F \<or> r = 0x0A"

function skip_blank :: "rune list \<Rightarrow> nat \<Rightarrow> nat \<Rightarrow> nat" where
  "skip_blank rs j hard_end =
     (if j < hard_end \<and> is_blank (rs ! j) then skip_blank rs (Suc j) hard_end else j)"
  by pat_completeness auto
termination
  by (relation "measure (\<lambda>(rs, j, hard_end). hard_end - j)") auto

declare skip_blank.simps [simp del]

definition prefer_boundary :: "rune list \<Rightarrow> nat \<Rightarrow> nat \<Rightarrow> nat" where
  "prefer_boundary rs target hard_end =
     (if length rs \<le> target then length rs
      else case find (\<lambda>i. ends_sentence (rs ! i)) [target..<hard_end] of
        Some i \<Rightarrow> skip_blank rs (Suc i) hard_end
      | None \<Rightarrow>
          (case find (\<lambda>i. is_blank (rs ! i)) [target..<hard_end] of
             Some i \<Rightarrow> i
           | None \<Rightarrow> target))"

definition count_runes :: "gostring \<Rightarrow> nat" where
  "count_runes s = length (runes s)"

section \<open>The loop\<close>

definition rslice :: "nat \<Rightarrow> nat \<Rightarrow> 'a list \<Rightarrow> 'a list" where
  "rslice a b xs = take (b - a) (drop a xs)"

text \<open>End of the window that starts at \<open>cursor\<close>, and the start of the one after it.\<close>

definition window_end :: "chunk_opts \<Rightarrow> rune list \<Rightarrow> nat \<Rightarrow> nat" where
  "window_end opts rs cursor =
     prefer_boundary rs
       (min (cursor + nat (target_chars opts)) (length rs))
       (min (cursor + nat (max_chars opts)) (length rs))"

definition next_cursor :: "chunk_opts \<Rightarrow> nat \<Rightarrow> nat \<Rightarrow> nat" where
  "next_cursor opts cursor e =
     (if int e - overlap opts \<le> int cursor then e else nat (int e - overlap opts))"

definition window_text :: "rune list \<Rightarrow> nat \<Rightarrow> nat \<Rightarrow> gostring" where
  "window_text rs a b = trim_space (of_runes (rslice a b rs))"

partial_function (option) split_loop ::
  "chunk_opts \<Rightarrow> rune list \<Rightarrow> nat \<Rightarrow> nat \<Rightarrow> chunk list \<Rightarrow> chunk list option" where
  "split_loop opts rs idx cursor out =
     (if cursor < length rs then
        (let e = window_end opts rs cursor;
             piece = window_text rs cursor e;
             out' = (if piece \<noteq> [] then out @ [\<lparr>ck_index = idx, ck_text = piece\<rparr>] else out);
             idx' = (if piece \<noteq> [] then Suc idx else idx)
         in if length rs \<le> e then Some out'
            else split_loop opts rs idx' (next_cursor opts cursor e) out')
      else Some out)"

definition split_body :: "chunk_opts \<Rightarrow> gostring \<Rightarrow> chunk list option" where
  "split_body opts body =
     (let rs = runes body in
      if int (length rs) \<le> max_chars opts then Some [\<lparr>ck_index = 0, ck_text = of_runes rs\<rparr>]
      else
        map_option (\<lambda>out. if out = [] then [\<lparr>ck_index = 0, ck_text = of_runes rs\<rparr>] else out)
          (split_loop opts rs 0 0 []))"

text \<open>\<open>Split\<close>.\<close>

definition split_chunks :: "gostring \<Rightarrow> chunk_opts \<Rightarrow> chunk list option" where
  "split_chunks body opts =
     (let opts = clamp_opts opts; body = trim_space body
      in if body = [] then Some [\<lparr>ck_index = 0, ck_text = []\<rparr>] else split_body opts body)"

section \<open>Facts on options and boundaries\<close>

definition opts_ok :: "chunk_opts \<Rightarrow> bool" where
  "opts_ok opts \<longleftrightarrow> 0 < target_chars opts \<and> target_chars opts \<le> max_chars opts
     \<and> 0 \<le> overlap opts \<and> overlap opts < target_chars opts"

lemma clamp_opts_ok [intro, simp]: "opts_ok (clamp_opts opts)"
  by (auto simp: clamp_opts_def opts_ok_def Let_def default_target_chars_def default_max_chars_def)

lemma clamp_opts_id: "opts_ok opts \<Longrightarrow> clamp_opts opts = opts"
  by (simp add: clamp_opts_def opts_ok_def Let_def)

lemma clamp_zero_opts:
  "clamp_opts zero_opts = \<lparr>target_chars = 500, max_chars = 700, overlap = 0\<rparr>"
  by (simp add: clamp_opts_def zero_opts_def Let_def default_target_chars_def default_max_chars_def)

lemma skip_blank_bounds: "j \<le> hard_end \<Longrightarrow> j \<le> skip_blank rs j hard_end \<and> skip_blank rs j hard_end \<le> hard_end"
proof (induction rs j hard_end rule: skip_blank.induct)
  case (1 rs j hard_end)
  then show ?case by (subst (1 2) skip_blank.simps) auto
qed

lemma skip_blank_skips:
  "j \<le> i \<Longrightarrow> i < skip_blank rs j hard_end \<Longrightarrow> is_blank (rs ! i)"
proof (induction rs j hard_end arbitrary: i rule: skip_blank.induct)
  case (1 rs j hard_end)
  show ?case
  proof (cases "j < hard_end \<and> is_blank (rs ! j)")
    case True
    with 1 show ?thesis
      by (cases "i = j") (auto simp: skip_blank.simps [of rs j hard_end])
  next
    case False
    with "1.prems" show ?thesis by (auto simp: skip_blank.simps [of rs j hard_end])
  qed
qed

lemma find_upt_SomeD:
  assumes "find P [a..<b] = Some i"
  shows "a \<le> i" "i < b" "P i" "\<And>j. a \<le> j \<Longrightarrow> j < i \<Longrightarrow> \<not> P j"
proof -
  obtain k where k: "k < length [a..<b]" "P ([a..<b] ! k)" "i = [a..<b] ! k"
      "\<forall>j<k. \<not> P ([a..<b] ! j)"
    using assms by (auto simp: find_Some_iff)
  then have i: "i = a + k" by simp
  with k show "a \<le> i" "i < b" "P i" by auto
  fix j assume "a \<le> j" "j < i"
  then have "j - a < k" "[a..<b] ! (j - a) = j" using i k by auto
  with k(4) show "\<not> P j" by metis
qed

lemma prefer_boundary_bounds:
  assumes "target \<le> hard_end" "hard_end \<le> length rs"
  shows "target \<le> prefer_boundary rs target hard_end \<and> prefer_boundary rs target hard_end \<le> hard_end"
proof (cases "length rs \<le> target")
  case True
  with assms show ?thesis by (simp add: prefer_boundary_def)
next
  case False
  show ?thesis
  proof (cases "find (\<lambda>i. ends_sentence (rs ! i)) [target..<hard_end]")
    case None
    with False assms show ?thesis
      by (auto simp: prefer_boundary_def split: option.split dest: find_upt_SomeD(1,2))
  next
    case (Some i)
    from find_upt_SomeD(1,2) [OF this] skip_blank_bounds [of "Suc i" hard_end rs] False Some
    show ?thesis by (simp add: prefer_boundary_def)
  qed
qed

lemma window_end_bounds:
  assumes "opts_ok opts" "cursor < length rs"
  shows "cursor < window_end opts rs cursor"
    and "window_end opts rs cursor \<le> length rs"
    and "window_end opts rs cursor \<le> cursor + nat (max_chars opts)"
    and "window_end opts rs cursor < length rs \<Longrightarrow> cursor + nat (target_chars opts) \<le> window_end opts rs cursor"
proof -
  let ?t = "min (cursor + nat (target_chars opts)) (length rs)"
  let ?h = "min (cursor + nat (max_chars opts)) (length rs)"
  have o: "0 < nat (target_chars opts)" "nat (target_chars opts) \<le> nat (max_chars opts)"
    using assms(1) by (auto simp: opts_ok_def)
  have "?t \<le> ?h" "?h \<le> length rs" using o by auto
  from prefer_boundary_bounds [OF this]
  have b: "?t \<le> window_end opts rs cursor" "window_end opts rs cursor \<le> ?h"
    by (auto simp: window_end_def)
  show "cursor < window_end opts rs cursor" using b o assms(2) by linarith
  show "window_end opts rs cursor \<le> length rs" using b by linarith
  show "window_end opts rs cursor \<le> cursor + nat (max_chars opts)" using b by linarith
  show "cursor + nat (target_chars opts) \<le> window_end opts rs cursor"
    if "window_end opts rs cursor < length rs" using b that by linarith
qed

text \<open>With clamped options the guard \<open>next <= cursor\<close> never fires: the cursor backs up by \<open>Overlap\<close>.\<close>

lemma next_cursor_eq:
  assumes "opts_ok opts" "cursor < length rs" "window_end opts rs cursor < length rs"
  shows "next_cursor opts cursor (window_end opts rs cursor) + nat (overlap opts) = window_end opts rs cursor"
    and "cursor < next_cursor opts cursor (window_end opts rs cursor)"
proof -
  have "cursor + nat (target_chars opts) \<le> window_end opts rs cursor"
    using window_end_bounds(4) assms by blast
  then show "next_cursor opts cursor (window_end opts rs cursor) + nat (overlap opts) = window_end opts rs cursor"
    and "cursor < next_cursor opts cursor (window_end opts rs cursor)"
    using assms(1) by (auto simp: next_cursor_def opts_ok_def)
qed

section \<open>The chain of windows\<close>

inductive chain :: "chunk_opts \<Rightarrow> rune list \<Rightarrow> nat \<Rightarrow> (nat \<times> nat) list \<Rightarrow> bool"
  for opts rs where
  last_window: "cursor < length rs \<Longrightarrow> window_end opts rs cursor = e \<Longrightarrow> length rs \<le> e \<Longrightarrow>
    chain opts rs cursor [(cursor, e)]"
| more_windows: "cursor < length rs \<Longrightarrow> window_end opts rs cursor = e \<Longrightarrow> e < length rs \<Longrightarrow>
    chain opts rs (next_cursor opts cursor e) ws \<Longrightarrow> chain opts rs cursor ((cursor, e) # ws)"

inductive_cases chain_NilE [elim!]: "chain opts rs cursor []"

lemma chain_exists: "opts_ok opts \<Longrightarrow> cursor < length rs \<Longrightarrow> \<exists>ws. chain opts rs cursor ws"
proof (induction "length rs - cursor" arbitrary: cursor rule: less_induct)
  case less
  show ?case
  proof (cases "length rs \<le> window_end opts rs cursor")
    case True
    with less show ?thesis by (blast intro: chain.last_window)
  next
    case False
    then have e: "window_end opts rs cursor < length rs" by simp
    note nc = next_cursor_eq [OF less.prems e]
    then have "next_cursor opts cursor (window_end opts rs cursor) < length rs" using e by linarith
    with less nc obtain ws where "chain opts rs (next_cursor opts cursor (window_end opts rs cursor)) ws"
      by (meson diff_less_mono2)
    with less e show ?thesis by (blast intro: chain.more_windows)
  qed
qed

text \<open>The texts of the windows, blank ones dropped, and their numbering.\<close>

definition texts_of :: "rune list \<Rightarrow> (nat \<times> nat) list \<Rightarrow> gostring list" where
  "texts_of rs ws = filter (\<lambda>t. t \<noteq> []) (map (\<lambda>(a, b). window_text rs a b) ws)"

definition number_from :: "nat \<Rightarrow> gostring list \<Rightarrow> chunk list" where
  "number_from i ts = map (\<lambda>(k, t). \<lparr>ck_index = k, ck_text = t\<rparr>) (enumerate i ts)"

lemma number_from_simps [simp]:
  "number_from i [] = []"
  "number_from i (t # ts) = \<lparr>ck_index = i, ck_text = t\<rparr> # number_from (Suc i) ts"
  by (simp_all add: number_from_def)

lemma length_number_from [simp]: "length (number_from i ts) = length ts"
  by (simp add: number_from_def)

lemma number_from_Nil_iff [simp]: "number_from i ts = [] \<longleftrightarrow> ts = []"
  by (cases ts) auto

lemma map_ck_text_number_from [simp]: "map ck_text (number_from i ts) = ts"
  by (induction ts arbitrary: i) auto

lemma map_ck_index_number_from: "map ck_index (number_from i ts) = [i..<i + length ts]"
proof -
  have "map ck_index (number_from i ts) = map fst (enumerate i ts)"
    by (simp add: number_from_def comp_def case_prod_beta)
  then show ?thesis by (simp add: map_fst_enumerate)
qed

lemma texts_of_Cons:
  "texts_of rs ((a, b) # ws)
     = (if window_text rs a b \<noteq> [] then [window_text rs a b] else []) @ texts_of rs ws"
  by (simp add: texts_of_def)

lemma split_loop_chain:
  "chain opts rs cursor ws \<Longrightarrow>
     split_loop opts rs idx cursor out = Some (out @ number_from idx (texts_of rs ws))"
proof (induction cursor ws arbitrary: idx out rule: chain.induct)
  case (last_window cursor e)
  then show ?case
    by (subst split_loop.simps) (simp add: Let_def texts_of_Cons, simp add: texts_of_def)
next
  case (more_windows cursor e ws)
  then show ?case
    by (subst split_loop.simps) (simp add: Let_def texts_of_Cons)
qed

text \<open>
  What the windows promise, apart from the loop that computes them: from 0 to the end without a
  gap, each within \<open>MaxChars\<close>, neighbours sharing exactly \<open>Overlap\<close> runes.
\<close>

definition window_cover :: "chunk_opts \<Rightarrow> nat \<Rightarrow> (nat \<times> nat) list \<Rightarrow> bool" where
  "window_cover opts n ws \<longleftrightarrow>
     ws \<noteq> [] \<and> fst (hd ws) = 0 \<and> snd (last ws) = n
     \<and> list_all (\<lambda>(a, b). a < b \<and> b \<le> n \<and> b - a \<le> nat (max_chars opts)) ws
     \<and> successively (\<lambda>(a, b) (c, d). a < c \<and> c + nat (overlap opts) = b) ws"

lemma chain_hd: "chain opts rs cursor ws \<Longrightarrow> ws \<noteq> [] \<and> fst (hd ws) = cursor"
  by (cases rule: chain.cases) auto

lemma chain_last: "chain opts rs cursor ws \<Longrightarrow> opts_ok opts \<Longrightarrow> snd (last ws) = length rs"
proof (induction rule: chain.induct)
  case (last_window cursor e)
  then show ?case using window_end_bounds(2) by fastforce
next
  case (more_windows cursor e ws)
  then show ?case using chain_hd by fastforce
qed

lemma chain_windows:
  "chain opts rs cursor ws \<Longrightarrow> opts_ok opts \<Longrightarrow>
     list_all (\<lambda>(a, b). a < b \<and> b \<le> length rs \<and> b - a \<le> nat (max_chars opts)) ws"
proof (induction rule: chain.induct)
  case (last_window cursor e)
  then show ?case using window_end_bounds [of opts cursor rs] by auto
next
  case (more_windows cursor e ws)
  then show ?case using window_end_bounds [of opts cursor rs] by auto
qed

lemma chain_successive:
  "chain opts rs cursor ws \<Longrightarrow> opts_ok opts \<Longrightarrow>
     successively (\<lambda>(a, b) (c, d). a < c \<and> c + nat (overlap opts) = b) ws"
proof (induction rule: chain.induct)
  case (last_window cursor e)
  then show ?case by simp
next
  case (more_windows cursor e ws)
  then show ?case
    using next_cursor_eq [of opts cursor rs] chain_hd [of opts rs "next_cursor opts cursor e" ws]
    by (auto simp: successively_Cons)
qed

lemma chain_cover: "chain opts rs 0 ws \<Longrightarrow> opts_ok opts \<Longrightarrow> window_cover opts (length rs) ws"
  using chain_hd chain_last chain_windows chain_successive by (simp add: window_cover_def)

lemma cover_index:
  fixes i :: nat
  assumes "i < n" "a \<le> i"
  shows "ws \<noteq> [] \<Longrightarrow> fst (hd ws) = a \<Longrightarrow> snd (last ws) = n \<Longrightarrow>
    successively (\<lambda>(a, b) (c, d). a < c \<and> c + k = b) ws \<Longrightarrow> \<exists>(c, d) \<in> set ws. c \<le> i \<and> i < d"
  using assms
proof (induction ws arbitrary: a)
  case Nil
  then show ?case by simp
next
  case (Cons w ws)
  show ?case
  proof (cases "i < snd w")
    case True
    with Cons.prems show ?thesis by (cases w) auto
  next
    case False
    then have ne: "ws \<noteq> []" using Cons.prems by auto
    then have "fst (hd ws) \<le> i" using Cons.prems(4) False
      by (cases w; cases "hd ws") (auto simp: successively_Cons)
    with Cons ne show ?thesis by (auto simp: successively_Cons)
  qed
qed

lemma window_cover_index:
  "window_cover opts n ws \<Longrightarrow> i < n \<Longrightarrow> \<exists>(a, b) \<in> set ws. a \<le> i \<and> i < b"
  unfolding window_cover_def using cover_index [of i n 0 ws "nat (overlap opts)"] by simp

section \<open>Facts on window texts\<close>

lemma length_rslice: "b \<le> length xs \<Longrightarrow> length (rslice a b xs) = b - a"
  by (simp add: rslice_def)

lemma nth_in_rslice: "a \<le> i \<Longrightarrow> i < b \<Longrightarrow> b \<le> length xs \<Longrightarrow> xs ! i \<in> set (rslice a b xs)"
proof -
  assume a: "a \<le> i" "i < b" "b \<le> length xs"
  then have "rslice a b xs ! (i - a) = xs ! i" "i - a < length (rslice a b xs)"
    by (auto simp: rslice_def)
  then show ?thesis by (metis nth_mem)
qed

lemma set_rslice: "set (rslice a b xs) \<subseteq> set xs"
  by (auto simp: rslice_def dest: in_set_takeD in_set_dropD)

lemma rslice_all: "rslice 0 (length xs) xs = xs"
  by (simp add: rslice_def)

lemma window_text_runes:
  assumes "list_all valid_rune rs"
  shows "window_text rs a b = of_runes (trim is_space (rslice a b rs))"
    and "runes (window_text rs a b) = trim is_space (rslice a b rs)"
proof -
  have v: "list_all valid_rune (rslice a b rs)"
    using assms set_rslice [of a b rs] by (auto simp: list_all_iff)
  then show "window_text rs a b = of_runes (trim is_space (rslice a b rs))"
    by (simp add: window_text_def trim_space_of_runes)
  then show "runes (window_text rs a b) = trim is_space (rslice a b rs)"
    using v by (simp add: list_all_trim)
qed

text \<open>A trimmed body that is not empty starts with a rune that is no space: so does its first chunk.\<close>

lemma trimmed_head:
  "trim_space body \<noteq> [] \<Longrightarrow> 0 < length (runes (trim_space body)) \<and> \<not> is_space (runes (trim_space body) ! 0)"
proof -
  assume "trim_space body \<noteq> []"
  then have "trim is_space (runes body) \<noteq> []" by (metis runes_Nil_iff runes_trim_space)
  then show ?thesis
    using trim_hd [of is_space "runes body"] by (simp add: runes_trim_space hd_conv_nth)
qed

lemma texts_of_nonempty:
  assumes "list_all valid_rune rs" "i < length rs" "\<not> is_space (rs ! i)"
    and "(a, b) \<in> set ws" "a \<le> i" "i < b" "b \<le> length rs"
  shows "\<exists>t \<in> set (texts_of rs ws). rs ! i \<in> set (runes t)"
proof -
  have "rs ! i \<in> set (runes (window_text rs a b))"
    using trim_member [OF nth_in_rslice [of a i b rs]] assms by (simp add: window_text_runes(2))
  moreover from this have "window_text rs a b \<noteq> []" by auto
  ultimately show ?thesis using assms(4) by (force simp: texts_of_def)
qed

text \<open>The result of \<open>Split\<close> on any body that is not blank, long or short.\<close>

lemma split_result:
  assumes "trim_space body \<noteq> []"
  shows "\<exists>ws. window_cover (clamp_opts opts) (length (runes (trim_space body))) ws
    \<and> texts_of (runes (trim_space body)) ws \<noteq> []
    \<and> split_chunks body opts = Some (number_from 0 (texts_of (runes (trim_space body)) ws))"
proof -
  define rs where "rs = runes (trim_space body)"
  define o' where "o' = clamp_opts opts"
  have ok: "opts_ok o'" by (simp add: o'_def)
  have v: "list_all valid_rune rs" by (simp add: rs_def runes_valid)
  have hd0: "0 < length rs" "\<not> is_space (rs ! 0)" using trimmed_head [OF assms] by (auto simp: rs_def)
  have ne: "texts_of rs ws \<noteq> []" if "window_cover o' (length rs) ws" for ws
  proof -
    from window_cover_index [OF that hd0(1)]
    obtain a b where ab: "(a, b) \<in> set ws" "a \<le> 0" "0 < b" by auto
    moreover have "b \<le> length rs"
      using that ab(1) by (auto simp: window_cover_def list_all_iff)
    ultimately show ?thesis using texts_of_nonempty [OF v hd0(1,2)] by fastforce
  qed
  show ?thesis
  proof (cases "int (length rs) \<le> max_chars o'")
    case True
    have "window_text rs 0 (length rs) = of_runes rs"
      using v by (simp add: window_text_runes rslice_all rs_def runes_trim_space)
    then have "texts_of rs [(0, length rs)] = [of_runes rs]"
      using hd0(1) by (auto simp: texts_of_def)
    moreover have "window_cover o' (length rs) [(0, length rs)]"
      using True hd0(1) by (auto simp: window_cover_def)
    moreover have "split_chunks body opts = Some [\<lparr>ck_index = 0, ck_text = of_runes rs\<rparr>]"
      using assms True by (simp add: split_chunks_def split_body_def Let_def rs_def o'_def)
    ultimately show ?thesis unfolding rs_def o'_def by (intro exI [of _ "[(0, length rs)]"]) (auto simp: rs_def o'_def)
  next
    case False
    obtain ws where ws: "chain o' rs 0 ws" using chain_exists [OF ok hd0(1)] by blast
    note cov = chain_cover [OF ws ok]
    have "split_chunks body opts = Some (number_from 0 (texts_of rs ws))"
      using assms False ne [OF cov] split_loop_chain [OF ws, of 0 "[]"]
      by (simp add: split_chunks_def split_body_def Let_def rs_def o'_def)
    then show ?thesis using cov ne [OF cov] unfolding rs_def o'_def by blast
  qed
qed

lemma split_blank: "trim_space body = [] \<Longrightarrow> split_chunks body opts = Some [\<lparr>ck_index = 0, ck_text = []\<rparr>]"
  by (simp add: split_chunks_def Let_def)

lemma split_cases:
  obtains "trim_space body = []" "split_chunks body opts = Some [\<lparr>ck_index = 0, ck_text = []\<rparr>]"
  | ws where "trim_space body \<noteq> []" "window_cover (clamp_opts opts) (length (runes (trim_space body))) ws"
      "texts_of (runes (trim_space body)) ws \<noteq> []"
      "split_chunks body opts = Some (number_from 0 (texts_of (runes (trim_space body)) ws))"
  using split_blank split_result by blast

lemma list_all_number_from: "list_all (\<lambda>c. P (ck_text c)) (number_from i ts) = list_all P ts"
  by (induction ts arbitrary: i) auto

lemma list_ex_number_from: "list_ex (\<lambda>c. P (ck_text c)) (number_from i ts) = list_ex P ts"
  by (induction ts arbitrary: i) auto

lemma split_chunks_some: "\<exists>c cs. split_chunks body opts = Some (c # cs)"
  by (rule split_cases [of body opts]) (auto simp: neq_Nil_conv number_from_def)


section \<open>Properties\<close>

lemma texts_of_wf:
  assumes "window_cover opts (length rs) ws" "list_all valid_rune rs"
  shows "list_all (\<lambda>t. valid_utf8 t \<and> trim_space t = t \<and> count_runes t \<le> nat (max_chars opts)) (texts_of rs ws)"
proof -
  have "valid_utf8 (window_text rs a b) \<and> trim_space (window_text rs a b) = window_text rs a b
      \<and> count_runes (window_text rs a b) \<le> nat (max_chars opts)" if "(a, b) \<in> set ws" for a b
  proof -
    have b: "b \<le> length rs" "b - a \<le> nat (max_chars opts)"
      using assms(1) that by (auto simp: window_cover_def list_all_iff)
    have "count_runes (window_text rs a b) \<le> length (rslice a b rs)"
      using length_trim [of is_space "rslice a b rs"] assms(2) by (simp add: count_runes_def window_text_runes(2))
    also have "\<dots> \<le> nat (max_chars opts)" using b by (simp add: length_rslice)
    finally show ?thesis
      using assms(2) by (simp add: window_text_runes(1)) (simp add: window_text_def flip: window_text_runes(1))
  qed
  then show ?thesis by (auto simp: texts_of_def list_all_iff)
qed

text \<open>
  C24. \<open>Split\<close> ends for every body and every option set and returns chunks numbered from 0. A blank
  body gives one empty chunk. Otherwise the chunks are the texts, trimmed and without the empty
  ones, of windows over the body's runes that run from the first rune to the last without a gap,
  are at most \<open>MaxChars\<close> long and overlap their neighbour by exactly the clamped \<open>Overlap\<close>.
\<close>

theorem split_covers_body:
  "\<exists>cs. split_chunks body opts = Some cs \<and> cs \<noteq> [] \<and> map ck_index cs = [0..<length cs]
     \<and> (if trim_space body = [] then cs = [\<lparr>ck_index = 0, ck_text = []\<rparr>]
        else \<exists>ws. window_cover (clamp_opts opts) (length (runes (trim_space body))) ws
                \<and> map ck_text cs = texts_of (runes (trim_space body)) ws)"
  by (rule split_cases [of body opts]) (auto simp: map_ck_index_number_from)

text \<open>
  C25. Every chunk is valid UTF-8 whatever the bytes of the body, has no white space at its ends, and
  has at most \<open>MaxChars\<close> runes: no rune is ever cut in two.
\<close>

theorem split_chunks_bounded:
  "\<exists>cs. split_chunks body opts = Some cs
     \<and> list_all (\<lambda>c. valid_utf8 (ck_text c) \<and> trim_space (ck_text c) = ck_text c
                   \<and> int (count_runes (ck_text c)) \<le> max_chars (clamp_opts opts)) cs"
proof -
  let ?o = "clamp_opts opts"
  have m: "0 < max_chars ?o" using clamp_opts_ok [of opts] by (auto simp: opts_ok_def)
  show ?thesis
  proof (rule split_cases [of body opts])
    assume "split_chunks body opts = Some [\<lparr>ck_index = 0, ck_text = []\<rparr>]"
    then show ?thesis using m by (simp add: valid_utf8_def count_runes_def)
  next
    fix ws
    assume ws: "window_cover ?o (length (runes (trim_space body))) ws"
      and s: "split_chunks body opts = Some (number_from 0 (texts_of (runes (trim_space body)) ws))"
    have "list_all (\<lambda>t. valid_utf8 t \<and> trim_space t = t \<and> int (count_runes t) \<le> max_chars ?o)
        (texts_of (runes (trim_space body)) ws)"
      using texts_of_wf [OF ws runes_valid] m by (auto simp: list_all_iff nat_le_iff le_nat_iff)
    then show ?thesis using s list_all_number_from by fastforce
  qed
qed

text \<open>
  \<open>Split\<close> drops nothing but white space: every other rune of the body is a rune of some chunk.
\<close>

theorem split_keeps_runes:
  "\<exists>cs. split_chunks body opts = Some cs
     \<and> list_all (\<lambda>r. is_space r \<or> list_ex (\<lambda>c. r \<in> set (runes (ck_text c))) cs) (runes body)"
proof (rule split_cases [of body opts])
  assume b: "trim_space body = []" and s: "split_chunks body opts = Some [\<lparr>ck_index = 0, ck_text = []\<rparr>]"
  then have "list_all is_space (runes body)" by (metis runes_Nil_iff runes_trim_space trim_eq_Nil_iff)
  then show ?thesis using s by (auto simp: list_all_iff)
next
  fix ws
  let ?rs = "runes (trim_space body)"
  assume ws: "window_cover (clamp_opts opts) (length ?rs) ws"
    and s: "split_chunks body opts = Some (number_from 0 (texts_of ?rs ws))"
  have "\<exists>t \<in> set (texts_of ?rs ws). r \<in> set (runes t)" if r: "r \<in> set (runes body)" "\<not> is_space r" for r
  proof -
    have "r \<in> set ?rs" using trim_member [of r "runes body" is_space] r by (simp add: runes_trim_space)
    then obtain i where i: "i < length ?rs" "?rs ! i = r" by (auto simp: in_set_conv_nth)
    from window_cover_index [OF ws i(1)] obtain a b where ab: "(a, b) \<in> set ws" "a \<le> i" "i < b" by auto
    then have "b \<le> length ?rs" using ws by (auto simp: window_cover_def list_all_iff)
    then show ?thesis using texts_of_nonempty [OF runes_valid i(1) _ ab] i(2) r(2) by auto
  qed
  then have "list_all (\<lambda>r. is_space r \<or> list_ex (\<lambda>t. r \<in> set (runes t)) (texts_of ?rs ws)) (runes body)"
    by (auto simp: list_all_iff list_ex_iff)
  then have "list_all (\<lambda>r. is_space r \<or> list_ex (\<lambda>c. r \<in> set (runes (ck_text c)))
      (number_from 0 (texts_of ?rs ws))) (runes body)"
    by (simp only: list_ex_number_from [where P = "\<lambda>t. r \<in> set (runes t)" for r])
  with s show ?thesis by blast
qed

text \<open>
  A sentence end in the stretch between \<open>TargetChars\<close> and \<open>MaxChars\<close> is where the window stops:
  right after the first one and the blanks that follow it, as far as the hard limit allows.
\<close>

theorem prefer_boundary_sentence:
  assumes "target \<le> i" "i < hard_end" "hard_end \<le> length rs"
    and "ends_sentence (rs ! i)" "list_all (\<lambda>j. \<not> ends_sentence (rs ! j)) [target..<i]"
  shows "\<exists>b. prefer_boundary rs target hard_end = b \<and> i < b \<and> b \<le> hard_end
    \<and> list_all (\<lambda>j. is_blank (rs ! j)) [Suc i..<b] \<and> (b = hard_end \<or> \<not> is_blank (rs ! b))"
proof -
  have "find (\<lambda>j. ends_sentence (rs ! j)) [target..<hard_end] = Some i"
    unfolding find_Some_iff using assms by (intro exI [of _ "i - target"]) (auto simp: list_all_iff)
  then have b: "prefer_boundary rs target hard_end = skip_blank rs (Suc i) hard_end"
    using assms by (simp add: prefer_boundary_def)
  have stop: "skip_blank rs j hard_end = hard_end \<or> \<not> is_blank (rs ! skip_blank rs j hard_end)"
    if "j \<le> hard_end" for j
    using that
  proof (induction rs j hard_end rule: skip_blank.induct)
    case (1 rs j hard_end)
    then show ?case by (cases "j < hard_end \<and> is_blank (rs ! j)") (auto simp: skip_blank.simps [of rs j hard_end])
  qed
  show ?thesis
    using b assms(2) stop [of "Suc i"] skip_blank_bounds [of "Suc i" hard_end rs] skip_blank_skips [of "Suc i" _ rs hard_end]
    by (auto simp: list_all_iff)
qed

theorem prefer_boundary_sentence_witness:
  "\<exists>b. prefer_boundary [0x61, 0x62, 0x2E, 0x20, 0x20, 0x63] 1 6 = b \<and> 2 < b \<and> b \<le> 6
    \<and> list_all (\<lambda>j. is_blank ([0x61, 0x62, 0x2E, 0x20, 0x20, 0x63] ! j)) [Suc 2..<b]
    \<and> (b = 6 \<or> \<not> is_blank ([0x61, 0x62, 0x2E, 0x20, 0x20, 0x63] ! b))"
  by (rule prefer_boundary_sentence) (simp_all add: ends_sentence_def upt_rec)

text \<open>
  With \<open>Options{}\<close>, which the server and the indexer pass, \<open>Overlap\<close> stays 0 (\<open>DefaultOverlap\<close> is
  50 but no zero value falls back to it): neighbouring windows share no rune.
\<close>

theorem split_default_overlap:
  "overlap (clamp_opts zero_opts) = 0 \<and> default_overlap = 50
   \<and> (\<exists>cs. split_chunks body zero_opts = Some cs
        \<and> (if trim_space body = [] then cs = [\<lparr>ck_index = 0, ck_text = []\<rparr>]
           else \<exists>ws. window_cover (clamp_opts zero_opts) (length (runes (trim_space body))) ws
              \<and> successively (\<lambda>(a, b) (c, d). c = b) ws
              \<and> map ck_text cs = texts_of (runes (trim_space body)) ws))"
proof -
  have "successively (\<lambda>(a, b) (c, d). c = b) ws" if "window_cover (clamp_opts zero_opts) n ws" for n ws
    using that successively_mono [of "\<lambda>(a, b) (c, d). a < c \<and> c + nat (overlap (clamp_opts zero_opts)) = b" ws]
    by (auto simp: window_cover_def clamp_zero_opts)
  then show ?thesis
    by (intro conjI; (simp add: clamp_zero_opts default_overlap_def; fail)?)
      (rule split_cases [of body zero_opts]; fastforce)
qed

end
