(* ===== verification/Rrf.thy ===== *)
theory Rrf
  imports Float64 "HOL-Library.List_Lexorder"
begin

text \<open>
  \<open>internal/search/rrf.go\<close>: \<open>FuseRRF\<close>. The two maps the code ranges over are visited in an order
  Go leaves open, so that order is an argument of the model: \<open>ls\<close> is the map of ranked lists in
  the order its entries are visited, and \<open>shuffle\<close> the order in which the accumulated entries
  come out of \<open>scores\<close>. The lemmas compute the accumulated entry of every id, and show that the
  comparison is a strict weak order on the entries that can arise, so that the result is the same
  for every order.
\<close>

section \<open>Data\<close>

record hit =
  h_id :: gostring
  h_score :: f64

record fused =
  fu_id :: gostring
  rrf_score :: f64
  per_signal :: "gostring \<rightharpoonup> f64"

definition default_rrf_k :: int where
  "default_rrf_k = 60"

section \<open>Accumulation\<close>

text \<open>A fresh entry, and the loop body applied to the entry of a hit.\<close>

definition new_fused :: "gostring \<Rightarrow> fused" where
  "new_fused i = \<lparr>fu_id = i, rrf_score = Fin 0, per_signal = Map.empty\<rparr>"

text \<open>
  A Go \<open>int\<close> is 64 bits wide: the rank is added to the caller's \<open>k\<close> modulo \<open>2 ^ 64\<close>. The lemmas
  that need the sum not to wrap around say so (\<open>fits\<close>).
\<close>

definition int64 :: "int \<Rightarrow> int" where
  "int64 z = (z + 2 ^ 63) mod 2 ^ 64 - 2 ^ 63"

definition rrf_term :: "int \<Rightarrow> nat \<Rightarrow> f64" where
  "rrf_term k rank = f64_div (Fin 1) (f64_of_int (int64 (k + int rank + 1)))"

definition bump :: "int \<Rightarrow> gostring \<Rightarrow> nat \<Rightarrow> hit \<Rightarrow> fused \<Rightarrow> fused" where
  "bump k signal rank h f =
     (let f = f\<lparr>rrf_score := f64_add (rrf_score f) (rrf_term k rank)\<rparr>
      in case per_signal f signal of
           None \<Rightarrow> f\<lparr>per_signal := (per_signal f)(signal \<mapsto> h_score h)\<rparr>
         | Some cur \<Rightarrow>
             if f64_lt cur (h_score h) then f\<lparr>per_signal := (per_signal f)(signal \<mapsto> h_score h)\<rparr> else f)"

text \<open>The map \<open>scores\<close> as a list of entries with different ids.\<close>

fun add_hit :: "int \<Rightarrow> gostring \<Rightarrow> nat \<Rightarrow> hit \<Rightarrow> fused list \<Rightarrow> fused list" where
  "add_hit k signal rank h [] = [bump k signal rank h (new_fused (h_id h))]"
| "add_hit k signal rank h (f # fs) =
     (if fu_id f = h_id h then bump k signal rank h f # fs else f # add_hit k signal rank h fs)"

fun add_hits :: "int \<Rightarrow> gostring \<Rightarrow> nat \<Rightarrow> hit list \<Rightarrow> fused list \<Rightarrow> fused list" where
  "add_hits k signal rank [] scores = scores"
| "add_hits k signal rank (h # hs) scores =
     add_hits k signal (Suc rank) hs (add_hit k signal rank h scores)"

fun add_lists :: "int \<Rightarrow> (gostring \<times> hit list) list \<Rightarrow> fused list \<Rightarrow> fused list" where
  "add_lists k [] scores = scores"
| "add_lists k ((signal, hits) # rest) scores = add_lists k rest (add_hits k signal 0 hits scores)"

section \<open>Ordering and the result\<close>

definition fused_less :: "fused \<Rightarrow> fused \<Rightarrow> bool" where
  "fused_less a b =
     (if \<not> f64_eq (rrf_score a) (rrf_score b) then f64_lt (rrf_score b) (rrf_score a)
      else fu_id a < fu_id b)"

definition norm_k :: "int \<Rightarrow> int" where
  "norm_k k = (if k \<le> 0 then default_rrf_k else k)"

definition norm_top_n :: "int \<Rightarrow> int" where
  "norm_top_n n = (if n \<le> 0 then 10 else n)"

definition fuse_rrf ::
  "(fused list \<Rightarrow> fused list) \<Rightarrow> int \<Rightarrow> int \<Rightarrow> (gostring \<times> hit list) list \<Rightarrow> fused list" where
  "fuse_rrf shuffle k top_n ls =
     (let k = norm_k k;
          top_n = norm_top_n top_n;
          out = sort_by fused_less (shuffle (add_lists k ls []))
      in if top_n < int (length out) then take (nat top_n) out else out)"

section \<open>The accumulated entry of an id\<close>

definition entry :: "fused list \<Rightarrow> gostring \<Rightarrow> fused option" where
  "entry fs i = find (\<lambda>f. fu_id f = i) fs"

definition entry_or_new :: "fused list \<Rightarrow> gostring \<Rightarrow> fused" where
  "entry_or_new fs i = (case entry fs i of Some f \<Rightarrow> f | None \<Rightarrow> new_fused i)"

lemma fu_id_bump [simp]: "fu_id (bump k s r h f) = fu_id f"
  by (simp add: bump_def Let_def split: option.split)

lemma rrf_score_bump [simp]:
  "rrf_score (bump k s r h f) = f64_add (rrf_score f) (rrf_term k r)"
  by (simp add: bump_def Let_def split: option.split)

lemma per_signal_bump:
  "per_signal (bump k s r h f) = (per_signal f)(s \<mapsto>
     (case per_signal f s of None \<Rightarrow> h_score h
      | Some cur \<Rightarrow> if f64_lt cur (h_score h) then h_score h else cur))"
  by (auto simp: bump_def Let_def fun_upd_idem split: option.split)

lemma entry_simps [simp]:
  "entry [] i = None"
  "entry (f # fs) i = (if fu_id f = i then Some f else entry fs i)"
  by (simp_all add: entry_def)

lemma fu_id_entry: "entry fs i = Some f \<Longrightarrow> fu_id f = i \<and> f \<in> set fs"
  by (induction fs) (auto split: if_splits)

lemma entry_None_iff: "entry fs i = None \<longleftrightarrow> i \<notin> fu_id ` set fs"
  by (induction fs) auto

lemma fu_id_entry_or_new [simp]: "fu_id (entry_or_new fs i) = i"
  by (auto simp: entry_or_new_def new_fused_def dest: fu_id_entry split: option.split)

lemma entry_add_hit:
  "entry (add_hit k s r h fs) i
     = (if i = h_id h then Some (bump k s r h (entry_or_new fs i)) else entry fs i)"
  by (induction fs) (auto simp: entry_or_new_def new_fused_def)

lemma ids_add_hit: "fu_id ` set (add_hit k s r h fs) = insert (h_id h) (fu_id ` set fs)"
  by (induction fs) (auto simp: new_fused_def)

lemma distinct_add_hit: "distinct (map fu_id fs) \<Longrightarrow> distinct (map fu_id (add_hit k s r h fs))"
  by (induction fs) (auto simp: new_fused_def ids_add_hit)

lemma ids_add_hits: "fu_id ` set (add_hits k s r hs fs) = h_id ` set hs \<union> fu_id ` set fs"
  by (induction k s r hs fs rule: add_hits.induct) (auto simp: ids_add_hit)

lemma distinct_add_hits: "distinct (map fu_id fs) \<Longrightarrow> distinct (map fu_id (add_hits k s r hs fs))"
  by (induction k s r hs fs rule: add_hits.induct) (auto simp: distinct_add_hit)

lemma ids_add_lists:
  "fu_id ` set (add_lists k ls fs) = (\<Union>(s, hs) \<in> set ls. h_id ` set hs) \<union> fu_id ` set fs"
  by (induction k ls fs rule: add_lists.induct) (auto simp: ids_add_hits)

lemma distinct_add_lists: "distinct (map fu_id fs) \<Longrightarrow> distinct (map fu_id (add_lists k ls fs))"
  by (induction k ls fs rule: add_lists.induct) (auto simp: distinct_add_hits)

text \<open>Position of an id in a ranked list without duplicates.\<close>

fun rank_of :: "gostring \<Rightarrow> hit list \<Rightarrow> nat option" where
  "rank_of i [] = None"
| "rank_of i (h # hs) = (if h_id h = i then Some 0 else map_option Suc (rank_of i hs))"

lemma rank_of_None_iff: "rank_of i hs = None \<longleftrightarrow> i \<notin> h_id ` set hs"
  by (induction hs) auto

lemma rank_of_Some: "rank_of i hs = Some r \<Longrightarrow> r < length hs \<and> h_id (hs ! r) = i"
  by (induction hs arbitrary: r) (auto split: if_splits)

lemma rank_of_nth: "distinct (map h_id hs) \<Longrightarrow> r < length hs \<Longrightarrow> rank_of (h_id (hs ! r)) hs = Some r"
proof (induction hs arbitrary: r)
  case (Cons h hs)
  then show ?case by (cases r) (auto simp: image_iff)
qed simp

lemma entry_add_hits_notin: "i \<notin> h_id ` set hs \<Longrightarrow> entry (add_hits k s r hs fs) i = entry fs i"
  by (induction k s r hs fs rule: add_hits.induct) (auto simp: entry_add_hit)

lemma entry_add_hits:
  "distinct (map h_id hs) \<Longrightarrow>
     entry (add_hits k s r hs fs) i =
       (case rank_of i hs of None \<Rightarrow> entry fs i
        | Some j \<Rightarrow> Some (bump k s (r + j) (hs ! j) (entry_or_new fs i)))"
proof (induction k s r hs fs rule: add_hits.induct)
  case (2 k s r h hs fs)
  show ?case
  proof (cases "h_id h = i")
    case True
    with 2 have "i \<notin> h_id ` set hs" by auto
    with True show ?thesis by (simp add: entry_add_hits_notin entry_add_hit)
  next
    case False
    with 2 show ?thesis by (auto simp: entry_add_hit entry_or_new_def split: option.split)
  qed
qed simp

text \<open>Entries that can arise: their score is not negative, hence comparable.\<close>

definition score_ok :: "fused \<Rightarrow> bool" where
  "score_ok f \<longleftrightarrow> nonneg_f64 (rrf_score f)"

lemma int64_id: "- (2 ^ 63) \<le> z \<Longrightarrow> z < 2 ^ 63 \<Longrightarrow> int64 z = z"
  by (simp add: int64_def)

lemma rrf_term_eq: "1 \<le> k \<Longrightarrow> k + int r + 1 < 2 ^ 63 \<Longrightarrow> rrf_term k r = f64_recip (k + int r + 1)"
  by (simp add: rrf_term_def f64_recip_def int64_id)

definition fits :: "int \<Rightarrow> (gostring \<times> hit list) list \<Rightarrow> bool" where
  "fits k ls \<longleftrightarrow> 1 \<le> k \<and> list_all (\<lambda>(s, hs). k + int (length hs) < 2 ^ 63) ls"

lemma nonneg_rrf_term: "1 \<le> k \<Longrightarrow> k + int r + 1 < 2 ^ 63 \<Longrightarrow> nonneg_f64 (rrf_term k r)"
  by (simp add: rrf_term_eq nonneg_f64_recip)

lemma score_ok_bump:
  "1 \<le> k \<Longrightarrow> k + int r + 1 < 2 ^ 63 \<Longrightarrow> score_ok f \<Longrightarrow> score_ok (bump k s r h f)"
  by (simp add: score_ok_def nonneg_f64_add nonneg_rrf_term)

lemma score_ok_add_hit:
  "1 \<le> k \<Longrightarrow> k + int r + 1 < 2 ^ 63 \<Longrightarrow> list_all score_ok fs \<Longrightarrow> list_all score_ok (add_hit k s r h fs)"
  by (induction fs)
     (auto simp: score_ok_bump, simp add: score_ok_def new_fused_def nonneg_f64_add nonneg_rrf_term)

lemma score_ok_add_hits:
  "1 \<le> k \<Longrightarrow> k + int r + int (length hs) < 2 ^ 63 \<Longrightarrow> list_all score_ok fs \<Longrightarrow>
     list_all score_ok (add_hits k s r hs fs)"
  by (induction k s r hs fs rule: add_hits.induct) (auto simp: score_ok_add_hit algebra_simps)

lemma score_ok_add_lists:
  "fits k ls \<Longrightarrow> list_all score_ok fs \<Longrightarrow> list_all score_ok (add_lists k ls fs)"
  by (induction k ls fs rule: add_lists.induct) (auto simp: score_ok_add_hits fits_def)

section \<open>The comparison is a strict weak order\<close>

interpretation rrf: weak_order fused_less "{f. score_ok f}"
proof
  fix a b
  assume "a \<in> {f. score_ok f}" "b \<in> {f. score_ok f}" "fused_less a b"
  then show "\<not> fused_less b a"
    by (auto simp: fused_less_def f64_eq_def score_ok_def dest: f64_lt_asym nonneg_f64_not_NaN split: if_splits)
next
  fix a b c
  assume S: "a \<in> {f. score_ok f}" "b \<in> {f. score_ok f}" "c \<in> {f. score_ok f}" and l: "fused_less a c"
  then have n: "rrf_score a \<noteq> NaN" "rrf_score b \<noteq> NaN" "rrf_score c \<noteq> NaN"
    by (auto simp: score_ok_def nonneg_f64_def)
  show "fused_less a b \<or> fused_less b c"
  proof (cases "rrf_score a = rrf_score c")
    case True
    with l n have "fu_id a < fu_id c" by (simp add: fused_less_def f64_eq_def)
    with True n show ?thesis
      using f64_lt_linear [of "rrf_score b" "rrf_score c"] by (auto simp: fused_less_def f64_eq_def)
  next
    case False
    with l n have "f64_lt (rrf_score c) (rrf_score a)" by (simp add: fused_less_def f64_eq_def)
    then show ?thesis
      using n f64_lt_neg_trans [of "rrf_score b" "rrf_score c" "rrf_score a"]
      by (auto simp: fused_less_def f64_eq_def)
  qed
qed

lemma fused_less_total:
  "score_ok a \<Longrightarrow> score_ok b \<Longrightarrow> fu_id a \<noteq> fu_id b \<Longrightarrow> fused_less a b \<or> fused_less b a"
  using f64_lt_linear [of "rrf_score a" "rrf_score b"]
  by (auto simp: fused_less_def f64_eq_def score_ok_def nonneg_f64_def)


section \<open>The sorted entries\<close>

lemma norm_k_pos [simp]: "1 \<le> norm_k k"
  by (simp add: norm_k_def default_rrf_k_def)

lemma norm_top_n_pos [simp]: "0 < norm_top_n n"
  by (simp add: norm_top_n_def)

lemma fuse_rrf_take:
  "fuse_rrf shuffle k n ls = take (nat (norm_top_n n)) (sort_by fused_less (shuffle (add_lists (norm_k k) ls [])))"
proof -
  have "0 < norm_top_n n" by simp
  then show ?thesis by (auto simp: fuse_rrf_def Let_def)
qed

lemma entries_distinct: "distinct (map fu_id (add_lists k ls []))"
  by (auto intro: distinct_add_lists)

lemma entries_ok: "fits k ls \<Longrightarrow> list_all score_ok (add_lists k ls [])"
  by (auto intro: score_ok_add_lists)

lemma fused_less_total_on:
  assumes "distinct (map fu_id fs)" "list_all score_ok fs" "a \<in> set fs" "b \<in> set fs" "a \<noteq> b"
  shows "fused_less a b \<or> fused_less b a"
proof -
  have "fu_id a \<noteq> fu_id b" using assms by (metis distinct_map inj_onD)
  then show ?thesis using assms fused_less_total by (auto simp: list_all_iff)
qed

lemma sort_fused_perm:
  assumes "distinct (map fu_id fs)" "list_all score_ok fs" "mset gs = mset fs"
  shows "sort_by fused_less gs = sort_by fused_less fs"
proof (rule rrf.sort_by_perm)
  show "set fs \<subseteq> {f. score_ok f}" using assms(2) by (auto simp: list_all_iff)
  show "fused_less a b \<or> fused_less b a" if "a \<in> set fs" "b \<in> set fs" "a \<noteq> b" for a b
    using fused_less_total_on [OF assms(1,2) that] .
qed (rule assms(3))

lemma entry_mem: "distinct (map fu_id fs) \<Longrightarrow> f \<in> set fs \<longleftrightarrow> entry fs (fu_id f) = Some f"
  by (induction fs) (auto dest: fu_id_entry)

lemma mset_entries_eqI:
  assumes "distinct (map fu_id xs)" "distinct (map fu_id ys)" "\<And>i. entry xs i = entry ys i"
  shows "mset xs = mset ys"
proof -
  have "set xs = set ys"
  proof (rule set_eqI)
    show "f \<in> set xs \<longleftrightarrow> f \<in> set ys" for f
      using entry_mem [OF assms(1), of f] entry_mem [OF assms(2), of f] assms(3) [of "fu_id f"] by simp
  qed
  then show ?thesis
    using assms(1,2) by (intro iffD1 [OF set_eq_iff_mset_eq_distinct]) (auto simp: distinct_map)
qed

text \<open>The score of an id: its reciprocal ranks, added up in the order the lists are visited.\<close>

definition ranked :: "(gostring \<times> hit list) list \<Rightarrow> bool" where
  "ranked ls \<longleftrightarrow> distinct (map fst ls) \<and> list_all (\<lambda>(s, hs). distinct (map h_id hs)) ls"

fun contribs :: "int \<Rightarrow> gostring \<Rightarrow> (gostring \<times> hit list) list \<Rightarrow> f64 list" where
  "contribs k i [] = []"
| "contribs k i ((s, hs) # ls) =
     (case rank_of i hs of None \<Rightarrow> [] | Some r \<Rightarrow> [rrf_term k r]) @ contribs k i ls"

definition raw_score :: "(gostring \<times> hit list) list \<Rightarrow> gostring \<Rightarrow> gostring \<Rightarrow> f64 option" where
  "raw_score ls i s =
     Option.bind (map_of ls s) (\<lambda>hs. map_option (\<lambda>r. h_score (hs ! r)) (rank_of i hs))"

lemma entry_or_new_add_hits:
  assumes "distinct (map h_id hs)"
  shows "entry_or_new (add_hits k s r hs fs) i =
    (case rank_of i hs of None \<Rightarrow> entry_or_new fs i
     | Some j \<Rightarrow> bump k s (r + j) (hs ! j) (entry_or_new fs i))"
  using entry_add_hits [OF assms] by (auto simp: entry_or_new_def split: option.split)

lemma score_add_lists:
  "list_all (\<lambda>(s, hs). distinct (map h_id hs)) ls \<Longrightarrow>
     rrf_score (entry_or_new (add_lists k ls fs) i) = foldl f64_add (rrf_score (entry_or_new fs i)) (contribs k i ls)"
  by (induction k ls fs rule: add_lists.induct) (auto simp: entry_or_new_add_hits split: option.split)

lemma signals_add_lists:
  "ranked ls \<Longrightarrow> per_signal (entry_or_new fs i) s = None \<or> map_of ls s = None \<Longrightarrow>
     per_signal (entry_or_new (add_lists k ls fs) i) s =
       (case map_of ls s of None \<Rightarrow> per_signal (entry_or_new fs i) s | Some _ \<Rightarrow> raw_score ls i s)"
proof (induction k ls fs rule: add_lists.induct)
  case (2 k t hs rest fs)
  have d: "distinct (map h_id hs)" and r: "ranked rest" and t: "map_of rest t = None"
    using "2.prems"(1) by (auto simp: ranked_def map_of_eq_None_iff)
  have p: "per_signal (entry_or_new (add_hits k t 0 hs fs) i) s =
      (if s = t then (case rank_of i hs of None \<Rightarrow> per_signal (entry_or_new fs i) s
                      | Some j \<Rightarrow> per_signal (bump k t j (hs ! j) (entry_or_new fs i)) s)
       else per_signal (entry_or_new fs i) s)"
    by (auto simp: entry_or_new_add_hits [OF d] per_signal_bump split: option.split)
  show ?case
  proof (cases "s = t")
    case True
    with 2 t r p show ?thesis
      by (auto simp: raw_score_def per_signal_bump split: option.split)
  next
    case False
    with 2 r p show ?thesis by (auto simp: raw_score_def split: option.split)
  qed
qed simp

text \<open>Every entry is determined by its id.\<close>

lemma fused_entry:
  assumes "ranked ls" "f \<in> set (add_lists k ls [])"
  shows "rrf_score f = foldl f64_add (Fin 0) (contribs k (fu_id f) ls)"
    and "per_signal f = raw_score ls (fu_id f)"
proof -
  have "distinct (map fu_id (add_lists k ls []))" by (intro distinct_add_lists) simp
  then have "entry (add_lists k ls []) (fu_id f) = Some f"
    using assms(2) entry_mem by blast
  then have f: "f = entry_or_new (add_lists k ls []) (fu_id f)" by (simp add: entry_or_new_def)
  have n: "entry_or_new [] i = new_fused i" for i by (simp add: entry_or_new_def)
  have d: "list_all (\<lambda>(s, hs). distinct (map h_id hs)) ls" using assms(1) by (simp add: ranked_def)
  show "rrf_score f = foldl f64_add (Fin 0) (contribs k (fu_id f) ls)"
    by (subst f) (simp add: score_add_lists [OF d] n new_fused_def)
  show "per_signal f = raw_score ls (fu_id f)"
  proof
    fix s
    have "per_signal f s = (case map_of ls s of None \<Rightarrow> None | Some _ \<Rightarrow> raw_score ls (fu_id f) s)"
      by (subst f) (simp add: signals_add_lists [OF assms(1)] n new_fused_def split: option.split)
    then show "per_signal f s = raw_score ls (fu_id f) s"
      by (simp add: raw_score_def split: option.splits)
  qed
qed


section \<open>Properties\<close>

lemma fuse_rrf_sorted_entries:
  assumes "fits (norm_k k) ls" "reorders sh"
  shows "fuse_rrf sh k n ls = take (nat (norm_top_n n)) (sort_by fused_less (add_lists (norm_k k) ls []))"
proof -
  have "mset (sh (add_lists (norm_k k) ls [])) = mset (add_lists (norm_k k) ls [])"
    using assms(2) by (simp add: reorders_def)
  from sort_fused_perm [OF entries_distinct entries_ok [OF assms(1)] this]
  show ?thesis by (simp only: fuse_rrf_take)
qed

lemma mset_fuse_set: "set (fuse_rrf sh k n ls) \<subseteq> set (sh (add_lists (norm_k k) ls []))"
  by (metis fuse_rrf_take set_sort_by set_take_subset)

lemma fuse_rrf_mem:
  assumes "reorders sh" "f \<in> set (fuse_rrf sh k n ls)"
  shows "f \<in> set (add_lists (norm_k k) ls [])"
proof -
  have "set (sh (add_lists (norm_k k) ls [])) = set (add_lists (norm_k k) ls [])"
    using assms(1) unfolding reorders_def by (metis set_mset_mset)
  then show ?thesis using assms(2) mset_fuse_set by blast
qed

lemma entry_of_new:
  "entry fs i = (if i \<in> fu_id ` set fs then Some (entry_or_new fs i) else None)"
  using entry_None_iff [of fs i] by (auto simp: entry_or_new_def split: option.split)

lemma fused_eqI: "fu_id a = fu_id b \<Longrightarrow> rrf_score a = rrf_score b \<Longrightarrow> per_signal a = per_signal b \<Longrightarrow> a = (b :: fused)"
  by simp

lemma rrf_term_zero_add:
  "1 \<le> k \<Longrightarrow> k + int r + 1 < 2 ^ 63 \<Longrightarrow> f64_add (Fin 0) (rrf_term k r) = rrf_term k r"
  by (simp add: rrf_term_eq f64_add_zero_recip)

lemma rank_fits: "k + int (length hs) < 2 ^ 63 \<Longrightarrow> rank_of i hs = Some r \<Longrightarrow> k + int r + 1 < 2 ^ 63"
  by (drule rank_of_Some) simp

lemma score_swap:
  assumes "fits k [x, y]"
  shows "foldl f64_add (Fin 0) (contribs k i [x, y]) = foldl f64_add (Fin 0) (contribs k i [y, x])"
proof -
  obtain s hs t gs where xy: "x = (s, hs)" "y = (t, gs)" by (cases x, cases y)
  show ?thesis
    using assms rank_fits [of k hs i] rank_fits [of k gs i]
    by (auto simp: xy fits_def rrf_term_zero_add f64_add_commute split: option.split)
qed

lemma two_lists_perm:
  assumes "length ls \<le> 2" "mset ms = mset ls"
  obtains "ms = ls" | x y where "ls = [x, y]" "ms = [y, x]"
proof -
  have l: "length ms = length ls" using assms(2) by (metis size_mset)
  consider "ls = []" | x where "ls = [x]" | x y where "ls = [x, y]"
    using assms(1) by (cases ls rule: remdups_adj.cases) auto
  then show thesis
  proof cases
    case (3 x y)
    with l obtain u v where ms: "ms = [u, v]" by (auto simp: length_Suc_conv)
    with 3 assms(2) have "(u, v) = (x, y) \<or> (u, v) = (y, x)"
      by (auto simp: add_eq_conv_ex)
    with 3 ms that show thesis by auto
  qed (use assms(2) that in auto)
qed

lemma entries_swap:
  assumes "ranked [x, y]" "fits k [x, y]"
  shows "mset (add_lists k [y, x] []) = mset (add_lists k [x, y] [])"
proof (rule mset_entries_eqI [OF entries_distinct entries_distinct])
  fix i
  let ?f = "entry_or_new (add_lists k [y, x] []) i" and ?g = "entry_or_new (add_lists k [x, y] []) i"
  have r: "ranked [y, x]" using assms(1) by (auto simp: ranked_def)
  have ids: "fu_id ` set (add_lists k [y, x] []) = fu_id ` set (add_lists k [x, y] [])"
    by (simp only: ids_add_lists) auto
  have d: "list_all (\<lambda>(s, hs). distinct (map h_id hs)) [x, y]"
    "list_all (\<lambda>(s, hs). distinct (map h_id hs)) [y, x]"
    using assms(1) by (auto simp: ranked_def)
  have n: "entry_or_new [] i = new_fused i" by (simp add: entry_or_new_def)
  have "?f = ?g"
  proof (rule fused_eqI)
    show "rrf_score ?f = rrf_score ?g"
      by (simp only: score_add_lists [OF d(1)] score_add_lists [OF d(2)] n new_fused_def
          fused.select_convs score_swap [OF assms(2)])
    have "map_of [y, x] s = map_of [x, y] s" for s
      using assms(1) by (cases x, cases y) (auto simp: ranked_def)
    then show "per_signal ?f = per_signal ?g"
      by (intro ext) (simp add: signals_add_lists [OF r] signals_add_lists [OF assms(1)] n
          new_fused_def raw_score_def del: add_lists.simps map_of.simps split: option.split)
  qed simp
  then show "entry (add_lists k [y, x] []) i = entry (add_lists k [x, y] []) i"
    by (simp only: entry_of_new ids)
qed

lemma fuse_rrf_any_order:
  assumes "ranked ls" "length ls \<le> 2" "fits (norm_k k) ls" "mset ms = mset ls" "reorders sh" "reorders sh'"
  shows "fuse_rrf sh k n ls = fuse_rrf sh' k n ms"
proof -
  have m: "mset (add_lists (norm_k k) ms []) = mset (add_lists (norm_k k) ls [])"
    using two_lists_perm [OF assms(2,4)] by cases (use assms entries_swap in auto)
  have "fits (norm_k k) ms"
    using assms(3,4) unfolding fits_def by (metis list_all_iff set_mset_mset)
  then show ?thesis
    using sort_fused_perm [OF entries_distinct entries_ok [OF assms(3)] m] assms(3,5,6)
    by (simp add: fuse_rrf_sorted_entries)
qed

text \<open>The fused ranking does not depend on the order in which Go ranges over its maps: for the
  two retrieval signals (or fewer), each a list of different ids, every visiting order of the lists
  and of the accumulated entries gives the same slice.\<close>

theorem fuse_rrf_deterministic:
  assumes "ranked ls" "length ls \<le> 2" "fits (norm_k k) ls" "mset ms = mset ls" "reorders sh" "reorders sh'"
  shows "fuse_rrf sh k n ls = fuse_rrf sh' k n ms"
  by (rule fuse_rrf_any_order [OF assms])

definition ex_lists :: "(gostring \<times> hit list) list" where
  "ex_lists = [(str ''bm25'', [\<lparr>h_id = str ''a'', h_score = Fin 7\<rparr>, \<lparr>h_id = str ''b'', h_score = Fin 5\<rparr>]),
               (str ''vector'', [\<lparr>h_id = str ''b'', h_score = Fin 1\<rparr>])]"

lemma ex_lists_ok [simp]: "ranked ex_lists" "length ex_lists \<le> 2" "fits (norm_k 60) ex_lists"
  by (simp_all add: ex_lists_def ranked_def fits_def norm_k_def)

theorem fuse_rrf_deterministic_witness:
  "fuse_rrf (\<lambda>xs. xs) 60 10 ex_lists = fuse_rrf rev 60 10 (rev ex_lists)"
  by (rule fuse_rrf_deterministic) simp_all

lemma fuse_rrf_facts:
  assumes "fits (norm_k k) ls" "reorders sh"
  shows "distinct (map fu_id (fuse_rrf sh k n ls))" "int (length (fuse_rrf sh k n ls)) \<le> norm_top_n n"
    "fu_id ` set (fuse_rrf sh k n ls) \<subseteq> (\<Union>(s, hs) \<in> set ls. h_id ` set hs)"
proof -
  let ?s = "sort_by fused_less (add_lists (norm_k k) ls [])"
  have "distinct (map fu_id ?s)"
    using entries_distinct [of "norm_k k" ls] by (metis mset_map mset_eq_imp_distinct_iff mset_sort_by)
  then show "distinct (map fu_id (fuse_rrf sh k n ls))"
    by (simp add: fuse_rrf_sorted_entries [OF assms] take_map [symmetric])
  show "int (length (fuse_rrf sh k n ls)) \<le> norm_top_n n"
  proof -
    have "length (fuse_rrf sh k n ls) \<le> nat (norm_top_n n)" by (simp add: fuse_rrf_sorted_entries [OF assms])
    then show ?thesis using norm_top_n_pos [of n] by linarith
  qed
  have "set (fuse_rrf sh k n ls) \<subseteq> set (add_lists (norm_k k) ls [])"
    using set_take_subset [of _ ?s] by (simp add: fuse_rrf_sorted_entries [OF assms])
  then have "fu_id ` set (fuse_rrf sh k n ls) \<subseteq> fu_id ` set (add_lists (norm_k k) ls [])" by (rule image_mono)
  then show "fu_id ` set (fuse_rrf sh k n ls) \<subseteq> (\<Union>(s, hs) \<in> set ls. h_id ` set hs)"
    by (simp only: ids_add_lists list.set image_empty Un_empty_right)
qed

text \<open>The result is the top of the accumulated entries: together with some rest it holds exactly
  one entry for every id of the lists, in strictly descending order of score with ties broken by
  ascending id, and it is as long as the limit allows.\<close>

theorem fuse_rrf_top:
  assumes "fits (norm_k k) ls" "reorders sh"
  shows "\<exists>rest. distinct (map fu_id (fuse_rrf sh k n ls @ rest))
    \<and> fu_id ` set (fuse_rrf sh k n ls @ rest) = (\<Union>(s, hs) \<in> set ls. h_id ` set hs)
    \<and> sorted_wrt fused_less (fuse_rrf sh k n ls @ rest)
    \<and> length (fuse_rrf sh k n ls) = min (nat (norm_top_n n)) (length (fuse_rrf sh k n ls @ rest))"
proof -
  let ?es = "add_lists (norm_k k) ls []" and ?m = "nat (norm_top_n n)"
  let ?s = "sort_by fused_less ?es"
  have ok: "set ?es \<subseteq> {f. score_ok f}" using entries_ok [OF assms(1)] by (auto simp: list_all_iff)
  have d: "distinct (map fu_id ?s)"
    using entries_distinct [of "norm_k k" ls]
    by (metis mset_map mset_eq_imp_distinct_iff mset_sort_by)
  have "sorted_wrt (\<lambda>a b. \<not> fused_less b a) ?s" using rrf.sorted_sort_by [OF ok] .
  then have srt: "sorted_wrt fused_less ?s"
  proof (rule sorted_wrt_strictI)
    show "distinct ?s" using d by (simp add: distinct_map)
    show "fused_less a b \<or> fused_less b a" if "a \<in> set ?s" "b \<in> set ?s" "a \<noteq> b" for a b
      using fused_less_total_on [OF entries_distinct entries_ok [OF assms(1)], of a b] that by simp
  qed
  show ?thesis
    unfolding fuse_rrf_sorted_entries [OF assms]
    by (rule exI [of _ "drop ?m ?s"]) (use d srt in \<open>simp add: ids_add_lists\<close>)
qed

theorem fuse_rrf_top_witness:
  "\<exists>rest. distinct (map fu_id (fuse_rrf rev 60 1 ex_lists @ rest))
    \<and> fu_id ` set (fuse_rrf rev 60 1 ex_lists @ rest) = (\<Union>(s, hs) \<in> set ex_lists. h_id ` set hs)
    \<and> sorted_wrt fused_less (fuse_rrf rev 60 1 ex_lists @ rest)
    \<and> length (fuse_rrf rev 60 1 ex_lists)
        = min (nat (norm_top_n 1)) (length (fuse_rrf rev 60 1 ex_lists @ rest))"
  by (rule fuse_rrf_top) simp_all

text \<open>Every entry of the result carries the sum of its reciprocal ranks, \<open>1 / (k + rank + 1)\<close> for
  every list the id appears in, and for every signal the raw score the retriever gave it.\<close>

theorem fuse_rrf_scores:
  assumes "ranked ls" "reorders sh" "f \<in> set (fuse_rrf sh k n ls)"
  shows "rrf_score f = foldl f64_add (Fin 0) (contribs (norm_k k) (fu_id f) ls)
       \<and> per_signal f = raw_score ls (fu_id f)"
  using fused_entry [OF assms(1) fuse_rrf_mem [OF assms(2,3)]] by simp

theorem fuse_rrf_scores_witness:
  "\<exists>f \<in> set (fuse_rrf rev 60 1 ex_lists).
     rrf_score f = foldl f64_add (Fin 0) (contribs (norm_k 60) (fu_id f) ex_lists)
     \<and> per_signal f = raw_score ex_lists (fu_id f)"
proof -
  have "fuse_rrf rev 60 1 ex_lists \<noteq> []"
    by (simp add: fuse_rrf_def norm_top_n_def norm_k_def ex_lists_def)
  then obtain f where "f \<in> set (fuse_rrf rev 60 1 ex_lists)" by (meson last_in_set)
  with fuse_rrf_scores [OF ex_lists_ok(1) reorders_id(2) this] show ?thesis by blast
qed

text \<open>The order of one ranked list survives the fusion.\<close>

lemma contribs_mono_len: "length (contribs k i ls) \<le> length ls"
  by (induction k i ls rule: contribs.induct) (auto split: option.split)

lemma add_hits_fresh:
  "distinct (map h_id hs) \<Longrightarrow> h_id ` set hs \<inter> fu_id ` set fs = {} \<Longrightarrow>
     map fu_id (add_hits k s r hs fs) = map fu_id fs @ map h_id hs"
proof (induction k s r hs fs rule: add_hits.induct)
  case (2 k s r h hs fs)
  have "map fu_id (add_hit k s r h fs) = map fu_id fs @ [h_id h]"
    using 2(3) by (induction fs) (auto simp: new_fused_def)
  moreover have "h_id ` set hs \<inter> fu_id ` set (add_hit k s r h fs) = {}"
    using 2(2,3) by (auto simp: ids_add_hit)
  ultimately show ?case using 2 by simp
qed simp

lemma f64_lt_recip:
  assumes "1 \<le> m" "m < n" "n \<le> 2 ^ 50"
  shows "f64_lt (f64_recip n) (f64_recip m)"
  using recip_strict_antimono [of m n] assms by (simp add: f64_recip_eq)


lemma score_single:
  assumes "distinct (map h_id hs)" "r < length hs" "1 \<le> k" "k + int (length hs) < 2 ^ 63"
    "f \<in> set (add_lists k [(s, hs)] [])" "fu_id f = h_id (hs ! r)"
  shows "rrf_score f = f64_recip (k + int r + 1)"
proof -
  have "ranked [(s, hs)]" using assms(1) by (simp add: ranked_def)
  from fused_entry(1) [OF this assms(5)]
  have "rrf_score f = foldl f64_add (Fin 0) (contribs k (h_id (hs ! r)) [(s, hs)])" by (simp only: assms(6))
  also have "\<dots> = f64_add (Fin 0) (rrf_term k r)"
    using rank_of_nth [OF assms(1,2)] by simp
  also have "\<dots> = f64_recip (k + int r + 1)"
    using assms(2-4) rrf_term_zero_add [of k r] rrf_term_eq [of k r] by simp
  finally show ?thesis .
qed

lemma map_fu_id_add_lists_single:
  "distinct (map h_id hs) \<Longrightarrow> map fu_id (add_lists k [(s, hs)] []) = map h_id hs"
  by (simp add: add_hits_fresh)

lemma fuse_rrf_single_ids:
  assumes "distinct (map h_id hs)" "norm_k k + int (length hs) \<le> 2 ^ 50" "reorders sh"
  shows "map fu_id (fuse_rrf sh k n [(s, hs)]) = take (nat (norm_top_n n)) (map h_id hs)"
proof -
  let ?es = "add_lists (norm_k k) [(s, hs)] []"
  have len: "norm_k k + int (length hs) < 2 ^ 63" using assms(2) by simp
  then have fits: "fits (norm_k k) [(s, hs)]" by (simp add: fits_def)
  have ids: "map fu_id ?es = map h_id hs" using assms(1) by (rule map_fu_id_add_lists_single)
  then have le: "length ?es = length hs" by (metis length_map)
  have sc: "rrf_score (?es ! r) = f64_recip (norm_k k + int r + 1)" if "r < length hs" for r
  proof (rule score_single [OF assms(1) that norm_k_pos len])
    show "?es ! r \<in> set (add_lists (norm_k k) [(s, hs)] [])" using that le by simp
    show "fu_id (?es ! r) = h_id (hs ! r)" using ids that le by (metis nth_map)
  qed
  have "\<not> fused_less (?es ! j) (?es ! i)" if "i < j" "j < length hs" for i j
  proof -
    have "f64_lt (rrf_score (?es ! j)) (rrf_score (?es ! i))"
      unfolding sc [OF that(2)] sc [OF less_trans [OF that]]
      by (rule f64_lt_recip) (use that assms(2) norm_k_pos [of k] in linarith)+
    then show ?thesis by (auto simp: fused_less_def f64_eq_def dest: f64_lt_asym)
  qed
  then have "sorted_wrt (\<lambda>a b. \<not> fused_less b a) ?es"
    unfolding sorted_wrt_iff_nth_less le by blast
  from sort_by_id [OF this] show ?thesis
    by (simp only: fuse_rrf_sorted_entries [OF fits assms(3)] take_map [symmetric] ids)
qed

text \<open>A ranking that comes from one retriever alone is not reordered: the ids come out in the
  order of the list, cut at the limit (for lists short enough that neighbouring reciprocals differ
  as 64-bit floats).\<close>

theorem fuse_rrf_single:
  assumes "distinct (map h_id hs)" "norm_k k + int (length hs) \<le> 2 ^ 50" "reorders sh"
  shows "map fu_id (fuse_rrf sh k n [(s, hs)]) = take (nat (norm_top_n n)) (map h_id hs)"
  by (rule fuse_rrf_single_ids [OF assms])

theorem fuse_rrf_single_witness:
  "map fu_id (fuse_rrf rev 60 1 [(str ''bm25'', [\<lparr>h_id = str ''x'', h_score = Fin 3\<rparr>, \<lparr>h_id = str ''c'', h_score = Fin 2\<rparr>])])
     = [str ''x'']"
  using fuse_rrf_single [of "[\<lparr>h_id = str ''x'', h_score = Fin 3\<rparr>, \<lparr>h_id = str ''c'', h_score = Fin 2\<rparr>]"
      60 rev 1 "str ''bm25''"]
  by (simp add: norm_k_def norm_top_n_def)

text \<open>Raw scores do not matter for the ranking.\<close>

definition ordinals :: "(gostring \<times> hit list) list \<Rightarrow> (gostring \<times> gostring list) list" where
  "ordinals ls = map (\<lambda>(s, hs). (s, map h_id hs)) ls"

definition bare :: "fused \<Rightarrow> fused" where
  "bare f = f\<lparr>per_signal := Map.empty\<rparr>"

lemma bare_simps [simp]: "fu_id (bare f) = fu_id f" "rrf_score (bare f) = rrf_score f"
  by (simp_all add: bare_def)

lemma bare_bump: "h_id h = h_id g \<Longrightarrow> bare a = bare b \<Longrightarrow> bare (bump k s r h a) = bare (bump k s' r g b)"
  unfolding bare_def by (rule fused_eqI) (auto dest: arg_cong [where f = fu_id] arg_cong [where f = rrf_score])

lemma bare_add_hit:
  "h_id h = h_id g \<Longrightarrow> map bare fs = map bare gs \<Longrightarrow>
     map bare (add_hit k s r h fs) = map bare (add_hit k s r g gs)"
proof (induction fs arbitrary: gs)
  case Nil
  then show ?case by (auto intro: bare_bump)
next
  case (Cons f fs)
  then obtain g' gs' where gs: "gs = g' # gs'" "bare f = bare g'" "map bare fs = map bare gs'" by auto
  have "fu_id f = fu_id g'" using gs(2) by (metis bare_simps(1))
  with Cons gs show ?case by (auto intro: bare_bump)
qed

lemma bare_add_hits:
  "map h_id hs = map h_id js \<Longrightarrow> map bare fs = map bare gs \<Longrightarrow>
     map bare (add_hits k s r hs fs) = map bare (add_hits k s r js gs)"
proof (induction hs arbitrary: js r fs gs)
  case (Cons h hs)
  then obtain j js' where js: "js = j # js'" "h_id h = h_id j" "map h_id hs = map h_id js'" by auto
  have "map bare (add_hit k s r h fs) = map bare (add_hit k s r j gs)"
    using js(2) Cons.prems(2) by (rule bare_add_hit)
  from Cons.IH [OF js(3) this] show ?case by (simp add: js(1))
qed auto

lemma bare_add_lists:
  "ordinals ls = ordinals ms \<Longrightarrow> map bare fs = map bare gs \<Longrightarrow>
     map bare (add_lists k ls fs) = map bare (add_lists k ms gs)"
proof (induction k ls fs arbitrary: ms gs rule: add_lists.induct)
  case (2 k s hs rest fs)
  then obtain js ms' where ms: "ms = (s, js) # ms'" "map h_id hs = map h_id js" "ordinals rest = ordinals ms'"
    by (auto simp: ordinals_def)
  have "map bare (add_hits k s 0 hs fs) = map bare (add_hits k s 0 js gs)"
    using ms(2) 2(3) by (rule bare_add_hits)
  from "2.IH" [OF ms(3) this] show ?case by (simp add: ms(1))
qed (auto simp: ordinals_def)

lemma map_sort_by:
  "(\<And>x y. lt (f x) (f y) = lt x y) \<Longrightarrow> map f (sort_by lt xs) = sort_by lt (map f xs)"
proof (induction xs)
  case (Cons x xs)
  have "map f (ins_by lt x ys) = ins_by lt (f x) (map f ys)" for ys
    using Cons.prems by (induction ys) auto
  with Cons show ?case by simp
qed simp

lemma fits_ordinals: "ordinals ls = ordinals ms \<Longrightarrow> fits k ls = fits k ms"
proof -
  have "fits k ls \<longleftrightarrow> 1 \<le> k \<and> list_all (\<lambda>(s, is). k + int (length is) < 2 ^ 63) (ordinals ls)" for ls
    by (auto simp: fits_def ordinals_def list_all_iff)
  then show "ordinals ls = ordinals ms \<Longrightarrow> fits k ls = fits k ms" by simp
qed

text \<open>The fusion sees ordinal positions only: lists that rank the same ids in the same order get
  the same ids with the same fused scores in the same order, whatever the raw scores.\<close>

theorem fuse_rrf_ordinal:
  assumes "ordinals ls = ordinals ms" "fits (norm_k k) ls" "reorders sh" "reorders sh'"
  shows "map (\<lambda>f. (fu_id f, rrf_score f)) (fuse_rrf sh k n ls)
       = map (\<lambda>f. (fu_id f, rrf_score f)) (fuse_rrf sh' k n ms)"
proof -
  have fits: "fits (norm_k k) ms" using assms(1,2) fits_ordinals by blast
  have "map bare (fuse_rrf sh k n ls) = map bare (fuse_rrf sh' k n ms)"
    using bare_add_lists [OF assms(1), of "[]" "[]" "norm_k k"]
    by (simp only: fuse_rrf_sorted_entries [OF assms(2,3)] fuse_rrf_sorted_entries [OF fits assms(4)]
        take_map [symmetric] map_sort_by [of fused_less bare] fused_less_def bare_simps list.map)
  then have "map (\<lambda>f. (fu_id f, rrf_score f)) (map bare (fuse_rrf sh k n ls))
      = map (\<lambda>f. (fu_id f, rrf_score f)) (map bare (fuse_rrf sh' k n ms))" by simp
  then show ?thesis by (simp add: comp_def)
qed

definition ex_scaled :: "(gostring \<times> hit list) list" where
  "ex_scaled = map (\<lambda>(s, hs). (s, map (\<lambda>h. h\<lparr>h_score := PInf\<rparr>) hs)) ex_lists"

theorem fuse_rrf_ordinal_witness:
  "map (\<lambda>f. (fu_id f, rrf_score f)) (fuse_rrf rev 60 2 ex_lists)
     = map (\<lambda>f. (fu_id f, rrf_score f)) (fuse_rrf (\<lambda>xs. xs) 60 2 ex_scaled)"
  by (rule fuse_rrf_ordinal) (simp_all add: ordinals_def ex_scaled_def ex_lists_def fits_def norm_k_def)

text \<open>An id that every list ranks at least as well is at least as high.\<close>

definition ranks_above :: "gostring \<Rightarrow> gostring \<Rightarrow> (gostring \<times> hit list) list \<Rightarrow> bool" where
  "ranks_above i j ls \<longleftrightarrow> list_all (\<lambda>(s, hs).
     case rank_of j hs of None \<Rightarrow> True
     | Some q \<Rightarrow> (case rank_of i hs of None \<Rightarrow> False | Some p \<Rightarrow> p \<le> q)) ls"

lemma foldl_add_nonneg:
  "nonneg_f64 x \<Longrightarrow> list_all nonneg_f64 ts \<Longrightarrow> nonneg_f64 (foldl f64_add x ts)"
  by (induction ts arbitrary: x) (auto simp: nonneg_f64_add)

lemma f64_add_zero_right:
  assumes "nonneg_f64 x" "nonneg_f64 y"
  shows "f64_add (f64_add x y) (Fin 0) = f64_add x y"
  using assms f64_add_zero_of_rat
  by (auto simp: nonneg_f64_def f64_add_commute [of _ "Fin 0"])

lemma foldl_add_mono:
  "1 \<le> k \<Longrightarrow> list_all (\<lambda>(s, hs). k + int (length hs) \<le> 2 ^ 53) ls \<Longrightarrow> ranks_above i j ls \<Longrightarrow>
     f64_le y x \<Longrightarrow> nonneg_f64 x \<Longrightarrow> nonneg_f64 y \<Longrightarrow> f64_add x (Fin 0) = x \<Longrightarrow>
     f64_le (foldl f64_add y (contribs k j ls)) (foldl f64_add x (contribs k i ls))"
proof (induction ls arbitrary: x y)
  case (Cons l ls)
  obtain s hs where l: "l = (s, hs)" by (cases l)
  have b: "k + int r + 1 < 2 ^ 63" "k + int r + 1 \<le> 2 ^ 53" if "rank_of a hs = Some r" for a r
    using Cons.prems(2) rank_of_Some [OF that] by (auto simp: l)
  have nn: "nonneg_f64 (rrf_term k r)" if "rank_of a hs = Some r" for a r
    using Cons.prems(1) b(1) [OF that] by (rule nonneg_rrf_term)
  have ra: "ranks_above i j ls" using Cons.prems(3) by (simp add: ranks_above_def l)
  have la: "list_all (\<lambda>(s, hs). k + int (length hs) \<le> 2 ^ 53) ls" using Cons.prems(2) by simp
  note IH = Cons.IH [OF Cons.prems(1) la ra]
  show ?case
  proof (cases "rank_of i hs")
    case None
    with Cons.prems(3) have "rank_of j hs = None" by (auto simp: ranks_above_def l split: option.splits)
    with None IH Cons.prems show ?thesis by (simp add: l)
  next
    case p: (Some p)
    note np = nn [OF p]
    note x' = f64_add_zero_right [OF Cons.prems(5) np] nonneg_f64_add [OF Cons.prems(5) np]
    show ?thesis
    proof (cases "rank_of j hs")
      case None
      have "f64_le (f64_add x (Fin 0)) (f64_add x (rrf_term k p))"
        using Cons.prems(5) np
        by (intro f64_add_mono f64_le_refl nonneg_f64_not_NaN) (auto simp: nonneg_f64_def f64_le_def f64_eq_def)
      then have "f64_le y (f64_add x (rrf_term k p))"
        using Cons.prems(4,7) f64_le_trans by metis
      from IH [OF this x'(2) Cons.prems(6) x'(1)] None p show ?thesis by (simp add: l)
    next
      case q: (Some q)
      have "p \<le> q" using Cons.prems(3) p q by (simp add: ranks_above_def l)
      then have "f64_le (rrf_term k q) (rrf_term k p)"
        using Cons.prems(1) b [OF p] b [OF q] by (simp add: rrf_term_eq f64_recip_antimono)
      then have "f64_le (f64_add y (rrf_term k q)) (f64_add x (rrf_term k p))"
        using Cons.prems(4,6) nn [OF q] by (intro f64_add_mono)
      from IH [OF this x'(2) nonneg_f64_add [OF Cons.prems(6) nn [OF q]] x'(1)] p q
      show ?thesis by (simp add: l)
    qed
  qed
qed simp

text \<open>Fusion is monotone: an id that every list ranks no worse than another (and that appears
  wherever the other does) never gets a smaller fused score, rounding included.\<close>

theorem fuse_rrf_monotone:
  assumes "ranked ls" "list_all (\<lambda>(s, hs). norm_k k + int (length hs) \<le> 2 ^ 53) ls" "reorders sh"
    "a \<in> set (fuse_rrf sh k n ls)" "b \<in> set (fuse_rrf sh k n ls)" "ranks_above (fu_id a) (fu_id b) ls"
  shows "f64_le (rrf_score b) (rrf_score a)"
  using foldl_add_mono [OF norm_k_pos assms(2,6), of "Fin 0" "Fin 0"]
    fused_entry(1) [OF assms(1) fuse_rrf_mem [OF assms(3,4)]]
    fused_entry(1) [OF assms(1) fuse_rrf_mem [OF assms(3,5)]] f64_add_zero_of_rat [of 0]
  by (simp add: f64_le_refl f64_of_rat_def)

definition ex_single :: "(gostring \<times> hit list) list" where
  "ex_single = [(str ''bm25'', [\<lparr>h_id = str ''x'', h_score = Fin 3\<rparr>, \<lparr>h_id = str ''c'', h_score = Fin 2\<rparr>])]"

lemma fuse_rrf_all:
  assumes "fits (norm_k k) ls" "reorders sh" "int (length (add_lists (norm_k k) ls [])) \<le> norm_top_n n"
  shows "set (fuse_rrf sh k n ls) = set (add_lists (norm_k k) ls [])"
proof -
  have "length (sort_by fused_less (add_lists (norm_k k) ls [])) \<le> nat (norm_top_n n)"
    using assms(3) by simp
  then show ?thesis by (simp only: fuse_rrf_sorted_entries [OF assms(1,2)] take_all set_sort_by)
qed

theorem fuse_rrf_monotone_witness:
  "\<exists>(a :: fused) (b :: fused). fu_id a = str ''x'' \<and> fu_id b = str ''c'' \<and> f64_le (rrf_score b) (rrf_score a)"
proof -
  define a where "a = bump 60 (str ''bm25'') 0 \<lparr>h_id = str ''x'', h_score = Fin 3\<rparr> (new_fused (str ''x''))"
  define b where "b = bump 60 (str ''bm25'') 1 \<lparr>h_id = str ''c'', h_score = Fin 2\<rparr> (new_fused (str ''c''))"
  have ids: "fu_id a = str ''x''" "fu_id b = str ''c''" by (simp_all add: a_def b_def new_fused_def)
  have "add_lists (norm_k 60) ex_single [] = [a, b]"
    by (simp add: ex_single_def a_def b_def norm_k_def new_fused_def)
  then have mem: "set (fuse_rrf rev 60 10 ex_single) = {a, b}"
    using fuse_rrf_all [of 60 ex_single rev 10] by (simp add: fits_def ex_single_def norm_k_def norm_top_n_def)
  have "f64_le (rrf_score b) (rrf_score a)"
    by (rule fuse_rrf_monotone [of ex_single 60 rev a 10 b])
      (simp_all add: mem, simp_all add: ids ex_single_def ranked_def norm_k_def ranks_above_def)
  with ids show ?thesis by blast
qed

end
