(* ===== verification/Rerank.thy ===== *)
theory Rerank
  imports Go_Errors Float64 Utf8
begin

text \<open>
  \<open>internal/rerank\<close>: the candidates, the token-overlap scorer (\<open>HeuristicReranker\<close>), the client of
  the sidecar's cross-encoder (\<open>CrossEncoderReranker\<close>) and the sort both end with. The interface
  \<open>Reranker\<close> is the locale \<open>reranker\<close>: what the engine relies on, given by both implementations. The
  Unicode tables of the standard library (letters, digits, lower case) and the exchange with the sidecar
  are parameters; \<open>Sidecar\<close> gives the bytes of the exchange.
\<close>

section \<open>Data\<close>

record candidate =
  chunk_id :: gostring
  doc_id :: gostring
  snippet :: gostring
  prior_score :: f64
  prior_rank :: int

record scored =
  cand :: candidate
  rerank_score :: f64

record unicode =
  is_letter :: "rune \<Rightarrow> bool"
  is_digit :: "rune \<Rightarrow> bool"
  to_lower :: "rune \<Rightarrow> rune"

section \<open>Tokens\<close>

text \<open>
  \<open>tokenSet\<close>: the loop over the runes with the builder \<open>b\<close> and the set \<open>out\<close>, a list without
  duplicates. \<open>flush\<close> adds a non-empty builder to the set.
\<close>

definition flush :: "gostring \<Rightarrow> gostring list \<Rightarrow> gostring list" where
  "flush b out = (if b = [] then out else List.insert b out)"

fun token_loop :: "unicode \<Rightarrow> rune list \<Rightarrow> gostring \<Rightarrow> gostring list \<Rightarrow> gostring list" where
  "token_loop u [] b out = flush b out"
| "token_loop u (r # rs) b out =
     (if is_letter u r \<or> is_digit u r
      then token_loop u rs (b @ encode_rune (to_lower u r)) out
      else token_loop u rs [] (flush b out))"

definition token_set :: "unicode \<Rightarrow> gostring \<Rightarrow> gostring list" where
  "token_set u s = (if s = [] then [] else token_loop u (runes s) [] [])"

section \<open>The heuristic score\<close>

definition default_target :: int where
  "default_target = 60"

definition norm_target :: "int \<Rightarrow> int" where
  "norm_target t = (if t \<le> 0 then default_target else t)"

definition token_overlap :: "gostring list \<Rightarrow> gostring list \<Rightarrow> nat" where
  "token_overlap qt st = length (filter (\<lambda>t. t \<in> set st) qt)"

definition base_score :: "gostring list \<Rightarrow> gostring list \<Rightarrow> f64" where
  "base_score qt st =
     (let denom = if 0 < length qt \<and> 0 < length st then f64_sqrt_nat (length qt * length st) else Fin 1
      in f64_div (f64_of_int (int (token_overlap qt st))) denom)"

definition length_penalty :: "int \<Rightarrow> nat \<Rightarrow> f64" where
  "length_penalty target n =
     (let excess = int n - target; excess = if excess < 0 then 0 else excess
      in f64_div (Fin 1) (f64_add (Fin 1) (f64_div (f64_of_int excess) (f64_of_int target))))"

definition heuristic_score :: "unicode \<Rightarrow> int \<Rightarrow> gostring list \<Rightarrow> gostring \<Rightarrow> f64" where
  "heuristic_score u target qt s =
     (let st = token_set u s in f64_mul (base_score qt st) (length_penalty target (length st)))"

section \<open>Sorting and cutting\<close>

definition scored_less :: "scored \<Rightarrow> scored \<Rightarrow> bool" where
  "scored_less a b =
     (if \<not> f64_eq (rerank_score a) (rerank_score b) then f64_lt (rerank_score b) (rerank_score a)
      else prior_rank (cand a) < prior_rank (cand b))"

definition norm_top :: "int \<Rightarrow> 'a list \<Rightarrow> int" where
  "norm_top n xs = (if n \<le> 0 then int (length xs) else n)"

definition cut :: "int \<Rightarrow> 'a list \<Rightarrow> 'a list" where
  "cut n xs = (if n < int (length xs) then take (nat n) xs else xs)"

definition heuristic_rerank ::
  "unicode \<Rightarrow> int \<Rightarrow> gostring \<Rightarrow> candidate list \<Rightarrow> int \<Rightarrow> go_error + scored list" where
  "heuristic_rerank u target_tokens query cs top_n =
     (let top_n = norm_top top_n cs;
          target = norm_target target_tokens;
          qt = token_set u query;
          out = map (\<lambda>c. \<lparr>cand = c, rerank_score = heuristic_score u target qt (snippet c)\<rparr>) cs
      in Inr (cut top_n (sort_by scored_less out)))"

text \<open>
  The cross-encoder: one request with all the passages, then the same sort. \<open>send\<close> posts the query
  and the passages to \<open>/rerank\<close>; \<open>decode\<close> reads the scores from the body.
\<close>

definition cross_rerank ::
  "(gostring \<Rightarrow> gostring list \<Rightarrow> reply) \<Rightarrow> (gostring \<Rightarrow> go_error + f64 list) \<Rightarrow>
     gostring \<Rightarrow> candidate list \<Rightarrow> int \<Rightarrow> go_error + scored list" where
  "cross_rerank send decode query cs top_n =
     (if cs = [] then Inr []
      else let top_n = norm_top top_n cs in
        bind_err (read_reply (str ''rerank'') decode (send query (map snippet cs))) (\<lambda>scores.
          if length scores \<noteq> length cs
          then Inl (Plain (str ''rerank: expected '' @ dec_nat (length cs)
                     @ str '' scores, got '' @ dec_nat (length scores)))
          else let out = map2 (\<lambda>c x. \<lparr>cand = c, rerank_score = x\<rparr>) cs scores
               in Inr (cut top_n (sort_by scored_less out))))"

section \<open>The order of scored candidates\<close>

definition real_score :: "scored \<Rightarrow> bool" where
  "real_score s \<longleftrightarrow> rerank_score s \<noteq> NaN"

interpretation rr: weak_order scored_less "{s. real_score s}"
proof
  fix a b
  assume "a \<in> {s. real_score s}" "b \<in> {s. real_score s}" "scored_less a b"
  then show "\<not> scored_less b a"
    by (auto simp: scored_less_def f64_eq_def real_score_def dest: f64_lt_asym split: if_splits)
next
  fix a b c
  assume n: "a \<in> {s. real_score s}" "b \<in> {s. real_score s}" "c \<in> {s. real_score s}" and l: "scored_less a c"
  show "scored_less a b \<or> scored_less b c"
  proof (cases "rerank_score a = rerank_score c")
    case True
    with l n have "prior_rank (cand a) < prior_rank (cand c)"
      by (simp add: scored_less_def f64_eq_def real_score_def)
    with True n show ?thesis
      using f64_lt_linear [of "rerank_score b" "rerank_score c"]
      by (auto simp: scored_less_def f64_eq_def real_score_def)
  next
    case False
    with l n have "f64_lt (rerank_score c) (rerank_score a)"
      by (simp add: scored_less_def f64_eq_def real_score_def)
    then show ?thesis
      using n f64_lt_neg_trans [of "rerank_score b" "rerank_score c" "rerank_score a"]
      by (auto simp: scored_less_def f64_eq_def real_score_def)
  qed
qed

lemma cut_take: "0 \<le> n \<Longrightarrow> cut n xs = take (nat n) xs"
  by (simp add: cut_def)

lemma cut_sort: "cut (norm_top n cs) (sort_by lt xs) = take (nat (norm_top n cs)) (sort_by lt xs)"
  by (rule cut_take) (simp add: norm_top_def)

definition limit :: "int \<Rightarrow> nat \<Rightarrow> nat" where
  "limit n l = (if n \<le> 0 then l else min (nat n) l)"

lemma min_norm_top: "length xs = length cs \<Longrightarrow> min (length xs) (nat (norm_top n cs)) = limit n (length cs)"
  by (simp add: norm_top_def limit_def min.commute)

lemma scored_less_total:
  assumes "rerank_score a \<noteq> NaN" "rerank_score b \<noteq> NaN" "prior_rank (cand a) \<noteq> prior_rank (cand b)"
  shows "scored_less a b \<or> scored_less b a"
proof (cases "rerank_score a = rerank_score b")
  case True
  then show ?thesis using assms by (auto simp: scored_less_def f64_eq_def)
next
  case False
  then show ?thesis
    using assms f64_lt_linear [of "rerank_score a" "rerank_score b"] by (simp add: scored_less_def f64_eq_def disj_commute)
qed

section \<open>The interface\<close>

text \<open>
  What the engine relies on: a reranker that answers returns different candidates among those it
  was given, as many as the limit allows, none of them behind one that scores less.
  \<open>admissible\<close> says for which inputs it scores with comparable numbers.
\<close>

locale reranker =
  fixes rerank :: "gostring \<Rightarrow> candidate list \<Rightarrow> int \<Rightarrow> go_error + scored list"
    and admissible :: "gostring \<Rightarrow> candidate list \<Rightarrow> bool"
  assumes picks: "rerank q cs n = Inr out \<Longrightarrow> mset (map cand out) \<subseteq># mset cs"
    and fills: "rerank q cs n = Inr out \<Longrightarrow> length out = limit n (length cs)"
    and ranks: "rerank q cs n = Inr out \<Longrightarrow> admissible q cs \<Longrightarrow> sorted_wrt (\<lambda>a b. \<not> scored_less b a) out"
begin

lemma from_input: "rerank q cs n = Inr out \<Longrightarrow> s \<in> set out \<Longrightarrow> cand s \<in> set cs"
  using picks [of q cs n out] by (metis image_eqI in_multiset_in_set list.set_map mset_subset_eqD)

lemma no_duplicates:
  assumes "rerank q cs n = Inr out" "distinct (map chunk_id cs)"
  shows "distinct (map (chunk_id \<circ> cand) out)"
proof -
  have "mset (map (chunk_id \<circ> cand) out) \<subseteq># mset (map chunk_id cs)"
    using picks [OF assms(1)] by (metis image_mset_subseteq_mono map_map mset_map)
  then show ?thesis using assms(2) by (rule distinct_submset)
qed

lemma keeps_all: "rerank q cs n = Inr out \<Longrightarrow> int (length cs) \<le> n \<or> n \<le> 0 \<Longrightarrow> mset (map cand out) = mset cs"
  using picks [of q cs n out] fills [of q cs n out]
  by (intro submset_size_eq) (auto simp: limit_def)

end

section \<open>Both implementations satisfy the interface\<close>

lemma cut_sorted_laws:
  assumes "map cand xs = cs"
  shows "mset (map cand (cut (norm_top n cs) (sort_by scored_less xs))) \<subseteq># mset cs"
    and "length (cut (norm_top n cs) (sort_by scored_less xs)) = limit n (length cs)"
    and "list_all real_score xs \<Longrightarrow>
      sorted_wrt (\<lambda>a b. \<not> scored_less b a) (cut (norm_top n cs) (sort_by scored_less xs))"
proof -
  have "mset (take m (sort_by scored_less xs)) \<subseteq># mset xs" for m
    using mset_take_le [of m "sort_by scored_less xs"] by simp
  then have "mset (map cand (take m (sort_by scored_less xs))) \<subseteq># mset (map cand xs)" for m
    by (simp add: image_mset_subseteq_mono)
  then show "mset (map cand (cut (norm_top n cs) (sort_by scored_less xs))) \<subseteq># mset cs"
    using assms by (simp add: cut_sort)
  have "length xs = length cs" using assms by auto
  then show "length (cut (norm_top n cs) (sort_by scored_less xs)) = limit n (length cs)"
    using min_norm_top [of xs cs n] by (simp add: cut_sort min.commute)
  assume "list_all real_score xs"
  then have "set xs \<subseteq> {s. real_score s}" by (auto simp: list_all_iff)
  from rr.sorted_sort_by [OF this]
  show "sorted_wrt (\<lambda>a b. \<not> scored_less b a) (cut (norm_top n cs) (sort_by scored_less xs))"
    by (simp add: cut_sort sorted_wrt_take)
qed

definition score_all :: "unicode \<Rightarrow> int \<Rightarrow> gostring \<Rightarrow> candidate list \<Rightarrow> scored list" where
  "score_all u t q cs = map (\<lambda>c. \<lparr>cand = c, rerank_score =
      heuristic_score u (norm_target t) (token_set u q) (snippet c)\<rparr>) cs"

lemma cand_score_all [simp]: "map cand (score_all u t q cs) = cs"
  by (simp add: score_all_def comp_def)

lemma heuristic_rerank_eq:
  "heuristic_rerank u t q cs n = Inr (cut (norm_top n cs) (sort_by scored_less (score_all u t q cs)))"
  by (simp add: heuristic_rerank_def score_all_def Let_def)

section \<open>The integer square root\<close>

lemma isqrt_bounds: "isqrt n * isqrt n \<le> n \<and> n < (isqrt n + 1) * (isqrt n + 1)"
proof (induction n rule: less_induct)
  case (less n)
  show ?case
  proof (cases "n = 0")
    case False
    let ?r = "isqrt (n div 4)"
    have ih: "?r * ?r \<le> n div 4" "n div 4 < (?r + 1) * (?r + 1)"
      using less [of "n div 4"] False by auto
    have lo: "4 * (?r * ?r) \<le> n" using ih(1) by linarith
    have "n div 4 + 1 \<le> (?r + 1) * (?r + 1)" using ih(2) by linarith
    then have hi: "n < 4 * ((?r + 1) * (?r + 1))" by linarith
    have rec: "isqrt n = (if (2 * ?r + 1) * (2 * ?r + 1) \<le> n then 2 * ?r + 1 else 2 * ?r)"
      using False by (subst isqrt.simps) (simp add: Let_def)
    show ?thesis using lo hi by (auto simp: rec algebra_simps)
  qed (simp add: isqrt.simps)
qed

lemma isqrt_ge: "a * a \<le> n \<Longrightarrow> a \<le> isqrt n"
proof (rule ccontr)
  assume a: "a * a \<le> n" and b: "\<not> a \<le> isqrt n"
  from b have "isqrt n + 1 \<le> a" by simp
  from this this have "(isqrt n + 1) * (isqrt n + 1) \<le> a * a" by (rule mult_le_mono)
  with a isqrt_bounds [of n] show False by linarith
qed

lemma isqrt_square: "isqrt (a * a) = a"
proof (rule antisym)
  have "isqrt (a * a) * isqrt (a * a) \<le> a * a" using isqrt_bounds by blast
  then show "isqrt (a * a) \<le> a"
    using mult_strict_mono' [of a "isqrt (a * a)" a "isqrt (a * a)"] by (meson leD not_le_imp_less zero_le)
qed (simp add: isqrt_ge)

lemma scale_square: "(a * a) * 4 ^ 60 = (a * 2 ^ 60) * (a * 2 ^ 60 :: nat)"
proof -
  have "(4 :: nat) ^ 60 = 2 ^ 60 * 2 ^ 60" by simp
  then show ?thesis by (simp only: mult.assoc mult.left_commute)
qed

lemma sqrt_sticky_ge: "a * a \<le> n \<Longrightarrow> of_nat a \<le> sqrt_sticky n"
proof -
  assume "a * a \<le> n"
  then have "(a * 2 ^ 60) * (a * 2 ^ 60) \<le> n * 4 ^ 60" by (simp only: scale_square [symmetric] mult_le_mono1)
  then have "a * 2 ^ 60 \<le> isqrt (n * 4 ^ 60)" by (rule isqrt_ge)
  then have "rat_of_nat (a * 2 ^ 60) \<le> of_nat (isqrt (n * 4 ^ 60))" by (simp only: of_nat_le_iff)
  then have "rat_of_nat a \<le> of_nat (isqrt (n * 4 ^ 60)) / 2 ^ 60" by (simp add: field_simps)
  also have "\<dots> \<le> sqrt_sticky n"
    by (simp add: sqrt_sticky_def Let_def field_simps)
  finally show ?thesis .
qed

lemma sqrt_sticky_square: "sqrt_sticky (a * a) = of_nat a"
  unfolding sqrt_sticky_def Let_def scale_square isqrt_square by simp


section \<open>Bounds on the heuristic score\<close>

definition small :: "gostring \<Rightarrow> bool" where
  "small s \<longleftrightarrow> length s \<le> 2 ^ 26"

lemma length_flush: "length (flush b out) \<le> length out + (if b = [] then 0 else 1)"
  by (simp add: flush_def List.insert_def)

lemma length_token_loop:
  "length (token_loop u rs b out) \<le> length out + length rs + (if b = [] then 0 else 1)"
proof (induction u rs b out rule: token_loop.induct)
  case (2 u r rs b out)
  then show ?case
    using length_flush [of b out] by (cases "is_letter u r \<or> is_digit u r"; cases "b = []") auto
qed (simp add: length_flush)

lemma length_token_set: "length (token_set u s) \<le> length s"
  using length_token_loop [of u "runes s" "[]" "[]"] length_runes_le [of s] by (simp add: token_set_def)

lemma distinct_flush: "distinct out \<Longrightarrow> distinct (flush b out)"
  by (simp add: flush_def)

lemma distinct_token_loop: "distinct out \<Longrightarrow> distinct (token_loop u rs b out)"
  by (induction u rs b out rule: token_loop.induct) (auto simp: distinct_flush)

lemma distinct_token_set [simp]: "distinct (token_set u s)"
  by (simp add: token_set_def distinct_token_loop)

lemma overlap_card: "distinct qt \<Longrightarrow> token_overlap qt st = card (set qt \<inter> set st)"
  using distinct_card [of "filter (\<lambda>t. t \<in> set st) qt"] by (simp add: token_overlap_def Int_def conj_commute)

lemma overlap_le: "distinct qt \<Longrightarrow> distinct st \<Longrightarrow> token_overlap qt st \<le> length qt \<and> token_overlap qt st \<le> length st"
  by (metis overlap_card card_mono distinct_card finite_set inf_le1 inf_le2)

definition unit_score :: "f64 \<Rightarrow> bool" where
  "unit_score x \<longleftrightarrow> (\<exists>q. x = Fin q \<and> 0 \<le> q \<and> q \<le> 1)"

lemma unit_of_rat: "0 \<le> q \<Longrightarrow> q \<le> 1 \<Longrightarrow> unit_score (f64_of_rat q)"
proof -
  assume q: "0 \<le> q" "q \<le> 1"
  have "\<bar>q\<bar> \<le> 2 ^ 1000" using q order.trans [of q 1 "2 ^ 1000"] by simp
  then have "f64_of_rat q = Fin (rnd q)" by (rule f64_of_rat_Fin)
  then show ?thesis
    using rnd_nonneg [OF q(1)] rnd_mono [OF q(2)] by (simp add: unit_score_def)
qed

lemma unit_div:
  assumes "0 \<le> x" "x \<le> y" "0 < y"
  shows "unit_score (f64_div (Fin x) (Fin y))"
  using assms unit_of_rat [of "x / y"] by simp

lemma unit_mul: "unit_score x \<Longrightarrow> unit_score y \<Longrightarrow> unit_score (f64_mul x y)"
proof -
  assume "unit_score x" "unit_score y"
  then obtain p q where "x = Fin p" "y = Fin q" "0 \<le> p" "p \<le> 1" "0 \<le> q" "q \<le> 1"
    by (auto simp: unit_score_def)
  then show ?thesis using mult_mono [of p 1 q 1] by (auto intro!: unit_of_rat)
qed

lemma isqrt_le: "isqrt n \<le> n"
proof -
  have "isqrt n * isqrt n \<le> n" using isqrt_bounds by blast
  then show ?thesis using le_square order.trans by blast
qed

lemma sqrt_sticky_le: "sqrt_sticky n \<le> of_nat n * 2 ^ 60 + 1"
proof -
  have "rat_of_nat (isqrt (n * 4 ^ 60)) \<le> of_nat (n * 4 ^ 60)" using isqrt_le by (simp only: of_nat_le_iff)
  also have "\<dots> = of_nat n * 2 ^ 60 * 2 ^ 60" by simp
  finally show ?thesis by (simp add: sqrt_sticky_def Let_def field_simps)
qed

lemma f64_sqrt_Fin:
  assumes "n \<le> 2 ^ 52"
  shows "f64_sqrt_nat n = Fin (rnd (sqrt_sticky n))"
proof -
  have "rat_of_nat n \<le> of_nat (2 ^ 52)" using assms by (simp only: of_nat_le_iff)
  then have "of_nat n * 2 ^ 60 + 1 \<le> (2 ^ 120 :: rat)" by simp
  also have "(2 :: rat) ^ 120 \<le> 2 ^ 1000" by (rule power_increasing) simp_all
  finally have "sqrt_sticky n \<le> 2 ^ 1000" using sqrt_sticky_le order.trans by blast
  moreover have "0 \<le> sqrt_sticky n" using sqrt_sticky_ge [of 0 n] by simp
  ultimately show ?thesis by (simp add: f64_sqrt_nat_def f64_of_rat_Fin del: power_numeral)
qed

lemma f64_sqrt_ge:
  assumes "a * a \<le> n" "n \<le> 2 ^ 52"
  shows "\<exists>r. f64_sqrt_nat n = Fin r \<and> of_nat a \<le> r"
proof -
  have "a \<le> 2 ^ 26"
  proof (rule ccontr)
    assume "\<not> a \<le> 2 ^ 26"
    then have "2 ^ 26 * 2 ^ 26 < a * a" by (intro mult_strict_mono) auto
    with assms show False by simp
  qed
  then have "rnd (of_int (int a)) = of_int (int a)" by (intro rnd_of_int) simp
  then have "rat_of_nat a \<le> rnd (sqrt_sticky n)"
    using rnd_mono [OF sqrt_sticky_ge [OF assms(1)]] by simp
  then show ?thesis using f64_sqrt_Fin [OF assms(2)] by simp
qed

lemma base_score_unit:
  assumes "distinct qt" "distinct st" "length qt \<le> 2 ^ 26" "length st \<le> 2 ^ 26"
  shows "unit_score (base_score qt st)"
proof -
  let ?o = "token_overlap qt st"
  have o: "?o \<le> length qt" "?o \<le> length st" using overlap_le [OF assms(1,2)] by auto
  have oF: "f64_of_int (int ?o) = Fin (of_nat ?o)"
    using f64_of_int_exact [of "int ?o"] o assms(3) by simp
  show ?thesis
  proof (cases "0 < length qt \<and> 0 < length st")
    case True
    have sq: "?o * ?o \<le> length qt * length st" using o by (rule mult_le_mono)
    have one: "1 * 1 \<le> length qt * length st" using True by (simp add: Suc_leI)
    have ub: "length qt * length st \<le> 2 ^ 52"
      using mult_le_mono [OF assms(3,4)] by simp
    obtain r where r: "f64_sqrt_nat (length qt * length st) = Fin r" "of_nat ?o \<le> r"
      using f64_sqrt_ge [OF sq ub] by blast
    have "1 \<le> r" using f64_sqrt_ge [OF one ub] r(1) by simp
    then have "unit_score (f64_div (Fin (of_nat ?o)) (Fin r))" using r(2) by (intro unit_div) auto
    then show ?thesis using True by (simp only: base_score_def Let_def if_True simp_thms r(1) oF)
  next
    case False
    then have "int ?o = 0" using o by auto
    moreover have "unit_score (f64_div (Fin 0) (Fin 1))" by (rule unit_div) simp_all
    moreover have "f64_of_int 0 = Fin 0" by (simp add: f64_of_int_exact)
    ultimately show ?thesis using False by (simp only: base_score_def Let_def if_False)
  qed
qed


lemma length_penalty_unit:
  assumes "1 \<le> target" "target < 2 ^ 53" "n \<le> 2 ^ 26"
  shows "unit_score (length_penalty target n)"
    and "int n \<le> target \<Longrightarrow> length_penalty target n = Fin 1"
proof -
  define e where "e = (if int n - target < 0 then 0 else int n - target)"
  have e: "0 \<le> e" "e \<le> 2 ^ 26" using assms by (auto simp: e_def)
  have Fe: "f64_of_int e = Fin (of_int e)" and Ft: "f64_of_int target = Fin (of_int target)"
    using e assms by (auto intro!: f64_of_int_exact)
  let ?q = "rat_of_int e / of_int target"
  have q0: "0 \<le> ?q" using e assms by simp
  have "?q \<le> of_int e / 1" using e assms by (intro divide_left_mono) auto
  also have "\<dots> \<le> of_int (2 ^ 26)" using e by (simp only: div_by_1 of_int_le_iff)
  finally have q1: "?q \<le> 2 ^ 26" by simp
  have rq: "rnd ?q \<le> 2 ^ 26" using rnd_mono [OF q1] rnd_of_int [of "2 ^ 26"] by simp
  have rq0: "0 \<le> rnd ?q" using rnd_nonneg q0 by blast
  have big: "(2 :: rat) ^ 27 \<le> 2 ^ 1000" by (rule power_increasing) simp_all
  have "\<bar>?q\<bar> \<le> 2 ^ 1000" using q0 q1 big by simp
  then have d: "f64_div (f64_of_int e) (f64_of_int target) = Fin (rnd ?q)"
    using assms by (simp add: Fe Ft f64_of_rat_Fin)
  have "\<bar>1 + rnd ?q\<bar> \<le> 2 ^ 1000" using rq rq0 big by simp
  then have s: "f64_add (Fin 1) (Fin (rnd ?q)) = Fin (rnd (1 + rnd ?q))" by (simp add: f64_of_rat_Fin)
  have r1: "1 \<le> rnd (1 + rnd ?q)" using rnd_mono [of 1 "1 + rnd ?q"] rq0 by simp
  have eq: "length_penalty target n = f64_div (Fin 1) (Fin (rnd (1 + rnd ?q)))"
    by (simp only: length_penalty_def Let_def e_def [symmetric] d s)
  show "unit_score (length_penalty target n)"
    unfolding eq by (rule unit_div) (use r1 in auto)
  assume "int n \<le> target"
  then have "e = 0" by (simp add: e_def)
  then show "length_penalty target n = Fin 1"
    unfolding eq using f64_of_rat_Fin [of 1] by simp
qed

section \<open>Properties\<close>

lemma heuristic_score_unit:
  assumes "small q" "small s" "t < 2 ^ 53"
  shows "unit_score (heuristic_score u (norm_target t) (token_set u q) s)"
  unfolding heuristic_score_def Let_def
proof (rule unit_mul)
  show "unit_score (base_score (token_set u q) (token_set u s))"
    using assms length_token_set [of u q] length_token_set [of u s]
    by (intro base_score_unit) (auto simp: small_def)
  show "unit_score (length_penalty (norm_target t) (length (token_set u s)))"
    using assms length_token_set [of u s]
    by (intro length_penalty_unit(1)) (auto simp: small_def norm_target_def default_target_def)
qed

text \<open>C21. Every score of the heuristic reranker is a number between 0 and 1, with all roundings of the
  64-bit computation (for texts of up to 64 MB).\<close>

theorem heuristic_rerank_unit:
  assumes "small q" "list_all (small \<circ> snippet) cs" "t < 2 ^ 53"
  shows "list_all (unit_score \<circ> rerank_score) (projr (heuristic_rerank u t q cs n))"
proof -
  have "list_all (unit_score \<circ> rerank_score) (score_all u t q cs)"
    using assms heuristic_score_unit by (auto simp: score_all_def list_all_iff)
  then show ?thesis by (auto simp: heuristic_rerank_eq cut_sort list_all_iff dest!: in_set_takeD)
qed

definition ascii_tables :: unicode where
  "ascii_tables = \<lparr>is_letter = (\<lambda>r. 97 \<le> r \<and> r \<le> 122 \<or> 65 \<le> r \<and> r \<le> 90),
     is_digit = (\<lambda>r. 48 \<le> r \<and> r \<le> 57), to_lower = (\<lambda>r. if 65 \<le> r \<and> r \<le> 90 then r + 32 else r)\<rparr>"

definition ex_cand :: "int \<Rightarrow> string \<Rightarrow> candidate" where
  "ex_cand i s = \<lparr>chunk_id = [of_int i], doc_id = [], snippet = str s, prior_score = Fin 0, prior_rank = i\<rparr>"

theorem heuristic_rerank_unit_witness:
  "list_all (unit_score \<circ> rerank_score)
     (projr (heuristic_rerank ascii_tables 0 (str ''go'') [ex_cand 0 ''b'', ex_cand 1 ''a Go''] 2))"
  by (rule heuristic_rerank_unit) (simp_all add: small_def ex_cand_def)

lemma heuristic_real_scores:
  assumes "small q" "list_all (small \<circ> snippet) cs" "t < 2 ^ 53"
  shows "list_all real_score (score_all u t q cs)"
proof -
  have "unit_score x \<Longrightarrow> x \<noteq> NaN" for x by (auto simp: unit_score_def)
  then show ?thesis
    using assms heuristic_score_unit [of q _ t u] by (auto simp: score_all_def list_all_iff real_score_def)
qed

interpretation heur: reranker "heuristic_rerank u t" "\<lambda>q cs. small q \<and> list_all (small \<circ> snippet) cs \<and> t < 2 ^ 53"
  for u :: unicode and t :: int
proof
  fix q cs n out
  assume "heuristic_rerank u t q cs n = Inr out"
  then have out: "out = cut (norm_top n cs) (sort_by scored_less (score_all u t q cs))"
    by (simp add: heuristic_rerank_eq)
  note laws = cut_sorted_laws [OF cand_score_all [of u t q cs], of n, folded out]
  show "mset (map cand out) \<subseteq># mset cs" "length out = limit n (length cs)"
    using laws(1,2) by auto
  assume "small q \<and> list_all (small \<circ> snippet) cs \<and> t < 2 ^ 53"
  then show "sorted_wrt (\<lambda>a b. \<not> scored_less b a) out"
    using laws(3) heuristic_real_scores by blast
qed

lemma cand_map2: "length xs = length cs \<Longrightarrow> map cand (map2 (\<lambda>c x. \<lparr>cand = c, rerank_score = x\<rparr>) cs xs) = cs"
  by (induction cs xs rule: list_induct2') auto

lemma cross_rerank_Inr:
  assumes "cross_rerank send decode q cs n = Inr out" "cs \<noteq> []"
  obtains body scores where "send q (map snippet cs) = Response 200 body" "decode body = Inr scores"
    "length scores = length cs"
    "out = cut (norm_top n cs) (sort_by scored_less (map2 (\<lambda>c x. \<lparr>cand = c, rerank_score = x\<rparr>) cs scores))"
  using assms by (auto simp: cross_rerank_def Let_def bind_err_Inr_iff read_reply_Inr_iff split: if_splits)

text \<open>JSON has no \<open>NaN\<close>: the scores a body decodes to are numbers.\<close>

definition json_numbers :: "(gostring \<Rightarrow> go_error + f64 list) \<Rightarrow> bool" where
  "json_numbers decode \<longleftrightarrow> (\<forall>body xs. decode body = Inr xs \<longrightarrow> NaN \<notin> set xs)"

interpretation cross: reranker "cross_rerank send decode" "\<lambda>q cs. json_numbers decode"
  for send :: "gostring \<Rightarrow> gostring list \<Rightarrow> reply" and decode :: "gostring \<Rightarrow> go_error + f64 list"
proof
  fix q cs n out
  assume r: "cross_rerank send decode q cs n = Inr out"
  show "mset (map cand out) \<subseteq># mset cs" "length out = limit n (length cs)"
  proof -
    show "mset (map cand out) \<subseteq># mset cs"
    proof (cases "cs = []")
      case False
      with r obtain scores where s: "length scores = length cs"
        "out = cut (norm_top n cs) (sort_by scored_less (map2 (\<lambda>c x. \<lparr>cand = c, rerank_score = x\<rparr>) cs scores))"
        by (rule cross_rerank_Inr)
      show ?thesis unfolding s(2) by (rule cut_sorted_laws(1) [OF cand_map2 [OF s(1)]])
    qed (use r in \<open>simp add: cross_rerank_def\<close>)
    show "length out = limit n (length cs)"
    proof (cases "cs = []")
      case False
      with r obtain scores where s: "length scores = length cs"
        "out = cut (norm_top n cs) (sort_by scored_less (map2 (\<lambda>c x. \<lparr>cand = c, rerank_score = x\<rparr>) cs scores))"
        by (rule cross_rerank_Inr)
      show ?thesis unfolding s(2) by (rule cut_sorted_laws(2) [OF cand_map2 [OF s(1)]])
    qed (use r in \<open>simp add: cross_rerank_def limit_def\<close>)
  qed
  assume j: "json_numbers decode"
  show "sorted_wrt (\<lambda>a b. \<not> scored_less b a) out"
  proof (cases "cs = []")
    case False
    with r obtain body scores where s: "decode body = Inr scores" "length scores = length cs"
      "out = cut (norm_top n cs) (sort_by scored_less (map2 (\<lambda>c x. \<lparr>cand = c, rerank_score = x\<rparr>) cs scores))"
      by (rule cross_rerank_Inr)
    have "NaN \<notin> set scores" using j s(1) by (auto simp: json_numbers_def)
    then have "list_all real_score (map2 (\<lambda>c x. \<lparr>cand = c, rerank_score = x\<rparr>) cs scores)"
      by (auto simp: list_all_iff real_score_def dest: set_zip_rightD)
    then show ?thesis unfolding s(3) by (rule cut_sorted_laws(3) [OF cand_map2 [OF s(2)]])
  qed (use r in \<open>simp add: cross_rerank_def\<close>)
qed


text \<open>The heuristic reranker always answers, with the best of the scored candidates: together with
  some rest the result holds every candidate once with its score, no entry behind one that is smaller
  in the order (score descending, then prior rank ascending), cut at the limit.\<close>

theorem heuristic_rerank_top:
  assumes "small q" "list_all (small \<circ> snippet) cs" "t < 2 ^ 53"
  shows "\<exists>out rest. heuristic_rerank u t q cs n = Inr out
    \<and> mset (out @ rest) = mset (score_all u t q cs)
    \<and> sorted_wrt (\<lambda>a b. \<not> scored_less b a) (out @ rest)
    \<and> length out = limit n (length cs)"
proof -
  let ?s = "sort_by scored_less (score_all u t q cs)" and ?m = "nat (norm_top n cs)"
  have "sorted_wrt (\<lambda>a b. \<not> scored_less b a) ?s"
    using heuristic_real_scores [OF assms] by (intro rr.sorted_sort_by) (auto simp: list_all_iff)
  moreover have "mset (take ?m ?s @ drop ?m ?s) = mset (score_all u t q cs)"
    by (simp only: append_take_drop_id mset_sort_by)
  moreover have "heuristic_rerank u t q cs n = Inr (take ?m ?s)"
    by (simp add: heuristic_rerank_eq cut_sort)
  moreover have "length (take ?m ?s) = limit n (length cs)"
    using heur.fills [OF calculation(3)] .
  ultimately show ?thesis by (metis append_take_drop_id)
qed

theorem heuristic_rerank_top_witness:
  "\<exists>out rest. heuristic_rerank ascii_tables 60 (str ''go'') [ex_cand 0 ''b'', ex_cand 1 ''a Go''] 1 = Inr out
    \<and> mset (out @ rest) = mset (score_all ascii_tables 60 (str ''go'') [ex_cand 0 ''b'', ex_cand 1 ''a Go''])
    \<and> sorted_wrt (\<lambda>a b. \<not> scored_less b a) (out @ rest)
    \<and> length out = limit 1 (length [ex_cand 0 ''b'', ex_cand 1 ''a Go''])"
  by (rule heuristic_rerank_top) (simp_all add: small_def ex_cand_def)

text \<open>The heuristic reranker is deterministic in the strong sense its interface asks for: when the
  prior ranks differ, as the engine numbers them, the order in which the candidates are passed makes
  no difference.\<close>

theorem heuristic_rerank_order_free:
  assumes "small q" "list_all (small \<circ> snippet) cs" "t < 2 ^ 53"
    "distinct (map prior_rank cs)" "mset ds = mset cs"
  shows "heuristic_rerank u t q ds n = heuristic_rerank u t q cs n"
proof -
  let ?sa = "score_all u t q"
  have m: "mset (?sa ds) = mset (?sa cs)" using assms(5) by (simp add: score_all_def)
  have d: "distinct (map (prior_rank \<circ> cand) (?sa cs))"
    using assms(4) by (simp only: map_map [symmetric] cand_score_all)
  have real: "list_all real_score (?sa cs)" by (rule heuristic_real_scores [OF assms(1-3)])
  have "sort_by scored_less (?sa ds) = sort_by scored_less (?sa cs)"
  proof (rule rr.sort_by_perm)
    fix a b assume ab: "a \<in> set (?sa cs)" "b \<in> set (?sa cs)" "a \<noteq> b"
    then have "prior_rank (cand a) \<noteq> prior_rank (cand b)"
      using inj_onD [of "prior_rank \<circ> cand" "set (?sa cs)" a b] d by (auto simp: distinct_map)
    moreover have "rerank_score a \<noteq> NaN" "rerank_score b \<noteq> NaN"
      using real ab by (auto simp: list_all_iff real_score_def)
    ultimately show "scored_less a b \<or> scored_less b a"
      by (rule scored_less_total [rotated 2])
  next
    show "set (?sa cs) \<subseteq> {s. real_score s}" using real by (auto simp: list_all_iff)
  qed (rule m)
  moreover have "length ds = length cs" using assms(5) by (metis size_mset)
  ultimately show ?thesis by (simp add: heuristic_rerank_eq norm_top_def)
qed

theorem heuristic_rerank_order_free_witness:
  "heuristic_rerank ascii_tables 60 (str ''go'') [ex_cand 1 ''a Go'', ex_cand 0 ''b''] 1
     = heuristic_rerank ascii_tables 60 (str ''go'') [ex_cand 0 ''b'', ex_cand 1 ''a Go''] 1"
  by (rule heuristic_rerank_order_free) (simp_all add: small_def ex_cand_def)

text \<open>Exact scores at the ends of the range.\<close>

lemma f64_sqrt_square: "a \<le> 2 ^ 26 \<Longrightarrow> f64_sqrt_nat (a * a) = Fin (of_nat a)"
proof -
  assume a: "a \<le> 2 ^ 26"
  then have "a * a \<le> 2 ^ 52" using mult_le_mono [OF a a] by simp
  then have "f64_sqrt_nat (a * a) = Fin (rnd (of_int (int a)))" by (simp add: f64_sqrt_Fin sqrt_sticky_square)
  also have "rnd (of_int (int a)) = of_int (int a)" using a by (intro rnd_of_int) simp
  finally show ?thesis by simp
qed

lemma f64_mul_one: "f64_mul (Fin 1) (Fin 1) = Fin 1"
  using f64_of_rat_Fin [of 1] by simp

text \<open>A snippet with exactly the tokens of the query, and no more of them than the target length,
  gets the score 1; a snippet that shares no token with the query gets 0.\<close>

theorem heuristic_score_ends:
  assumes "small q" "small s" "t < 2 ^ 53"
  shows "(set (token_set u s) \<inter> set (token_set u q) = {} \<longrightarrow>
       heuristic_score u (norm_target t) (token_set u q) s = Fin 0)
    \<and> (set (token_set u s) = set (token_set u q) \<and> token_set u q \<noteq> []
         \<and> int (length (token_set u s)) \<le> norm_target t \<longrightarrow>
       heuristic_score u (norm_target t) (token_set u q) s = Fin 1)"
proof -
  let ?qt = "token_set u q" and ?st = "token_set u s"
  have len: "length ?qt \<le> 2 ^ 26" "length ?st \<le> 2 ^ 26"
    using assms length_token_set [of u q] length_token_set [of u s] by (auto simp: small_def)
  have tg: "1 \<le> norm_target t" "norm_target t < 2 ^ 53"
    using assms(3) by (auto simp: norm_target_def default_target_def)
  have unit: "unit_score (length_penalty (norm_target t) (length ?st))"
    using length_penalty_unit(1) [OF tg len(2)] .
  have o: "token_overlap ?qt ?st = card (set ?qt \<inter> set ?st)" by (simp add: overlap_card)
  have zero: "heuristic_score u (norm_target t) ?qt s = Fin 0" if disj: "set ?st \<inter> set ?qt = {}"
  proof -
    have "int (token_overlap ?qt ?st) = 0" using o disj by (simp add: inf_commute)
    moreover have "f64_of_int 0 = Fin 0" by (simp add: f64_of_int_exact)
    moreover obtain d where "(if 0 < length ?qt \<and> 0 < length ?st
        then f64_sqrt_nat (length ?qt * length ?st) else Fin 1) = Fin d" "0 < d"
      using f64_sqrt_ge [of 1 "length ?qt * length ?st"] mult_le_mono [OF len]
      by (cases "0 < length ?qt \<and> 0 < length ?st") (auto simp: Suc_le_eq)
    ultimately have "base_score ?qt ?st = Fin 0" by (simp only: base_score_def Let_def) simp
    then show ?thesis using unit by (auto simp: heuristic_score_def Let_def unit_score_def)
  qed
  have one: "heuristic_score u (norm_target t) ?qt s = Fin 1"
    if eq: "set ?st = set ?qt" "?qt \<noteq> []" "int (length ?st) \<le> norm_target t"
  proof -
    have l: "length ?qt = length ?st" using eq(1) by (metis distinct_card distinct_token_set)
    have ov: "token_overlap ?qt ?st = length ?st" using o eq(1) l by (simp add: distinct_card)
    have pos: "0 < length ?st" using eq(2) l by auto
    have "f64_of_int (int (length ?st)) = Fin (of_nat (length ?st))"
      using f64_of_int_exact [of "int (length ?st)"] len by simp
    then have "base_score ?qt ?st = f64_of_rat (of_nat (length ?st) / of_nat (length ?st))"
      using pos f64_sqrt_square [OF len(2)] by (simp add: base_score_def Let_def l ov)
    also have "\<dots> = Fin 1" using pos f64_of_rat_Fin [of 1] by simp
    finally show ?thesis
      using length_penalty_unit(2) [OF tg len(2) eq(3)] f64_mul_one
      by (simp only: heuristic_score_def Let_def)
  qed
  from zero one show ?thesis by blast
qed

lemma ex_tokens:
  "token_set ascii_tables (str ''Go SQL'') = [str ''sql'', str ''go'']"
  "token_set ascii_tables (str ''sql, go!'') = [str ''go'', str ''sql'']"
  by (simp_all add: token_set_def runes_def segs_step segs.simps ascii_tables_def flush_def encode_rune_def valid_rune_def)

theorem heuristic_score_ends_witness:
  "heuristic_score ascii_tables (norm_target 60) (token_set ascii_tables (str ''Go SQL'')) (str ''sql, go!'') = Fin 1"
  using heuristic_score_ends [of "str ''Go SQL''" "str ''sql, go!''" 60 ascii_tables]
  by (simp add: ex_tokens small_def norm_target_def insert_commute del: str_Cons)

text \<open>The cross-encoder reranker answers exactly when the sidecar replied 200 with a body that
  decodes to one score per candidate (or when there is nothing to rank, without a request); the answer
  is then the best of the candidates by those scores.\<close>

theorem cross_rerank_answers:
  assumes "cs \<noteq> []" "json_numbers decode"
  shows "case cross_rerank send decode q cs n of
      Inl e \<Rightarrow> \<not> (\<exists>body xs. send q (map snippet cs) = Response 200 body \<and> decode body = Inr xs \<and> length xs = length cs)
    | Inr out \<Rightarrow> \<exists>body xs rest. send q (map snippet cs) = Response 200 body \<and> decode body = Inr xs
        \<and> length xs = length cs
        \<and> mset (out @ rest) = mset (map2 (\<lambda>c x. \<lparr>cand = c, rerank_score = x\<rparr>) cs xs)
        \<and> sorted_wrt (\<lambda>a b. \<not> scored_less b a) (out @ rest) \<and> length out = limit n (length cs)"
proof (cases "cross_rerank send decode q cs n")
  case (Inl e)
  then show ?thesis using assms(1)
    by (auto simp: cross_rerank_def Let_def read_reply_def status_ok_def)
next
  case (Inr out)
  from cross_rerank_Inr [OF Inr assms(1)] obtain body xs where s: "send q (map snippet cs) = Response 200 body" "decode body = Inr xs"
    "length xs = length cs"
    "out = cut (norm_top n cs) (sort_by scored_less (map2 (\<lambda>c x. \<lparr>cand = c, rerank_score = x\<rparr>) cs xs))"
    by blast
  let ?s = "sort_by scored_less (map2 (\<lambda>c x. \<lparr>cand = c, rerank_score = x\<rparr>) cs xs)"
  have "NaN \<notin> set xs" using assms(2) s(2) by (auto simp: json_numbers_def)
  then have "set (map2 (\<lambda>c x. \<lparr>cand = c, rerank_score = x\<rparr>) cs xs) \<subseteq> {s. real_score s}"
    by (auto simp: real_score_def dest: set_zip_rightD)
  from rr.sorted_sort_by [OF this] have "sorted_wrt (\<lambda>a b. \<not> scored_less b a) ?s" .
  moreover have "out = take (nat (norm_top n cs)) ?s" by (simp add: s(4) cut_sort)
  moreover have "length out = limit n (length cs)" using cross.fills [OF Inr] .
  moreover have app: "out @ drop (nat (norm_top n cs)) ?s = ?s" using calculation(2) by simp
  ultimately have "mset (out @ drop (nat (norm_top n cs)) ?s) = mset (map2 (\<lambda>c x. \<lparr>cand = c, rerank_score = x\<rparr>) cs xs)
      \<and> sorted_wrt (\<lambda>a b. \<not> scored_less b a) (out @ drop (nat (norm_top n cs)) ?s)
      \<and> length out = limit n (length cs)"
    by (simp only: app mset_sort_by simp_thms)
  with s(1-3) show ?thesis unfolding Inr sum.case by blast
qed

theorem cross_rerank_answers_witness:
  "\<exists>out. cross_rerank (\<lambda>q ps. Response 200 []) (\<lambda>b. Inr [Fin 1]) (str ''q'') [ex_cand 0 ''b''] 3 = Inr out
      \<and> length out = 1"
  using cross_rerank_answers [of "[ex_cand 0 ''b'']" "\<lambda>b. Inr [Fin 1]" "\<lambda>q ps. Response 200 []" "str ''q''" 3]
  by (auto simp: json_numbers_def limit_def split: sum.splits)

text \<open>Every token is a non-empty sequence of lower-cased letters and digits of the text, and a
  text without letters and digits has none.\<close>

theorem token_set_tokens:
  "list_all (\<lambda>t. \<exists>rs. rs \<noteq> [] \<and> t = of_runes (map (to_lower u) rs)
      \<and> list_all (\<lambda>r. r \<in> set (runes s) \<and> (is_letter u r \<or> is_digit u r)) rs) (token_set u s)"
proof -
  define tok where "tok = (\<lambda>t. \<exists>rs. rs \<noteq> [] \<and> t = of_runes (map (to_lower u) rs)
      \<and> list_all (\<lambda>r. r \<in> set (runes s) \<and> (is_letter u r \<or> is_digit u r)) rs)"
  have fl: "list_all tok (flush b out)" if "b = [] \<or> tok b" "list_all tok out" for b out
    using that by (auto simp: flush_def List.insert_def)
  have "list_all tok (token_loop u rs b out)"
    if "set rs \<subseteq> set (runes s)" "b = [] \<or> tok b" "list_all tok out" for rs b out
    using that
  proof (induction rs arbitrary: b out)
    case Nil
    then show ?case using fl by simp
  next
    case (Cons r rs)
    show ?case
    proof (cases "is_letter u r \<or> is_digit u r")
      case True
      have "tok (b @ encode_rune (to_lower u r))"
      proof (cases "b = []")
        case True
        have "of_runes (map (to_lower u) [r]) = encode_rune (to_lower u r)" by simp
        then show ?thesis using Cons.prems(1) \<open>is_letter u r \<or> is_digit u r\<close> True
          unfolding tok_def by (intro exI [of _ "[r]"]) simp
      next
        case False
        then obtain rs' where rs': "b = of_runes (map (to_lower u) rs')"
          "list_all (\<lambda>r. r \<in> set (runes s) \<and> (is_letter u r \<or> is_digit u r)) rs'"
          using Cons.prems(2) by (auto simp: tok_def)
        then show ?thesis using Cons.prems(1) True
          unfolding tok_def by (intro exI [of _ "rs' @ [r]"]) simp
      qed
      with Cons True show ?thesis by simp
    next
      case False
      then show ?thesis using Cons.prems fl [OF Cons.prems(2,3)]
        by (simp only: token_loop.simps if_False) (rule Cons.IH; simp)
    qed
  qed
  then show ?thesis by (simp add: token_set_def tok_def)
qed

end
