(* ===== verification/Sanitize.thy ===== *)
theory Sanitize
  imports Utf8
begin

text \<open>
  \<open>internal/search/sanitize.go\<close>: \<open>SanitizeBM25Query\<close> and \<open>isZeroWidth\<close>. The lemmas describe the
  output as a clean rune sequence (kept runes separated by single spaces), from which validity,
  the absence of NUL, the fixed-point property and the exact length bound follow.
\<close>

section \<open>The code\<close>

definition max_query_runes :: nat where
  "max_query_runes = 4096"

definition is_zero_width :: "rune \<Rightarrow> bool" where
  "is_zero_width r \<longleftrightarrow>
     r = 0xFEFF \<or> r = 0x200B \<or> r = 0x200C \<or> r = 0x200D \<or> r = 0xAD \<or> r = 0x2060 \<or> r = 0x180E
     \<or> (0x200E \<le> r \<and> r \<le> 0x200F) \<or> (0x202A \<le> r \<and> r \<le> 0x202E) \<or> (0x2066 \<le> r \<and> r \<le> 0x2069)"

text \<open>The loop: the segments still to read, the builder, the count \<open>runes\<close>, and \<open>prevSpace\<close>.\<close>

fun sanitize_loop :: "(rune \<times> gostring) list \<Rightarrow> gostring \<Rightarrow> nat \<Rightarrow> bool \<Rightarrow> gostring" where
  "sanitize_loop [] b n prev_space = b"
| "sanitize_loop ((r, bs) # rest) b n prev_space =
     (if r = rune_error \<and> length bs = 1 then
        (if \<not> prev_space then sanitize_loop rest (b @ [0x20]) (Suc n) True
         else sanitize_loop rest b n prev_space)
      else if r = 0 \<or> (is_control r \<and> \<not> is_space r) then sanitize_loop rest b n prev_space
      else if is_zero_width r then sanitize_loop rest b n prev_space
      else if is_space r then
        (if \<not> prev_space then sanitize_loop rest (b @ [0x20]) (Suc n) True
         else sanitize_loop rest b n prev_space)
      else if max_query_runes \<le> Suc n then b @ encode_rune r
      else sanitize_loop rest (b @ encode_rune r) (Suc n) False)"

definition sanitize_bm25_query :: "gostring \<Rightarrow> gostring" where
  "sanitize_bm25_query q =
     (if q = [] then [] else trim_right_sp (sanitize_loop (segs q) [] 0 True))"

section \<open>The runes written\<close>

text \<open>What the loop appends, as runes.\<close>

fun written :: "(rune \<times> gostring) list \<Rightarrow> nat \<Rightarrow> bool \<Rightarrow> rune list" where
  "written [] n prev_space = []"
| "written ((r, bs) # rest) n prev_space =
     (if r = rune_error \<and> length bs = 1 \<or> \<not> (r = 0 \<or> (is_control r \<and> \<not> is_space r)) \<and> \<not> is_zero_width r \<and> is_space r
      then (if prev_space then written rest n True else 0x20 # written rest (Suc n) True)
      else if r = 0 \<or> (is_control r \<and> \<not> is_space r) \<or> is_zero_width r then written rest n prev_space
      else r # (if max_query_runes \<le> Suc n then [] else written rest (Suc n) False))"

lemma encode_space: "encode_rune 0x20 = [0x20]"
  by (simp add: encode_rune_def)

lemma sanitize_loop_written: "sanitize_loop ss b n prev = b @ of_runes (written ss n prev)"
  by (induction ss b n prev rule: sanitize_loop.induct) (auto simp: encode_space)

text \<open>A rune the sanitiser keeps, and a sequence it leaves as it is.\<close>

definition kept :: "rune \<Rightarrow> bool" where
  "kept r \<longleftrightarrow> valid_rune r \<and> \<not> is_control r \<and> \<not> is_zero_width r \<and> \<not> is_space r"

fun clean_from :: "nat \<Rightarrow> bool \<Rightarrow> rune list \<Rightarrow> bool" where
  "clean_from n prev [] = True"
| "clean_from n prev (r # rs) =
     (if r = 0x20 then \<not> prev \<and> clean_from (Suc n) True rs
      else kept r \<and> (if max_query_runes \<le> Suc n then rs = [] else clean_from (Suc n) False rs))"

lemma kept_not_space: "kept r \<Longrightarrow> r \<noteq> 0x20 \<and> r \<noteq> 0"
  by (auto simp: kept_def is_space_def is_control_def)

lemma written_clean:
  "list_all (\<lambda>(r, bs). r = rune_error \<and> length bs = 1 \<or> valid_rune r) ss \<Longrightarrow> clean_from n prev (written ss n prev)"
proof (induction ss n prev rule: written.induct)
  case IH: (2 r bs rest n prev)
  let ?drop = "r = 0 \<or> (is_control r \<and> \<not> is_space r)"
  consider "r = rune_error \<and> length bs = 1 \<or> \<not> ?drop \<and> \<not> is_zero_width r \<and> is_space r"
    | "\<not> (r = rune_error \<and> length bs = 1 \<or> \<not> ?drop \<and> \<not> is_zero_width r \<and> is_space r)"
      "?drop \<or> is_zero_width r"
    | "\<not> (r = rune_error \<and> length bs = 1)" "\<not> ?drop" "\<not> is_zero_width r" "\<not> is_space r"
    by blast
  then show ?case
  proof cases
    case 1
    with IH show ?thesis by simp
  next
    case 2
    with IH show ?thesis by simp
  next
    case 3
    then have "kept r" using IH.prems by (auto simp: kept_def)
    with IH 3 kept_not_space [of r] show ?thesis by simp
  qed
qed simp

lemma segs_good: "list_all (\<lambda>(r, bs). r = rune_error \<and> length bs = 1 \<or> valid_rune r) (segs s)"
  using segs_sound [of _ _ s] by (fastforce simp: list_all_iff)

lemma clean_prefix: "clean_from n prev (xs @ ys) \<Longrightarrow> clean_from n prev xs"
  by (induction n prev xs rule: clean_from.induct) (auto split: if_splits)

lemma clean_runes: "clean_from n prev rs \<Longrightarrow> list_all (\<lambda>r. r = 0x20 \<or> kept r) rs"
  by (induction n prev rs rule: clean_from.induct) (auto split: if_splits)

lemma clean_from_valid: "clean_from n prev rs \<Longrightarrow> list_all valid_rune rs"
  using clean_runes [of n prev rs] by (auto simp: list_all_iff kept_def valid_rune_def)

lemma clean_rewritten: "clean_from n prev rs \<Longrightarrow> written (map (\<lambda>r. (r, encode_rune r)) rs) n prev = rs"
proof (induction n prev rs rule: clean_from.induct)
  case (2 n prev r rs)
  show ?case
  proof (cases "r = 0x20")
    case True
    with 2 show ?thesis by (simp add: is_space_def is_control_def is_zero_width_def)
  next
    case False
    with "2.prems" have k: "kept r" by simp
    have "\<not> (r = rune_error \<and> length (encode_rune r) = 1)"
      by (auto simp: encode_rune_error)
    with False k 2 kept_not_space [OF k] show ?thesis by (auto simp: kept_def)
  qed
qed simp

lemma clean_length: "clean_from n prev rs \<Longrightarrow> n < max_query_runes \<or> n = max_query_runes \<and> prev \<Longrightarrow>
  n + length rs \<le> max_query_runes + 1"
proof (induction n prev rs rule: clean_from.induct)
  case (2 n prev r rs)
  show ?case
  proof (cases "r = 0x20")
    case True
    with 2 show ?thesis by fastforce
  next
    case False
    with 2 show ?thesis by (auto split: if_splits)
  qed
qed auto

section \<open>Cutting the trailing space\<close>

lemma last_encode_rune: "last (encode_rune r) = 0x20 \<longleftrightarrow> r = 0x20"
proof -
  have big: "(of_nat (0x80 + m) :: byte) \<noteq> 0x20" if "m < 64" for m
  proof
    assume "(of_nat (0x80 + m) :: byte) = 0x20"
    then have "unat (of_nat (0x80 + m) :: byte) = unat (0x20 :: byte)" by (rule arg_cong)
    then show False using that by (simp del: of_nat_add)
  qed
  have small: "(of_nat r :: byte) = 0x20 \<longleftrightarrow> r = 0x20" if "r \<le> 0x7F"
  proof
    assume "(of_nat r :: byte) = 0x20"
    then have "unat (of_nat r :: byte) = 0x20" by simp
    then show "r = 0x20" using that by simp
  qed simp
  show ?thesis
    using small big [of "r mod 64"] by (simp add: encode_rune_def del: of_nat_add)
qed

lemma trim_right_snoc:
  "trim_right_sp (of_runes (rs @ [r])) = (if r = 0x20 then trim_right_sp (of_runes rs) else of_runes (rs @ [r]))"
proof (cases "r = 0x20")
  case True
  then show ?thesis by (simp add: trim_right_sp_def encode_space)
next
  case False
  obtain b bs where b: "rev (encode_rune r) = b # bs"
    by (metis encode_rune_nonempty neq_Nil_conv rev_is_Nil_conv)
  then have "last (encode_rune r) = b" by (metis hd_rev list.sel(1))
  then have "b \<noteq> 0x20" using False last_encode_rune by auto
  then have "dropWhile (\<lambda>b. b = 0x20) (rev (encode_rune r) @ rev (of_runes rs)) = rev (encode_rune r) @ rev (of_runes rs)"
    by (simp add: b)
  then have "trim_right_sp (of_runes (rs @ [r])) = of_runes (rs @ [r])"
    by (simp add: trim_right_sp_def)
  with False show ?thesis by simp
qed

lemma trim_right_runes: "\<exists>k. trim_right_sp (of_runes rs) = of_runes (take k rs)
    \<and> (take k rs = [] \<or> last (take k rs) \<noteq> 0x20)"
proof (induction rs rule: rev_induct)
  case Nil
  then show ?case by (simp add: trim_right_sp_def)
next
  case (snoc r rs)
  show ?case
  proof (cases "r = 0x20")
    case True
    from snoc obtain k where "trim_right_sp (of_runes rs) = of_runes (take k rs)"
      "take k rs = [] \<or> last (take k rs) \<noteq> 0x20" by blast
    moreover have "take (min k (length rs)) (rs @ [r]) = take k rs" by (cases "k \<le> length rs") auto
    ultimately show ?thesis using True
      by (intro exI [of _ "min k (length rs)"]) (simp add: trim_right_snoc del: of_runes_simps(3))
  next
    case False
    then show ?thesis
      by (intro exI [of _ "Suc (length rs)"]) (auto simp: trim_right_snoc simp del: of_runes_simps(3))
  qed
qed

text \<open>The output as a clean sequence without a trailing space.\<close>

lemma sanitize_clean:
  obtains rs where "sanitize_bm25_query q = of_runes rs" "clean_from 0 True rs" "rs = [] \<or> last rs \<noteq> 0x20"
proof (cases "q = []")
  case True
  then show ?thesis using that [of "[]"] by (simp add: sanitize_bm25_query_def)
next
  case False
  let ?w = "written (segs q) 0 True"
  obtain k where k: "trim_right_sp (of_runes ?w) = of_runes (take k ?w)"
      "take k ?w = [] \<or> last (take k ?w) \<noteq> 0x20"
    using trim_right_runes by blast
  have "clean_from 0 True ?w" using segs_good by (rule written_clean)
  then have "clean_from 0 True (take k ?w)" by (metis append_take_drop_id clean_prefix)
  then show ?thesis
    using False k by (intro that [of "take k ?w"]) (simp_all add: sanitize_bm25_query_def sanitize_loop_written)
qed

lemma sanitize_fixpoint:
  assumes "clean_from 0 True rs" "rs = [] \<or> last rs \<noteq> 0x20"
  shows "sanitize_bm25_query (of_runes rs) = of_runes rs"
proof -
  have "trim_right_sp (of_runes rs) = of_runes rs"
  proof (cases rs rule: rev_cases)
    case Nil
    then show ?thesis by (simp add: trim_right_sp_def)
  next
    case (snoc ys y)
    with assms(2) show ?thesis by (simp add: trim_right_snoc del: of_runes_simps(3))
  qed
  then show ?thesis
    using assms(1) clean_from_valid [OF assms(1)] clean_rewritten [OF assms(1)]
    by (simp add: sanitize_bm25_query_def sanitize_loop_written segs_of_runes)
qed

section \<open>Properties\<close>

text \<open>
  C26. Whatever bytes come in, the sanitised query is valid UTF-8 and every rune of it is a single
  space or a rune that is no control, no white space and no zero-width mark: NUL never gets through. It is
  a fixed point: a second pass changes nothing.
\<close>

theorem sanitize_output:
  "valid_utf8 (sanitize_bm25_query q)
   \<and> list_all (\<lambda>r. r = 0x20 \<or> kept r) (runes (sanitize_bm25_query q))
   \<and> 0 \<notin> set (runes (sanitize_bm25_query q))
   \<and> sanitize_bm25_query (sanitize_bm25_query q) = sanitize_bm25_query q"
proof -
  obtain rs where rs: "sanitize_bm25_query q = of_runes rs" "clean_from 0 True rs"
    by (rule sanitize_clean)
  have c: "list_all (\<lambda>r. r = 0x20 \<or> kept r) rs" using rs(2) by (rule clean_runes)
  moreover have "0 \<notin> set rs" using c kept_not_space [of 0] by (auto simp: list_all_iff)
  moreover have "sanitize_bm25_query (sanitize_bm25_query q) = sanitize_bm25_query q"
    by (metis sanitize_clean sanitize_fixpoint)
  ultimately show ?thesis using rs clean_from_valid [OF rs(2)] by simp
qed

lemma overlong_clean:
  "n + k = 4095 \<Longrightarrow> 0 < k \<or> \<not> prev \<Longrightarrow> clean_from n prev (replicate k 0x61 @ [0x20, 0x61])"
proof (induction k arbitrary: n prev)
  case 0
  then show ?case
    by (simp add: kept_def valid_rune_def is_control_def is_zero_width_def is_space_def max_query_runes_def)
next
  case (Suc k)
  then show ?case
    by (simp add: kept_def valid_rune_def is_control_def is_zero_width_def is_space_def max_query_runes_def)
qed

text \<open>
  C27. The output has at most \<open>MaxQueryRunes + 1\<close> runes, and this bound is reached: 4095 letters, a
  space and a letter come out whole, one rune over \<open>MaxQueryRunes\<close>, because the space is counted
  without the limit being checked.
\<close>

theorem sanitize_length_bound:
  "length (runes (sanitize_bm25_query q)) \<le> max_query_runes + 1
   \<and> length (runes (sanitize_bm25_query (of_runes (replicate 4095 0x61 @ [0x20, 0x61])))) = max_query_runes + 1"
proof -
  obtain rs where rs: "sanitize_bm25_query q = of_runes rs" "clean_from 0 True rs"
    by (rule sanitize_clean)
  have "length (runes (sanitize_bm25_query q)) \<le> max_query_runes + 1"
    using rs clean_from_valid [OF rs(2)] clean_length [OF rs(2)] by (simp add: max_query_runes_def)
  moreover have c: "clean_from 0 True (replicate 4095 0x61 @ [0x20, 0x61])" by (rule overlong_clean) simp_all
  then have "sanitize_bm25_query (of_runes (replicate 4095 0x61 @ [0x20, 0x61])) = of_runes (replicate 4095 0x61 @ [0x20, 0x61])"
    by (rule sanitize_fixpoint) simp
  ultimately show ?thesis
    using runes_of_runes [OF clean_from_valid [OF c]] by (simp add: max_query_runes_def)
qed

end
