(* ===== verification/Store.thy ===== *)
theory Store
  imports Decimal "HOL-Library.Product_Lexorder"
begin

text \<open>
  \<open>internal/store\<close>: the three tables of \<open>migrations/\<close> as lists of rows, and every operation of
  \<open>Store\<close> as a function from the tables to its result and the tables after it. The SQL statements are
  written out on the rows. What the database decides is an argument: generated ids, \<open>now()\<close>, the order
  of rows that the \<open>ORDER BY\<close> leaves open, the text search and vector functions, and for every round
  trip whether it fails. A failing commit may or may not have taken place.
\<close>

section \<open>Tables\<close>

record doc =
  d_id :: uuid
  d_source :: gostring
  d_title :: gostring
  d_body :: gostring
  d_hash :: gostring
  d_created :: time
  d_deleted :: "time option"

record chunk_row =
  c_id :: uuid
  c_doc :: uuid
  c_index :: int
  c_text :: gostring
  c_embedding :: gostring

record tomb =
  t_id :: uuid
  t_doc :: uuid
  t_deleted :: time
  t_compacted :: "time option"

record db =
  docs :: "doc list"
  chunks :: "chunk_row list"
  tombs :: "tomb list"

text \<open>What the callers pass in: a \<open>store.Doc\<close> and \<open>store.Chunk\<close>s without the generated columns. A
  \<open>float32\<close> is the 64-bit float the code converts it to.\<close>

record new_doc =
  n_source :: gostring
  n_title :: gostring
  n_body :: gostring
  n_hash :: gostring

record new_chunk =
  n_index :: int
  n_text :: gostring
  n_embedding :: "f64 list"

record db_hit =
  hit_doc :: uuid
  hit_chunk :: uuid
  hit_index :: int
  hit_text :: gostring
  hit_score :: f64

section \<open>Round trips to the database\<close>

datatype fault = NoFault | Fails go_error | Lost go_error

text \<open>A statement: its result, unless the round trip fails. A query that finds no row is \<open>ErrNoRows\<close>,
  which only the tables decide.\<close>

definition call :: "fault \<Rightarrow> go_error + 'a \<Rightarrow> go_error + 'a" where
  "call f r = (case f of NoFault \<Rightarrow> r | Fails e \<Rightarrow> Inl e | Lost e \<Rightarrow> Inl e)"

text \<open>A commit: the tables afterwards, and whether the caller learns of it.\<close>

definition commit :: "fault \<Rightarrow> db \<Rightarrow> db \<Rightarrow> go_error option \<times> db" where
  "commit f before after = (case f of NoFault \<Rightarrow> (None, after) | Fails e \<Rightarrow> (Some e, before) | Lost e \<Rightarrow> (Some e, after))"

definition translate_no_rows :: "go_error \<Rightarrow> go_error" where
  "translate_no_rows e = (if err_is e ErrNoRows then ErrNotFound else e)"

section \<open>The vector text form\<close>

text \<open>\<open>strconv.FormatFloat(x, 'f', 6, 32)\<close>: the value in millionths, rounded to the nearest and to even.\<close>

fun format_float6 :: "f64 \<Rightarrow> gostring" where
  "format_float6 NaN = str ''NaN''"
| "format_float6 PInf = str ''+Inf''"
| "format_float6 MInf = str ''-Inf''"
| "format_float6 (Fin q) =
     (let n = nat (rne (\<bar>q\<bar> * 1000000))
      in (if q < 0 then str ''-'' else []) @ dec_nat (n div 1000000) @ str ''.'' @ pad_dec 6 (n mod 1000000))"

fun vector_loop :: "nat \<Rightarrow> f64 list \<Rightarrow> gostring" where
  "vector_loop i [] = []"
| "vector_loop i (x # xs) = (if 0 < i then str '','' else []) @ format_float6 x @ vector_loop (Suc i) xs"

definition format_vector :: "f64 list \<Rightarrow> gostring" where
  "format_vector v = (if v = [] then str ''[]'' else str ''['' @ vector_loop 0 v @ str '']'')"

section \<open>UpsertDoc\<close>

definition doc_by_hash :: "db \<Rightarrow> gostring \<Rightarrow> doc option" where
  "doc_by_hash db h = find (\<lambda>d. d_hash d = h) (docs db)"

definition doc_by_id :: "db \<Rightarrow> uuid \<Rightarrow> doc option" where
  "doc_by_id db i = find (\<lambda>d. d_id d = i) (docs db)"

definition chunks_of :: "db \<Rightarrow> uuid \<Rightarrow> chunk_row list" where
  "chunks_of db i = filter (\<lambda>c. c_doc c = i) (chunks db)"

definition duplicate_key :: go_error where
  "duplicate_key = Plain (str ''duplicate key value violates unique constraint'')"

text \<open>\<open>INSERT INTO docs ... ON CONFLICT (content_hash) DO NOTHING RETURNING id\<close>.\<close>

definition insert_doc :: "uuid \<Rightarrow> time \<Rightarrow> new_doc \<Rightarrow> db \<Rightarrow> go_error + uuid \<times> db" where
  "insert_doc i now d db =
     (if doc_by_hash db (n_hash d) \<noteq> None then Inl ErrNoRows
      else if doc_by_id db i \<noteq> None then Inl duplicate_key
      else Inr (i, db\<lparr>docs := docs db @ [\<lparr>d_id = i, d_source = n_source d, d_title = n_title d,
             d_body = n_body d, d_hash = n_hash d, d_created = now, d_deleted = None\<rparr>]\<rparr>))"

text \<open>\<open>insertChunks\<close>: one multi-row insert, all rows or none; \<open>is\<close> are the generated ids.\<close>

definition chunk_rows :: "uuid list \<Rightarrow> uuid \<Rightarrow> new_chunk list \<Rightarrow> chunk_row list" where
  "chunk_rows is i cs = map2 (\<lambda>j c. \<lparr>c_id = j, c_doc = i, c_index = n_index c, c_text = n_text c,
       c_embedding = format_vector (n_embedding c)\<rparr>) is cs"

definition chunk_keys_free :: "chunk_row list \<Rightarrow> bool" where
  "chunk_keys_free rows \<longleftrightarrow> distinct (map c_id rows) \<and> distinct (map (\<lambda>c. (c_doc c, c_index c)) rows)"

definition insert_chunks :: "fault \<Rightarrow> uuid list \<Rightarrow> uuid \<Rightarrow> new_chunk list \<Rightarrow> db \<Rightarrow> go_error + db" where
  "insert_chunks f is i cs db =
     (if cs = [] then Inr db
      else wrap_err (str ''insert chunks'') (call f
        (let rows = chunks db @ chunk_rows is i cs
         in if chunk_keys_free rows then Inr (db\<lparr>chunks := rows\<rparr>) else Inl duplicate_key)))"

text \<open>The statement \<open>insertChunks\<close> sends: one tuple of four placeholders for each chunk, and the arguments in the order of
  their numbers. \<open>rows_of\<close> is what the database makes of the arguments.\<close>

datatype sql_arg = Arg_uuid uuid | Arg_int int | Arg_text gostring

fun insert_args :: "uuid \<Rightarrow> new_chunk list \<Rightarrow> sql_arg list" where
  "insert_args i [] = []"
| "insert_args i (c # cs) =
     [Arg_uuid i, Arg_int (n_index c), Arg_text (n_text c), Arg_text (format_vector (n_embedding c))] @ insert_args i cs"

fun insert_values :: "nat \<Rightarrow> new_chunk list \<Rightarrow> gostring" where
  "insert_values k [] = []"
| "insert_values k (c # cs) =
     (if 0 < k then str '','' else [])
     @ str ''($'' @ dec_nat (k * 4 + 1) @ str '',$'' @ dec_nat (k * 4 + 2) @ str '',$'' @ dec_nat (k * 4 + 3) @ str '',$''
     @ dec_nat (k * 4 + 4) @ str ''::vector)'' @ insert_values (Suc k) cs"

definition insert_sql :: "new_chunk list \<Rightarrow> gostring" where
  "insert_sql cs = str ''INSERT INTO doc_chunks (doc_id, chunk_index, text, embedding) VALUES '' @ insert_values 0 cs"

fun rows_of :: "uuid list \<Rightarrow> sql_arg list \<Rightarrow> chunk_row list" where
  "rows_of (j # is) (Arg_uuid i # Arg_int n # Arg_text t # Arg_text v # args) =
     \<lparr>c_id = j, c_doc = i, c_index = n, c_text = t, c_embedding = v\<rparr> # rows_of is args"
| "rows_of _ _ = []"

lemma rows_of_args: "rows_of is (insert_args i cs) = chunk_rows is i cs"
proof (induction cs arbitrary: "is")
  case (Cons c cs)
  then show ?case by (cases "is") (simp_all add: chunk_rows_def)
qed (simp add: chunk_rows_def)

text \<open>The protocol counts the arguments of a statement with 16 bits: with more than 16383 chunks it is never sent, and
  the round trip fails.\<close>

lemma length_insert_args: "length (insert_args i cs) = 4 * length cs"
  by (induction cs) simp_all

text \<open>
  \<open>UpsertDoc\<close>. The round trips are numbered: 0 begin, 1 the insert, 2 the chunks, 3 the commit; on a
  conflict 4 the lookup by hash, 5 the count and 6 the commit. Every early return rolls back.
\<close>

definition upsert_doc ::
  "(nat \<Rightarrow> fault) \<Rightarrow> uuid \<Rightarrow> uuid list \<Rightarrow> time \<Rightarrow> new_doc \<Rightarrow> new_chunk list \<Rightarrow> db
     \<Rightarrow> (go_error + uuid \<times> nat \<times> bool) \<times> db" where
  "upsert_doc f i is now d cs db =
     (case call (f 0) (Inr ()) of Inl e \<Rightarrow> (Inl e, db) | Inr _ \<Rightarrow>
      case call (f 1) (insert_doc i now d db) of
        Inr (di, tx) \<Rightarrow>
          (case insert_chunks (f 2) is di cs tx of
             Inl e \<Rightarrow> (Inl e, db)
           | Inr tx \<Rightarrow>
               (case commit (f 3) db tx of
                  (Some e, db') \<Rightarrow> (Inl e, db')
                | (None, db') \<Rightarrow> (Inr (di, length cs, False), db')))
      | Inl e \<Rightarrow>
          if e \<noteq> ErrNoRows then (Inl e, db)
          else
            (case wrap_err (str ''lookup existing'') (call (f 4)
                    (case doc_by_hash db (n_hash d) of None \<Rightarrow> Inl ErrNoRows | Some x \<Rightarrow> Inr (d_id x))) of
               Inl e \<Rightarrow> (Inl e, db)
             | Inr di \<Rightarrow>
                 (case call (f 5) (Inr (length (chunks_of db di))) of
                    Inl e \<Rightarrow> (Inl e, db)
                  | Inr n \<Rightarrow>
                      (case commit (f 6) db db of
                         (Some e, db') \<Rightarrow> (Inl e, db')
                       | (None, db') \<Rightarrow> (Inr (di, n, True), db')))))"

section \<open>DeleteDoc\<close>

definition mark_deleted :: "uuid \<Rightarrow> time \<Rightarrow> db \<Rightarrow> db" where
  "mark_deleted i now db =
     db\<lparr>docs := map (\<lambda>d. if d_id d = i then d\<lparr>d_deleted := Some now\<rparr> else d) (docs db)\<rparr>"

definition insert_tomb :: "uuid \<Rightarrow> uuid \<Rightarrow> time \<Rightarrow> db \<Rightarrow> go_error + db" where
  "insert_tomb ti i now db =
     (if i \<in> t_doc ` set (tombs db) then Inr db
      else if ti \<in> t_id ` set (tombs db) then Inl duplicate_key
      else Inr (db\<lparr>tombs := tombs db @ [\<lparr>t_id = ti, t_doc = i, t_deleted = now, t_compacted = None\<rparr>]\<rparr>))"

text \<open>\<open>DeleteDoc\<close>. Round trips: 0 begin, 1 the select for update, 2 the update, 3 the tombstone, 4 the commit.\<close>

definition delete_doc :: "(nat \<Rightarrow> fault) \<Rightarrow> uuid \<Rightarrow> time \<Rightarrow> uuid \<Rightarrow> db \<Rightarrow> go_error option \<times> db" where
  "delete_doc f ti now i db =
     (case call (f 0) (Inr ()) of Inl e \<Rightarrow> (Some e, db) | Inr _ \<Rightarrow>
      case call (f 1) (case doc_by_id db i of None \<Rightarrow> Inl ErrNoRows | Some d \<Rightarrow> Inr (d_deleted d)) of
        Inl e \<Rightarrow> (Some (translate_no_rows e), db)
      | Inr (Some _) \<Rightarrow> (Some ErrNotFound, db)
      | Inr None \<Rightarrow>
          (case call (f 2) (Inr (mark_deleted i now db)) of
             Inl e \<Rightarrow> (Some (Wrapped (str ''mark deleted'') e), db)
           | Inr tx \<Rightarrow>
               (case call (f 3) (insert_tomb ti i now tx) of
                  Inl e \<Rightarrow> (Some (Wrapped (str ''tombstone'') e), db)
                | Inr tx \<Rightarrow> commit (f 4) db tx)))"

section \<open>Compact\<close>

record compact_result =
  res_tombs :: nat
  res_chunks :: nat

definition is_deleted :: "db \<Rightarrow> uuid \<Rightarrow> bool" where
  "is_deleted db i = (case doc_by_id db i of None \<Rightarrow> False | Some d \<Rightarrow> d_deleted d \<noteq> None)"

definition pending :: "db \<Rightarrow> tomb list" where
  "pending db = filter (\<lambda>t. t_compacted t = None \<and> is_deleted db (t_doc t)) (tombs db)"

text \<open>The scan: the oldest pending tombstone; \<open>sh\<close> is the order in which the database meets the rows.\<close>

definition next_tomb :: "(tomb list \<Rightarrow> tomb list) \<Rightarrow> db \<Rightarrow> go_error + uuid \<times> uuid" where
  "next_tomb sh db =
     (case sort_by (\<lambda>a b. t_deleted a < t_deleted b) (sh (pending db)) of
        [] \<Rightarrow> Inl ErrNoRows
      | t # _ \<Rightarrow> Inr (t_id t, t_doc t))"

definition delete_chunks :: "uuid \<Rightarrow> db \<Rightarrow> nat \<times> db" where
  "delete_chunks i db =
     (length (chunks_of db i), db\<lparr>chunks := filter (\<lambda>c. c_doc c \<noteq> i) (chunks db)\<rparr>)"

definition mark_compacted :: "uuid \<Rightarrow> time \<Rightarrow> db \<Rightarrow> db" where
  "mark_compacted ti now db =
     db\<lparr>tombs := map (\<lambda>t. if t_id t = ti then t\<lparr>t_compacted := Some now\<rparr> else t) (tombs db)\<rparr>"

text \<open>One tombstone's transaction. Round trips: 1 begin, 2 the chunks, 3 the mark, 4 the commit.\<close>

definition compact_one ::
  "(nat \<Rightarrow> fault) \<Rightarrow> time \<Rightarrow> uuid \<Rightarrow> uuid \<Rightarrow> db \<Rightarrow> (go_error + nat) \<times> db" where
  "compact_one f now ti i db =
     (case call (f 1) (Inr ()) of Inl e \<Rightarrow> (Inl e, db) | Inr _ \<Rightarrow>
      case wrap_err (str ''delete chunks'') (call (f 2) (Inr (delete_chunks i db))) of
        Inl e \<Rightarrow> (Inl e, db)
      | Inr (n, tx) \<Rightarrow>
          (case wrap_err (str ''mark compacted'') (call (f 3) (Inr (mark_compacted ti now tx))) of
             Inl e \<Rightarrow> (Inl e, db)
           | Inr tx \<Rightarrow>
               (case commit (f 4) db tx of
                  (Some e, db') \<Rightarrow> (Inl e, db')
                | (None, db') \<Rightarrow> (Inr n, db'))))"

text \<open>
  \<open>Compact\<close>: the loop, with the round trips of its \<open>k\<close>-th pass given by \<open>f k\<close>. It returns the partial
  result together with the error, as the code does. That it ends is a theorem.
\<close>

partial_function (option) compact_loop ::
  "(tomb list \<Rightarrow> tomb list) \<Rightarrow> (nat \<Rightarrow> nat \<Rightarrow> fault) \<Rightarrow> time \<Rightarrow> nat \<Rightarrow> compact_result \<Rightarrow> db
     \<Rightarrow> (compact_result \<times> go_error option \<times> db) option" where
  "compact_loop sh f now k res db =
     (case call (f k 0) (next_tomb sh db) of
        Inl e \<Rightarrow> if e = ErrNoRows then Some (res, None, db)
                 else Some (res, Some (Wrapped (str ''scan tombstones'') e), db)
      | Inr (ti, i) \<Rightarrow>
          (case compact_one (f k) now ti i db of
             (Inl e, db') \<Rightarrow> Some (res, Some e, db')
           | (Inr n, db') \<Rightarrow>
               compact_loop sh f now (Suc k)
                 (res\<lparr>res_tombs := res_tombs res + 1, res_chunks := res_chunks res + n\<rparr>) db'))"

definition compact ::
  "(tomb list \<Rightarrow> tomb list) \<Rightarrow> (nat \<Rightarrow> nat \<Rightarrow> fault) \<Rightarrow> time \<Rightarrow> int \<Rightarrow> db
     \<Rightarrow> (compact_result \<times> go_error option \<times> db) option" where
  "compact sh f now batch_size db = compact_loop sh f now 0 \<lparr>res_tombs = 0, res_chunks = 0\<rparr> db"

section \<open>Reads\<close>

definition get_doc :: "fault \<Rightarrow> uuid \<Rightarrow> db \<Rightarrow> go_error + doc" where
  "get_doc f i db =
     (case call f (case doc_by_id db i of None \<Rightarrow> Inl ErrNoRows | Some d \<Rightarrow> Inr d) of
        Inl e \<Rightarrow> Inl (translate_no_rows e)
      | Inr d \<Rightarrow> if d_deleted d \<noteq> None then Inl ErrNotFound else Inr d)"

definition doc_key :: "doc \<Rightarrow> time \<times> uuid" where
  "doc_key d = (d_created d, d_id d)"

definition newer :: "doc \<Rightarrow> doc \<Rightarrow> bool" where
  "newer a b \<longleftrightarrow> doc_key b < doc_key a"

definition norm_list_limit :: "int \<Rightarrow> int" where
  "norm_list_limit n = (if n \<le> 0 \<or> 200 < n then 50 else n)"

definition live :: "doc \<Rightarrow> bool" where
  "live d \<longleftrightarrow> d_deleted d = None"

text \<open>\<open>ListDocs\<close>: a nil id asks for the first page.\<close>

definition list_docs :: "fault \<Rightarrow> time \<Rightarrow> uuid \<Rightarrow> int \<Rightarrow> db \<Rightarrow> go_error + doc list" where
  "list_docs f after_created after_id limit db =
     (let limit = norm_list_limit limit;
          rows = filter live (docs db);
          rows = (if after_id = 0 then rows
                  else filter (\<lambda>d. doc_key d < (after_created, after_id)) rows)
      in call f (Inr (take (nat limit) (sort_by newer rows))))"

text \<open>
  What the full-text and the vector operators compute, and the order \<open>scan\<close> in which the rows come
  out of the index (the vector index is approximate: it may leave rows out).
\<close>

record pg =
  pg_matches :: "gostring \<Rightarrow> gostring \<Rightarrow> bool"
  pg_rank :: "gostring \<Rightarrow> gostring \<Rightarrow> f64"
  pg_distance :: "gostring \<Rightarrow> gostring \<Rightarrow> f64"
  pg_scan :: "chunk_row list \<Rightarrow> chunk_row list"

definition live_chunk :: "db \<Rightarrow> chunk_row \<Rightarrow> bool" where
  "live_chunk db c = (case doc_by_id db (c_doc c) of None \<Rightarrow> False | Some d \<Rightarrow> live d)"

definition norm_search_limit :: "int \<Rightarrow> int" where
  "norm_search_limit n = (if n \<le> 0 then 50 else n)"

definition hit_of :: "f64 \<Rightarrow> chunk_row \<Rightarrow> db_hit" where
  "hit_of x c = \<lparr>hit_doc = c_doc c, hit_chunk = c_id c, hit_index = c_index c, hit_text = c_text c, hit_score = x\<rparr>"

definition search_bm25 :: "pg \<Rightarrow> fault \<Rightarrow> gostring \<Rightarrow> int \<Rightarrow> db \<Rightarrow> go_error + db_hit list" where
  "search_bm25 g f q limit db =
     (let limit = norm_search_limit limit;
          rows = pg_scan g (filter (\<lambda>c. live_chunk db c \<and> pg_matches g q (c_text c)) (chunks db));
          hits = map (\<lambda>c. hit_of (pg_rank g q (c_text c)) c) rows
      in call f (Inr (take (nat limit) (sort_by (\<lambda>a b. f64_lt (hit_score b) (hit_score a)) hits))))"

text \<open>The column \<open>embedding\<close> admits NULL, which the only insert never writes: the query's test for it always holds.\<close>

definition search_vector :: "pg \<Rightarrow> fault \<Rightarrow> f64 list \<Rightarrow> int \<Rightarrow> db \<Rightarrow> go_error + db_hit list" where
  "search_vector g f qv limit db =
     (let limit = norm_search_limit limit;
          qt = format_vector qv;
          rows = pg_scan g (filter (live_chunk db) (chunks db));
          rows = sort_by (\<lambda>a b. f64_lt (pg_distance g (c_embedding a) qt) (pg_distance g (c_embedding b) qt)) rows
      in call f (Inr (map (\<lambda>c. hit_of (f64_sub (Fin 1) (pg_distance g (c_embedding c) qt)) c)
                          (take (nat limit) rows))))"

definition count_docs :: "fault \<Rightarrow> db \<Rightarrow> go_error + nat" where
  "count_docs f db = call f (Inr (length (docs db)))"

end
