(* ===== verification/Store_Laws.thy ===== *)
theory Store_Laws
  imports Store
begin

text \<open>
  The invariant of the tables, that every operation keeps it whatever round trip fails, the atomicity
  of the transactions, and what each operation does to the documents a client can see.
\<close>

section \<open>The invariant of the tables\<close>

definition db_ok :: "db \<Rightarrow> bool" where
  "db_ok db \<longleftrightarrow>
     distinct (map d_id (docs db)) \<and> distinct (map d_hash (docs db))
   \<and> chunk_keys_free (chunks db)
   \<and> list_all (\<lambda>c. c_doc c \<in> d_id ` set (docs db)) (chunks db)
   \<and> distinct (map t_id (tombs db)) \<and> distinct (map t_doc (tombs db))
   \<and> list_all (\<lambda>t. is_deleted db (t_doc t) \<and> (t_compacted t \<noteq> None \<longrightarrow> chunks_of db (t_doc t) = [])) (tombs db)
   \<and> list_all (\<lambda>d. \<not> live d \<longrightarrow> d_id d \<in> t_doc ` set (tombs db)) (docs db)"

definition empty_db :: db where
  "empty_db = \<lparr>docs = [], chunks = [], tombs = []\<rparr>"

lemma empty_db_ok [simp, inv_intros]: "db_ok empty_db"
  by (simp add: db_ok_def empty_db_def chunk_keys_free_def)

lemma db_okD:
  assumes "db_ok db"
  shows "distinct (map d_id (docs db))" "distinct (map d_hash (docs db))" "chunk_keys_free (chunks db)"
    "c \<in> set (chunks db) \<Longrightarrow> c_doc c \<in> d_id ` set (docs db)"
    "distinct (map t_id (tombs db))" "distinct (map t_doc (tombs db))"
    "t \<in> set (tombs db) \<Longrightarrow> is_deleted db (t_doc t)"
    "t \<in> set (tombs db) \<Longrightarrow> t_compacted t \<noteq> None \<Longrightarrow> chunks_of db (t_doc t) = []"
    "d \<in> set (docs db) \<Longrightarrow> \<not> live d \<Longrightarrow> d_id d \<in> t_doc ` set (tombs db)"
  using assms by (auto simp: db_ok_def list_all_iff)

lemma doc_by_id_iff: "db_ok db \<Longrightarrow> doc_by_id db i = Some d \<longleftrightarrow> d \<in> set (docs db) \<and> d_id d = i"
  unfolding doc_by_id_def by (rule find_key_iff) (rule db_okD(1))

lemma doc_by_id_None: "doc_by_id db i = None \<longleftrightarrow> i \<notin> d_id ` set (docs db)"
  by (simp add: doc_by_id_def find_key_None)

lemma doc_by_hash_None: "doc_by_hash db h = None \<longleftrightarrow> h \<notin> d_hash ` set (docs db)"
  by (simp add: doc_by_hash_def find_key_None)

lemma doc_by_hash_iff: "db_ok db \<Longrightarrow> doc_by_hash db h = Some d \<longleftrightarrow> d \<in> set (docs db) \<and> d_hash d = h"
  unfolding doc_by_hash_def by (rule find_key_iff) (rule db_okD(2))

lemma is_deleted_iff: "db_ok db \<Longrightarrow> is_deleted db i \<longleftrightarrow> (\<exists>d \<in> set (docs db). d_id d = i \<and> \<not> live d)"
proof (cases "doc_by_id db i")
  case None
  then show ?thesis using doc_by_id_None [of db i] by (auto simp: is_deleted_def)
next
  case (Some d)
  then have "is_deleted db i \<longleftrightarrow> \<not> live d" by (simp add: is_deleted_def live_def)
  moreover assume "db_ok db"
  then have "x \<in> set (docs db) \<and> d_id x = i \<longleftrightarrow> x = d" for x
    using Some doc_by_id_iff [of db i x] by auto
  ultimately show ?thesis by (metis (full_types))
qed

section \<open>What a committed transaction can change\<close>

lemma commit_cases: "commit f a b = (r, c) \<Longrightarrow> c = a \<or> c = b"
  by (auto simp: commit_def split: fault.splits)

lemma commit_None: "commit f a b = (None, c) \<longleftrightarrow> f = NoFault \<and> c = b"
  by (auto simp: commit_def split: fault.splits)

lemma call_Inr: "call f r = Inr x \<longleftrightarrow> f = NoFault \<and> r = Inr x"
  by (auto simp: call_def split: fault.splits)

lemma call_NoFault [simp]: "call NoFault r = r"
  by (simp add: call_def)

lemma insert_chunks_Inr:
  "insert_chunks f is i cs db = Inr tx \<Longrightarrow>
     tx = db\<lparr>chunks := chunks db @ chunk_rows is i cs\<rparr> \<and> (cs = [] \<or> chunk_keys_free (chunks tx))"
  by (auto simp: insert_chunks_def chunk_rows_def call_Inr Let_def split: if_splits)

lemma insert_doc_Inr:
  "insert_doc i now d db = Inr (j, tx) \<longleftrightarrow> j = i \<and> n_hash d \<notin> d_hash ` set (docs db) \<and> i \<notin> d_id ` set (docs db)
     \<and> tx = db\<lparr>docs := docs db @ [\<lparr>d_id = i, d_source = n_source d, d_title = n_title d,
             d_body = n_body d, d_hash = n_hash d, d_created = now, d_deleted = None\<rparr>]\<rparr>"
  using doc_by_hash_None [of db "n_hash d"] doc_by_id_None [of db i] by (auto simp: insert_doc_def)

definition new_row :: "uuid \<Rightarrow> time \<Rightarrow> new_doc \<Rightarrow> doc" where
  "new_row i now d = \<lparr>d_id = i, d_source = n_source d, d_title = n_title d,
             d_body = n_body d, d_hash = n_hash d, d_created = now, d_deleted = None\<rparr>"

definition with_doc :: "uuid \<Rightarrow> uuid list \<Rightarrow> time \<Rightarrow> new_doc \<Rightarrow> new_chunk list \<Rightarrow> db \<Rightarrow> db" where
  "with_doc i is now d cs db =
     db\<lparr>docs := docs db @ [new_row i now d], chunks := chunks db @ chunk_rows is i cs\<rparr>"

lemma upsert_doc_db:
  "snd (upsert_doc f i is now d cs db) = db \<or>
   (snd (upsert_doc f i is now d cs db) = with_doc i is now d cs db
     \<and> i \<notin> d_id ` set (docs db) \<and> n_hash d \<notin> d_hash ` set (docs db)
     \<and> (cs = [] \<or> chunk_keys_free (chunks (with_doc i is now d cs db))))"
proof (cases "call (f 1) (insert_doc i now d db)")
  case (Inl e)
  then show ?thesis
    by (auto simp: upsert_doc_def split: sum.splits prod.splits option.splits dest: commit_cases)
next
  case (Inr p)
  obtain j tx where p: "p = (j, tx)" by (cases p)
  from Inr p have ins: "j = i" "n_hash d \<notin> d_hash ` set (docs db)" "i \<notin> d_id ` set (docs db)"
    "tx = db\<lparr>docs := docs db @ [new_row i now d]\<rparr>"
    by (auto simp: call_Inr insert_doc_Inr new_row_def)
  show ?thesis
  proof (cases "insert_chunks (f 2) is i cs tx")
    case (Inl e)
    with Inr p ins show ?thesis by (auto simp: upsert_doc_def split: sum.splits)
  next
    case ty: (Inr ty)
    from insert_chunks_Inr [OF ty] have "ty = with_doc i is now d cs db" "cs = [] \<or> chunk_keys_free (chunks ty)"
      by (auto simp: with_doc_def ins(4))
    then show ?thesis
      using Inr p ins ty by (auto simp: upsert_doc_def split: sum.splits prod.splits option.splits dest: commit_cases)
  qed
qed

lemma chunk_rows_Nil [simp]: "chunk_rows is i [] = []"
  by (simp add: chunk_rows_def)

lemma c_doc_chunk_rows: "c \<in> set (chunk_rows is i cs) \<Longrightarrow> c_doc c = i"
  by (auto simp: chunk_rows_def)

lemma with_doc_ok [inv_intros]:
  assumes "db_ok db" "i \<notin> d_id ` set (docs db)" "n_hash d \<notin> d_hash ` set (docs db)"
    "cs = [] \<or> chunk_keys_free (chunks (with_doc i is now d cs db))"
  shows "db_ok (with_doc i is now d cs db)"
proof -
  let ?db = "with_doc i is now d cs db"
  have sel: "docs ?db = docs db @ [new_row i now d]" "chunks ?db = chunks db @ chunk_rows is i cs" "tombs ?db = tombs db"
    by (simp_all add: with_doc_def)
  have find: "doc_by_id ?db j = (if j = i then Some (new_row i now d) else doc_by_id db j)" for j
    using assms(2) doc_by_id_None [of db i]
    by (auto simp: doc_by_id_def sel find_append new_row_def split: option.splits)
  have old: "t_doc t \<noteq> i" if "t \<in> set (tombs db)" for t
    using db_okD(7) [OF assms(1) that] assms(2) doc_by_id_None [of db i] by (auto simp: is_deleted_def)
  have ck: "chunk_keys_free (chunks ?db)"
    using assms(4) db_okD(3) [OF assms(1)] by (auto simp: sel)
  have fk: "list_all (\<lambda>c. c_doc c \<in> d_id ` set (docs ?db)) (chunks ?db)"
    using db_okD(4) [OF assms(1)] by (auto simp: list_all_iff sel new_row_def dest!: c_doc_chunk_rows)
  have co: "chunks_of ?db j = chunks_of db j" if "j \<noteq> i" for j
    using that by (auto simp: chunks_of_def sel filter_empty_conv dest: c_doc_chunk_rows)
  show ?thesis
    unfolding db_ok_def
  proof (intro conjI ck fk)
    show "distinct (map d_id (docs ?db))" "distinct (map d_hash (docs ?db))"
      using db_okD(1,2) [OF assms(1)] assms(2,3) by (auto simp: sel new_row_def)
    show "distinct (map t_id (tombs ?db))" "distinct (map t_doc (tombs ?db))"
      using db_okD(5,6) [OF assms(1)] by (auto simp: sel)
    show "list_all (\<lambda>t. is_deleted ?db (t_doc t) \<and> (t_compacted t \<noteq> None \<longrightarrow> chunks_of ?db (t_doc t) = [])) (tombs ?db)"
      using db_okD(7,8) [OF assms(1)] old co by (auto simp: list_all_iff sel is_deleted_def find)
    show "list_all (\<lambda>d. \<not> live d \<longrightarrow> d_id d \<in> t_doc ` set (tombs ?db)) (docs ?db)"
      using db_okD(9) [OF assms(1)] by (auto simp: list_all_iff sel new_row_def live_def)
  qed
qed

lemma upsert_doc_ok [inv_intros]: "db_ok db \<Longrightarrow> db_ok (snd (upsert_doc f i is now d cs db))"
  using upsert_doc_db [of f i "is" now d cs db] with_doc_ok by metis

section \<open>Deleting\<close>

definition with_tomb :: "uuid \<Rightarrow> time \<Rightarrow> uuid \<Rightarrow> db \<Rightarrow> db" where
  "with_tomb ti now i db =
     (mark_deleted i now db)\<lparr>tombs := tombs db @ [\<lparr>t_id = ti, t_doc = i, t_deleted = now, t_compacted = None\<rparr>]\<rparr>"

lemma mark_deleted_sel [simp]: "tombs (mark_deleted i now db) = tombs db" "chunks (mark_deleted i now db) = chunks db"
  by (simp_all add: mark_deleted_def)

lemma doc_by_id_mark_deleted:
  "doc_by_id (mark_deleted i now db) j =
     (if j = i then map_option (\<lambda>d. d\<lparr>d_deleted := Some now\<rparr>) (doc_by_id db j) else doc_by_id db j)"
proof -
  have "doc_by_id (mark_deleted i now db) j
      = map_option (\<lambda>d. if d_id d = i then d\<lparr>d_deleted := Some now\<rparr> else d) (doc_by_id db j)"
    unfolding doc_by_id_def mark_deleted_def by (simp add: find_key_map)
  then show ?thesis
    by (cases "doc_by_id db j") (auto simp: doc_by_id_def dest: find_key_Some)
qed

lemma live_doc_no_tomb:
  assumes "db_ok db" "doc_by_id db i = Some d" "live d"
  shows "i \<notin> t_doc ` set (tombs db)"
proof
  assume "i \<in> t_doc ` set (tombs db)"
  then obtain t where "t \<in> set (tombs db)" "t_doc t = i" by auto
  with db_okD(7) [OF assms(1), of t] assms(2,3) show False by (simp add: is_deleted_def live_def)
qed

lemma delete_doc_db:
  assumes "db_ok db"
  shows "snd (delete_doc f ti now i db) = db \<or>
    (snd (delete_doc f ti now i db) = with_tomb ti now i db \<and> ti \<notin> t_id ` set (tombs db)
       \<and> (\<exists>d. doc_by_id db i = Some d \<and> live d))"
proof (cases "doc_by_id db i")
  case None
  then show ?thesis by (auto simp: delete_doc_def call_def split: fault.splits)
next
  case (Some d)
  show ?thesis
  proof (cases "d_deleted d")
    case None
    then have "i \<notin> t_doc ` set (tombs db)"
      using live_doc_no_tomb [OF assms Some] by (simp add: live_def)
    then have "insert_tomb ti i now (mark_deleted i now db) =
        (if ti \<in> t_id ` set (tombs db) then Inl duplicate_key else Inr (with_tomb ti now i db))"
      by (auto simp: insert_tomb_def with_tomb_def)
    then show ?thesis using Some None
      by (auto simp: delete_doc_def call_def commit_def live_def split: fault.splits if_splits)
  next
    case (Some t)
    with \<open>doc_by_id db i = Some d\<close> show ?thesis
      by (auto simp: delete_doc_def call_def split: fault.splits)
  qed
qed

lemma with_tomb_ok [inv_intros]:
  assumes "db_ok db" "ti \<notin> t_id ` set (tombs db)" "doc_by_id db i = Some d" "live d"
  shows "db_ok (with_tomb ti now i db)"
proof -
  let ?db = "with_tomb ti now i db"
  have sel: "docs ?db = map (\<lambda>d. if d_id d = i then d\<lparr>d_deleted := Some now\<rparr> else d) (docs db)"
    "chunks ?db = chunks db" "tombs ?db = tombs db @ [\<lparr>t_id = ti, t_doc = i, t_deleted = now, t_compacted = None\<rparr>]"
    by (simp_all add: with_tomb_def mark_deleted_def)
  have ids: "map d_id (docs ?db) = map d_id (docs db)" "map d_hash (docs ?db) = map d_hash (docs db)"
    by (simp_all add: sel)
  have idset: "d_id ` set (docs ?db) = d_id ` set (docs db)" using ids(1) by (metis list.set_map)
  have by_id: "doc_by_id ?db j = doc_by_id (mark_deleted i now db) j" for j
    by (simp add: doc_by_id_def with_tomb_def)
  have nt: "i \<notin> t_doc ` set (tombs db)" by (rule live_doc_no_tomb [OF assms(1,3,4)])
  have del: "is_deleted ?db j = (j = i \<or> is_deleted db j)" for j
    using assms(3) by (auto simp: is_deleted_def by_id doc_by_id_mark_deleted split: option.splits)
  have co: "chunks_of ?db j = chunks_of db j" for j by (simp add: chunks_of_def sel)
  show ?thesis
    unfolding db_ok_def
  proof (intro conjI)
    show "distinct (map d_id (docs ?db))" "distinct (map d_hash (docs ?db))"
      unfolding ids using db_okD(1,2) [OF assms(1)] by auto
    show "chunk_keys_free (chunks ?db)" using db_okD(3) [OF assms(1)] by (simp add: sel)
    show "list_all (\<lambda>c. c_doc c \<in> d_id ` set (docs ?db)) (chunks ?db)"
      unfolding idset using db_okD(4) [OF assms(1)] by (auto simp: list_all_iff sel)
    show "distinct (map t_id (tombs ?db))" "distinct (map t_doc (tombs ?db))"
      using db_okD(5,6) [OF assms(1)] assms(2) nt by (auto simp: sel)
    show "list_all (\<lambda>t. is_deleted ?db (t_doc t) \<and> (t_compacted t \<noteq> None \<longrightarrow> chunks_of ?db (t_doc t) = [])) (tombs ?db)"
      using db_okD(7,8) [OF assms(1)] by (auto simp: list_all_iff sel del co)
    show "list_all (\<lambda>d. \<not> live d \<longrightarrow> d_id d \<in> t_doc ` set (tombs ?db)) (docs ?db)"
      using db_okD(9) [OF assms(1)] by (auto simp: list_all_iff sel live_def)
  qed
qed

lemma delete_doc_ok [inv_intros]: "db_ok db \<Longrightarrow> db_ok (snd (delete_doc f ti now i db))"
  using delete_doc_db [of db f ti now i] with_tomb_ok by metis


section \<open>Compacting\<close>

definition compacted :: "uuid \<Rightarrow> time \<Rightarrow> uuid \<Rightarrow> db \<Rightarrow> db" where
  "compacted ti now i db = mark_compacted ti now (snd (delete_chunks i db))"

lemma compacted_sel [simp]:
  "docs (compacted ti now i db) = docs db"
  "chunks (compacted ti now i db) = filter (\<lambda>c. c_doc c \<noteq> i) (chunks db)"
  "tombs (compacted ti now i db) = map (\<lambda>t. if t_id t = ti then t\<lparr>t_compacted := Some now\<rparr> else t) (tombs db)"
  by (simp_all add: compacted_def mark_compacted_def delete_chunks_def)

lemma compact_one_db:
  "snd (compact_one f now ti i db) = db \<or> snd (compact_one f now ti i db) = compacted ti now i db"
  by (auto simp: compact_one_def compacted_def delete_chunks_def call_def commit_def
      split: fault.splits sum.splits prod.splits)

lemma compact_one_Inr:
  "compact_one f now ti i db = (Inr n, db') \<Longrightarrow> db' = compacted ti now i db \<and> n = length (chunks_of db i)"
  by (auto simp: compact_one_def compacted_def delete_chunks_def call_def commit_def
      split: fault.splits sum.splits prod.splits)

lemma is_deleted_docs: "docs a = docs b \<Longrightarrow> is_deleted a i = is_deleted b i"
  by (simp add: is_deleted_def doc_by_id_def)

lemma chunks_of_compacted [simp]: "chunks_of (compacted ti now i db) j = (if j = i then [] else chunks_of db j)"
  by (auto simp: chunks_of_def filter_empty_conv intro: filter_cong)

lemma is_deleted_compacted [simp]: "is_deleted (compacted ti now i db) j = is_deleted db j"
  by (rule is_deleted_docs) simp

definition has_tomb :: "db \<Rightarrow> uuid \<Rightarrow> uuid \<Rightarrow> bool" where
  "has_tomb db ti i \<longleftrightarrow> list_ex (\<lambda>t. t_id t = ti \<and> t_doc t = i) (tombs db)"

lemma compacted_ok [inv_intros]:
  assumes "db_ok db" "has_tomb db ti i"
  shows "db_ok (compacted ti now i db)"
proof -
  let ?db = "compacted ti now i db"
  have ids: "map t_id (tombs ?db) = map t_id (tombs db)" "map t_doc (tombs ?db) = map t_doc (tombs db)"
    by auto
  have tdocs: "t_doc ` set (tombs ?db) = t_doc ` set (tombs db)" using ids(2) by (metis list.set_map)
  have inj: "inj_on t_id (set (tombs db))" using db_okD(5) [OF assms(1)] by (simp add: distinct_map)
  obtain t0 where t0: "t0 \<in> set (tombs db)" "t_id t0 = ti" "t_doc t0 = i"
    using assms(2) by (auto simp: has_tomb_def list_ex_iff)
  have same: "t_doc t = i" if "t \<in> set (tombs db)" "t_id t = ti" for t
    using inj_onD [OF inj _ that(1) t0(1)] that(2) t0(2,3) by simp
  show ?thesis
    unfolding db_ok_def
  proof (intro conjI)
    show "distinct (map d_id (docs ?db))" "distinct (map d_hash (docs ?db))"
      using db_okD(1,2) [OF assms(1)] by simp_all
    show "chunk_keys_free (chunks ?db)"
      using db_okD(3) [OF assms(1)] by (simp add: chunk_keys_free_def distinct_map_filter)
    show "list_all (\<lambda>c. c_doc c \<in> d_id ` set (docs ?db)) (chunks ?db)"
      using db_okD(4) [OF assms(1)] by (simp add: list_all_iff)
    show "distinct (map t_id (tombs ?db))" "distinct (map t_doc (tombs ?db))"
      unfolding ids using db_okD(5,6) [OF assms(1)] by auto
    show "list_all (\<lambda>t. is_deleted ?db (t_doc t) \<and> (t_compacted t \<noteq> None \<longrightarrow> chunks_of ?db (t_doc t) = [])) (tombs ?db)"
      unfolding list_all_iff
    proof
      fix t assume "t \<in> set (tombs ?db)"
      then obtain u where u: "u \<in> set (tombs db)" "t = (if t_id u = ti then u\<lparr>t_compacted := Some now\<rparr> else u)"
        by auto
      show "is_deleted ?db (t_doc t) \<and> (t_compacted t \<noteq> None \<longrightarrow> chunks_of ?db (t_doc t) = [])"
        using db_okD(7,8) [OF assms(1) u(1)] same [OF u(1)] u(2) by (cases "t_id u = ti") simp_all
    qed
    show "list_all (\<lambda>d. \<not> live d \<longrightarrow> d_id d \<in> t_doc ` set (tombs ?db)) (docs ?db)"
      unfolding tdocs using db_okD(9) [OF assms(1)] by (auto simp: list_all_iff)
  qed
qed

lemma next_tomb_cases:
  assumes "reorders sh"
  obtains "next_tomb sh db = Inl ErrNoRows" "pending db = []"
  | t where "next_tomb sh db = Inr (t_id t, t_doc t)" "t \<in> set (pending db)"
proof (cases "sort_by (\<lambda>a b. t_deleted a < t_deleted b) (sh (pending db))")
  case Nil
  then have "pending db = []" using reorders_Nil_iff [OF assms] by simp
  with Nil show thesis using that(1) by (simp add: next_tomb_def)
next
  case (Cons t ts)
  then have "t \<in> set (sh (pending db))" by (metis list.set_intros(1) set_sort_by)
  with Cons show thesis using that(2) [of t] reorders_set [OF assms] by (simp add: next_tomb_def)
qed

lemma pendingD: "t \<in> set (pending db) \<Longrightarrow> t \<in> set (tombs db) \<and> is_deleted db (t_doc t) \<and> t_compacted t = None"
  by (simp add: pending_def)

lemma pending_has_tomb: "t \<in> set (pending db) \<Longrightarrow> has_tomb db (t_id t) (t_doc t)"
  by (auto simp: has_tomb_def list_ex_iff dest: pendingD)

lemma pending_compacted: "pending (compacted ti now i db) = filter (\<lambda>t. t_id t \<noteq> ti) (pending db)"
proof -
  have "filter (\<lambda>t. t_compacted t = None \<and> P (t_doc t)) (map (\<lambda>t. if t_id t = ti then t\<lparr>t_compacted := Some now\<rparr> else t) ts)
      = filter (\<lambda>t. t_id t \<noteq> ti) (filter (\<lambda>t. t_compacted t = None \<and> P (t_doc t)) ts)" for P ts
    by (induction ts) auto
  then show ?thesis by (simp add: pending_def)
qed

lemma length_filter_key:
  "distinct (map k xs) \<Longrightarrow> x \<in> set xs \<Longrightarrow> Suc (length (filter (\<lambda>y. k y \<noteq> k x) xs)) = length xs"
proof (induction xs)
  case (Cons a xs)
  show ?case
  proof (cases "a = x")
    case True
    with Cons.prems(1) have "k x \<notin> k ` set xs" by simp
    then have "k y \<noteq> k x" if "y \<in> set xs" for y using that by (metis imageI)
    then have "filter (\<lambda>y. k y \<noteq> k x) xs = xs" by (simp add: filter_id_conv)
    with True show ?thesis by simp
  next
    case False
    with Cons show ?thesis by auto
  qed
qed simp

lemma length_pending_compacted:
  assumes "db_ok db" "t \<in> set (pending db)"
  shows "Suc (length (pending (compacted (t_id t) now i db))) = length (pending db)"
proof -
  have "distinct (map t_id (pending db))"
    using db_okD(5) [OF assms(1)] by (simp add: pending_def distinct_map_filter)
  from length_filter_key [OF this assms(2)] show ?thesis by (simp add: pending_compacted)
qed

text \<open>A fault is not mistaken for an empty result.\<close>

definition honest :: "(nat \<Rightarrow> nat \<Rightarrow> fault) \<Rightarrow> bool" where
  "honest f \<longleftrightarrow> (\<forall>k j. f k j \<noteq> Fails ErrNoRows \<and> f k j \<noteq> Lost ErrNoRows)"

definition compacts_to :: "compact_result \<Rightarrow> db \<Rightarrow> compact_result \<Rightarrow> go_error option \<Rightarrow> db \<Rightarrow> bool" where
  "compacts_to res db r e db' \<longleftrightarrow>
     docs db' = docs db \<and> db_ok db'
   \<and> (\<exists>D. chunks db' = filter (\<lambda>c. c_doc c \<notin> D) (chunks db) \<and> (\<forall>i \<in> D. is_deleted db i))
   \<and> (e = None \<longrightarrow> pending db' = [] \<and> res_tombs r = res_tombs res + length (pending db)
        \<and> res_chunks r + length (chunks db') = res_chunks res + length (chunks db))"

lemma compacts_to_stop:
  "db_ok db \<Longrightarrow> e = None \<longrightarrow> pending db = [] \<Longrightarrow> compacts_to res db res e db"
  unfolding compacts_to_def by (auto intro!: exI [of _ "{}"])

lemma compacts_to_failed:
  assumes "db_ok db" "t \<in> set (pending db)" "db' = db \<or> db' = compacted (t_id t) now (t_doc t) db"
  shows "compacts_to res db res (Some e) db'"
  using assms(3)
proof
  assume "db' = db"
  then show ?thesis using compacts_to_stop [OF assms(1)] by simp
next
  assume "db' = compacted (t_id t) now (t_doc t) db"
  then show ?thesis
    using compacted_ok [OF assms(1) pending_has_tomb [OF assms(2)]] pendingD [OF assms(2)]
    unfolding compacts_to_def by (auto intro!: exI [of _ "{t_doc t}"])
qed

lemma compacts_to_step:
  assumes "db_ok db" "t \<in> set (pending db)" "mid = compacted (t_id t) now (t_doc t) db"
    "n = length (chunks_of db (t_doc t))"
    "compacts_to (res\<lparr>res_tombs := res_tombs res + 1, res_chunks := res_chunks res + n\<rparr>) mid r e db'"
  shows "compacts_to res db r e db'"
proof -
  from assms(5) obtain D where D: "chunks db' = filter (\<lambda>c. c_doc c \<notin> D) (chunks mid)" "\<forall>i \<in> D. is_deleted db i"
    by (auto simp: compacts_to_def assms(3))
  have "chunks db' = filter (\<lambda>c. c_doc c \<notin> insert (t_doc t) D) (chunks db)"
    unfolding D(1) assms(3) by (simp add: conj_commute)
  moreover have "\<forall>i \<in> insert (t_doc t) D. is_deleted db i" using D(2) pendingD [OF assms(2)] by simp
  ultimately have "\<exists>D. chunks db' = filter (\<lambda>c. c_doc c \<notin> D) (chunks db) \<and> (\<forall>i \<in> D. is_deleted db i)" by blast
  moreover have "length (chunks mid) + n = length (chunks db)"
    using sum_length_filter_compl [of "\<lambda>c. c_doc c = t_doc t" "chunks db"] by (simp add: assms(3,4) chunks_of_def)
  moreover have "Suc (length (pending mid)) = length (pending db)"
    using length_pending_compacted [OF assms(1,2)] by (simp add: assms(3))
  ultimately show ?thesis using assms(5) unfolding compacts_to_def by (simp add: assms(3))
qed

lemma compact_loop_spec:
  assumes "reorders sh" "honest f" "db_ok db"
  shows "\<exists>r e db'. compact_loop sh f now k res db = Some (r, e, db') \<and> compacts_to res db r e db'"
  using assms(3)
proof (induction "length (pending db)" arbitrary: db res k rule: less_induct)
  case less
  have scan: "f k 0 = NoFault \<or> (\<exists>e. e \<noteq> ErrNoRows \<and> (f k 0 = Fails e \<or> f k 0 = Lost e))"
    using assms(2) by (cases "f k 0") (auto simp: honest_def)
  then consider "f k 0 = NoFault" | e where "e \<noteq> ErrNoRows" "f k 0 = Fails e \<or> f k 0 = Lost e" by blast
  then show ?case
  proof cases
    case 1
    show ?thesis
    proof (rule next_tomb_cases [OF assms(1), of db])
      assume "next_tomb sh db = Inl ErrNoRows" "pending db = []"
      then show ?thesis using 1 compacts_to_stop [OF less.prems]
        by (subst compact_loop.simps) simp
    next
      fix t assume t: "next_tomb sh db = Inr (t_id t, t_doc t)" "t \<in> set (pending db)"
      obtain c db' where one: "compact_one (f k) now (t_id t) (t_doc t) db = (c, db')" by fastforce
      show ?thesis
      proof (cases c)
        case (Inl e)
        have "db' = db \<or> db' = compacted (t_id t) now (t_doc t) db"
          using compact_one_db [of "f k" now "t_id t" "t_doc t" db] one by simp
        from compacts_to_failed [OF less.prems t(2) this]
        show ?thesis using 1 t one Inl by (subst compact_loop.simps) simp
      next
        case (Inr n)
        from compact_one_Inr [OF one [unfolded Inr]]
        have mid: "db' = compacted (t_id t) now (t_doc t) db" "n = length (chunks_of db (t_doc t))" by auto
        have ok: "db_ok db'" unfolding mid by (rule compacted_ok [OF less.prems pending_has_tomb [OF t(2)]])
        have "length (pending db') < length (pending db)"
          using length_pending_compacted [OF less.prems t(2), of now "t_doc t"] mid(1) by simp
        from less.hyps [OF this ok] obtain r e d where
          "compact_loop sh f now (Suc k) (res\<lparr>res_tombs := res_tombs res + 1, res_chunks := res_chunks res + n\<rparr>) db'
             = Some (r, e, d)"
          and "compacts_to (res\<lparr>res_tombs := res_tombs res + 1, res_chunks := res_chunks res + n\<rparr>) db' r e d"
          by blast
        with compacts_to_step [OF less.prems t(2) mid]
        show ?thesis using 1 t one Inr by (subst compact_loop.simps) simp
      qed
    qed
  next
    case (2 e)
    then have "call (f k 0) (next_tomb sh db) = Inl e" by (auto simp: call_def)
    with 2(1) show ?thesis using compacts_to_stop [OF less.prems] by (subst compact_loop.simps) simp
  qed
qed


section \<open>What a client can see\<close>

text \<open>
  The abstract store: every live document with its chunks. The operations refine the obvious ones on
  this map; tombstones and compaction are invisible in it.
\<close>

definition view :: "db \<Rightarrow> uuid \<Rightarrow> (doc \<times> chunk_row list) option" where
  "view db i = (case doc_by_id db i of None \<Rightarrow> None
     | Some d \<Rightarrow> if live d then Some (d, chunks_of db i) else None)"

lemma doc_by_id_with_doc:
  "i \<notin> d_id ` set (docs db) \<Longrightarrow>
     doc_by_id (with_doc i is now d cs db) j = (if j = i then Some (new_row i now d) else doc_by_id db j)"
  using doc_by_id_None [of db i]
  by (auto simp: doc_by_id_def with_doc_def find_append new_row_def split: option.splits)

lemma chunks_of_unknown: "db_ok db \<Longrightarrow> i \<notin> d_id ` set (docs db) \<Longrightarrow> chunks_of db i = []"
  using db_okD(4) by (auto simp: chunks_of_def filter_empty_conv)

lemma filter_chunk_rows: "filter (\<lambda>c. c_doc c = j) (chunk_rows is i cs) = (if j = i then chunk_rows is i cs else [])"
  using c_doc_chunk_rows [of _ "is" i cs] by (auto simp: filter_empty_conv filter_id_conv)

lemma chunks_of_with_doc:
  "db_ok db \<Longrightarrow> i \<notin> d_id ` set (docs db) \<Longrightarrow>
     chunks_of (with_doc i is now d cs db) j = (if j = i then chunk_rows is i cs else chunks_of db j)"
  using chunks_of_unknown [of db i]
  by (auto simp: with_doc_def filter_chunk_rows chunks_of_def)

text \<open>What the searches read of a row.\<close>

definition row_content :: "chunk_row \<Rightarrow> int \<times> gostring \<times> gostring" where
  "row_content c = (c_index c, c_text c, c_embedding c)"

lemma chunk_rows_content:
  "length cs \<le> length is \<Longrightarrow> map row_content (chunk_rows is i cs)
     = map (\<lambda>c. (n_index c, n_text c, format_vector (n_embedding c))) cs"
proof (induction cs arbitrary: "is")
  case (Cons c cs)
  then show ?case by (cases "is") (simp_all add: chunk_rows_def row_content_def)
qed (simp add: chunk_rows_def)

lemma view_with_doc:
  assumes "db_ok db" "i \<notin> d_id ` set (docs db)"
  shows "view (with_doc i is now d cs db) = (view db)(i \<mapsto> (new_row i now d, chunk_rows is i cs))"
proof
  fix j show "view (with_doc i is now d cs db) j = ((view db)(i \<mapsto> (new_row i now d, chunk_rows is i cs))) j"
    by (simp add: view_def doc_by_id_with_doc [OF assms(2)] chunks_of_with_doc [OF assms] live_def new_row_def split: option.split)
qed

lemma doc_by_id_with_tomb: "doc_by_id (with_tomb ti now i db) j = doc_by_id (mark_deleted i now db) j"
  by (simp add: doc_by_id_def with_tomb_def)

lemma view_with_tomb: "view (with_tomb ti now i db) = (view db)(i := None)"
proof
  fix j
  have "chunks_of (with_tomb ti now i db) j = chunks_of db j"
    by (simp add: chunks_of_def with_tomb_def)
  then show "view (with_tomb ti now i db) j = ((view db)(i := None)) j"
    by (auto simp: view_def doc_by_id_with_tomb doc_by_id_mark_deleted live_def split: option.split)
qed

lemma doc_by_id_cong: "docs a = docs b \<Longrightarrow> doc_by_id a i = doc_by_id b i"
  by (simp add: doc_by_id_def)

lemma view_compacts:
  assumes "docs db' = docs db" "chunks db' = filter (\<lambda>c. c_doc c \<notin> D) (chunks db)" "\<forall>i \<in> D. is_deleted db i"
  shows "view db' = view db"
proof
  fix j
  show "view db' j = view db j"
  proof (cases "j \<in> D")
    case True
    then show ?thesis
      using assms(3) by (auto simp: view_def is_deleted_def live_def doc_by_id_cong [OF assms(1)] split: option.splits)
  next
    case False
    then have "chunks_of db' j = chunks_of db j" by (auto simp: chunks_of_def assms(2) intro: filter_cong)
    then show ?thesis by (simp add: view_def doc_by_id_cong [OF assms(1)] split: option.split)
  qed
qed

section \<open>Properties\<close>

definition no_faults :: "nat \<Rightarrow> fault" where
  "no_faults = (\<lambda>k. NoFault)"

lemma no_faults_apply [simp]: "no_faults k = NoFault"
  by (simp add: no_faults_def)

lemma upsert_doc_Inr:
  assumes "db_ok db" "upsert_doc f i is now d cs db = (Inr (j, n, existed), db')"
  shows "if existed then db' = db \<and> (\<exists>x \<in> set (docs db). d_hash x = n_hash d \<and> d_id x = j) \<and> n = length (chunks_of db j)
     else db' = with_doc i is now d cs db \<and> j = i \<and> n = length cs \<and> i \<notin> d_id ` set (docs db)"
proof (cases "call (f 1) (insert_doc i now d db)")
  case (Inl e)
  have "existed \<and> db' = db \<and> n = length (chunks_of db j) \<and>
     (case doc_by_hash db (n_hash d) of None \<Rightarrow> False | Some x \<Rightarrow> d_id x = j)"
    using assms(2) Inl
    by (auto simp: upsert_doc_def call_Inr commit_None split: sum.splits prod.splits option.splits if_splits)
  then show ?thesis
    using doc_by_hash_iff [OF assms(1), of "n_hash d"] by (auto split: option.splits)
next
  case (Inr p)
  obtain a tx where p: "p = (a, tx)" by (cases p)
  from Inr p have ins: "a = i" "i \<notin> d_id ` set (docs db)" "tx = db\<lparr>docs := docs db @ [new_row i now d]\<rparr>"
    by (auto simp: call_Inr insert_doc_Inr new_row_def)
  obtain ty where ty: "insert_chunks (f 2) is i cs tx = Inr ty" "db' = ty" "\<not> existed" "j = i" "n = length cs"
    using assms(2) Inr p ins
    by (auto simp: upsert_doc_def commit_None split: sum.splits prod.splits option.splits)
  then show ?thesis using insert_chunks_Inr [OF ty(1)] ins by (auto simp: with_doc_def)
qed

text \<open>Every operation of the store, whatever round trip fails and wherever a commit is lost, keeps
  the invariant of the tables: unique ids, hashes and chunk positions, no chunk or tombstone without
  its document, a tombstone exactly for the deleted documents, and no chunks left of a compacted one.\<close>

theorem store_keeps_invariant:
  assumes "db_ok db" "reorders sh" "honest g"
  shows "db_ok (snd (upsert_doc f i is now d cs db))
       \<and> db_ok (snd (delete_doc f ti now i db))
       \<and> (\<exists>r e db'. compact sh g now b db = Some (r, e, db') \<and> db_ok db')"
  using upsert_doc_ok [OF assms(1)] delete_doc_ok [OF assms(1)]
    compact_loop_spec [OF assms(2,3,1), of now 0 "\<lparr>res_tombs = 0, res_chunks = 0\<rparr>"]
  by (auto simp: compact_def compacts_to_def)

theorem store_keeps_invariant_witness:
  "db_ok (snd (delete_doc no_faults 3 5 1 empty_db))
   \<and> (\<exists>r e db'. compact (\<lambda>ts. ts) (\<lambda>k. no_faults) 5 0 empty_db = Some (r, e, db') \<and> db_ok db')"
  using store_keeps_invariant [where db = empty_db and sh = "\<lambda>ts. ts" and g = "\<lambda>k. no_faults"
      and f = no_faults and ti = 3 and now = 5 and i = 1 and b = 0]
  by (simp add: honest_def)

text \<open>C12. Indexing is one transaction: the tables afterwards are either untouched or hold the new document
  with all its chunks; on success the answer says which, and an answer "already existed" names the
  document with that hash and its chunk count.\<close>

theorem upsert_doc_atomic:
  assumes "db_ok db"
  shows "(snd (upsert_doc f i is now d cs db) = db \<or> snd (upsert_doc f i is now d cs db) = with_doc i is now d cs db)
    \<and> (case fst (upsert_doc f i is now d cs db) of
         Inl e \<Rightarrow> True
       | Inr (j, n, False) \<Rightarrow> snd (upsert_doc f i is now d cs db) = with_doc i is now d cs db \<and> j = i \<and> n = length cs
       | Inr (j, n, True) \<Rightarrow> snd (upsert_doc f i is now d cs db) = db \<and> n = length (chunks_of db j)
            \<and> list_ex (\<lambda>x. d_hash x = n_hash d \<and> d_id x = j) (docs db))"
proof -
  obtain r db' where u: "upsert_doc f i is now d cs db = (r, db')" by fastforce
  have "db' = db \<or> db' = with_doc i is now d cs db" using upsert_doc_db [of f i "is" now d cs db] u by auto
  then show ?thesis
    using u upsert_doc_Inr [OF assms, of f i "is" now d cs]
    by (auto simp: list_ex_iff split: sum.splits prod.splits bool.splits if_splits)
qed

definition ex_doc :: new_doc where
  "ex_doc = \<lparr>n_source = str ''s'', n_title = str ''t'', n_body = str ''b'', n_hash = str ''h''\<rparr>"

definition ex_chunks :: "new_chunk list" where
  "ex_chunks = [\<lparr>n_index = 0, n_text = str ''b'', n_embedding = []\<rparr>]"

definition ex_db :: db where
  "ex_db = with_doc 7 [8] 100 ex_doc ex_chunks empty_db"

lemma ex_upsert: "upsert_doc no_faults 7 [8] 100 ex_doc ex_chunks empty_db = (Inr (7, 1, False), ex_db)"
  by (simp add: upsert_doc_def insert_doc_def empty_db_def doc_by_hash_def doc_by_id_def insert_chunks_def
      chunk_rows_def chunk_keys_free_def commit_def ex_chunks_def ex_doc_def ex_db_def with_doc_def new_row_def Let_def)

lemma ex_db_ok [simp]: "db_ok ex_db"
  using upsert_doc_ok [OF empty_db_ok, of no_faults 7 "[8]" 100 ex_doc ex_chunks] by (simp add: ex_upsert)

theorem upsert_doc_atomic_witness:
  "snd (upsert_doc no_faults 9 [] 5 ex_doc [] ex_db) = ex_db
   \<or> snd (upsert_doc no_faults 9 [] 5 ex_doc [] ex_db) = with_doc 9 [] 5 ex_doc [] ex_db"
  using upsert_doc_atomic [OF ex_db_ok, of no_faults 9 "[]" 5 ex_doc "[]"] by blast

text \<open>C13. Indexing is idempotent by content hash: after an answer, indexing the same content again, with
  whatever chunks, changes nothing and answers with the same document and chunk count.\<close>

theorem upsert_doc_idempotent:
  assumes "db_ok db" "length is = length cs"
    "upsert_doc f i is now d cs db = (Inr (j, n, existed), db')" "n_hash d' = n_hash d"
  shows "upsert_doc no_faults i' is' now' d' cs' db' = (Inr (j, n, True), db')"
proof -
  have ok: "db_ok db'" using upsert_doc_ok [OF assms(1), of f i "is" now d cs] assms(3) by simp
  have new: "\<exists>x \<in> set (docs db'). d_hash x = n_hash d \<and> d_id x = j" and n: "n = length (chunks_of db' j)"
    using upsert_doc_Inr [OF assms(1,3)] assms(2) chunks_of_with_doc [OF assms(1)]
    by (auto simp: new_row_def with_doc_def chunk_rows_def split: if_splits)
  from new obtain x where x: "doc_by_hash db' (n_hash d') = Some x" "d_id x = j"
    using doc_by_hash_iff [OF ok] assms(4) by auto
  then have "insert_doc i' now' d' db' = Inl ErrNoRows" by (simp add: insert_doc_def)
  then show ?thesis using x n by (simp add: upsert_doc_def commit_def)
qed

theorem upsert_doc_idempotent_witness:
  "upsert_doc no_faults 12 [13] 200 ex_doc ex_chunks ex_db = (Inr (7, 1, True), ex_db)"
  using upsert_doc_idempotent [OF empty_db_ok _ ex_upsert, of ex_doc 12 "[13]" 200 ex_chunks] by (simp add: ex_chunks_def)

lemma view_None_iff: "view db i = None \<longleftrightarrow> (case doc_by_id db i of None \<Rightarrow> True | Some d \<Rightarrow> \<not> live d)"
  by (simp add: view_def split: option.split)

lemma delete_live:
  assumes "db_ok db" "ti \<notin> t_id ` set (tombs db)" "doc_by_id db i = Some d" "live d"
  shows "delete_doc no_faults ti now i db = (None, with_tomb ti now i db)"
proof -
  have "i \<notin> t_doc ` set (tombs db)" by (rule live_doc_no_tomb [OF assms(1,3,4)])
  then have "insert_tomb ti i now (mark_deleted i now db) = Inr (with_tomb ti now i db)"
    using assms(2) by (auto simp: insert_tomb_def with_tomb_def)
  then show ?thesis using assms(3,4) by (simp add: delete_doc_def commit_def live_def)
qed

lemma delete_not_live:
  "view db i = None \<Longrightarrow> delete_doc no_faults ti now i db = (Some ErrNotFound, db)"
  by (auto simp: view_None_iff delete_doc_def translate_no_rows_def live_def split: option.splits)

lemma get_doc_view: "get_doc NoFault i db = (case view db i of None \<Rightarrow> Inl ErrNotFound | Some (d, cs) \<Rightarrow> Inr d)"
  by (simp add: get_doc_def view_def translate_no_rows_def live_def split: option.split)

text \<open>Deletion, by cases. When no round trip fails, a document a client can see is marked and gets a
  tombstone, and any other id is \<open>ErrNotFound\<close> and changes nothing. When one fails, the tables are the
  old ones or those of the completed deletion: never a tombstone behind a live row or the reverse.\<close>

theorem delete_doc_cases:
  assumes "db_ok db" "ti \<notin> t_id ` set (tombs db)"
  shows "delete_doc no_faults ti now i db =
       (if view db i = None then (Some ErrNotFound, db) else (None, with_tomb ti now i db))
    \<and> (snd (delete_doc f ti now i db) = db \<or> snd (delete_doc f ti now i db) = with_tomb ti now i db)"
proof
  show "delete_doc no_faults ti now i db =
       (if view db i = None then (Some ErrNotFound, db) else (None, with_tomb ti now i db))"
  proof (cases "view db i = None")
    case False
    then obtain d where "doc_by_id db i = Some d" "live d" by (auto simp: view_None_iff split: option.splits)
    with delete_live [OF assms] False show ?thesis by simp
  qed (simp add: delete_not_live)
  show "snd (delete_doc f ti now i db) = db \<or> snd (delete_doc f ti now i db) = with_tomb ti now i db"
    using delete_doc_db [OF assms(1)] by blast
qed

theorem delete_doc_cases_witness:
  "delete_doc no_faults 3 200 7 ex_db = (None, with_tomb 3 200 7 ex_db)"
  using delete_doc_cases [OF ex_db_ok, of 3 200 7]
  by (simp add: ex_db_def with_doc_def empty_db_def view_def doc_by_id_def new_row_def live_def)

text \<open>C11. The tables refine the abstract store: indexing adds one document with its chunks, deletion
  removes exactly one, compaction is invisible, and a lookup is a lookup in the abstract store.\<close>

theorem store_refines_view:
  assumes "db_ok db" "reorders sh" "honest g" "ti \<notin> t_id ` set (tombs db)"
  shows "get_doc NoFault i db = (case view db i of None \<Rightarrow> Inl ErrNotFound | Some (d, cs) \<Rightarrow> Inr d)
    \<and> view (snd (delete_doc no_faults ti now i db)) = (view db)(i := None)
    \<and> (case upsert_doc f j is now d cs db of
         (Inr (k, n, False), db') \<Rightarrow> view db' = (view db)(k \<mapsto> (new_row k now d, chunk_rows is k cs))
       | (Inr (k, n, True), db') \<Rightarrow> view db' = view db
       | (Inl e, db') \<Rightarrow> view db' = view db \<or> view db' = (view db)(j \<mapsto> (new_row j now d, chunk_rows is j cs)))
    \<and> (\<exists>r e db'. compact sh g now b db = Some (r, e, db') \<and> view db' = view db)"
proof (intro conjI)
  show "get_doc NoFault i db = (case view db i of None \<Rightarrow> Inl ErrNotFound | Some (d, cs) \<Rightarrow> Inr d)"
    by (rule get_doc_view)
  show "view (snd (delete_doc no_faults ti now i db)) = (view db)(i := None)"
  proof (cases "view db i = None")
    case True
    then show ?thesis by (simp add: delete_not_live fun_upd_idem)
  next
    case False
    then obtain x where "doc_by_id db i = Some x" "live x" by (auto simp: view_None_iff split: option.splits)
    then show ?thesis by (simp add: delete_live [OF assms(1,4)] view_with_tomb)
  qed
  obtain r db' where u: "upsert_doc f j is now d cs db = (r, db')" by fastforce
  have "db' = db \<or> (db' = with_doc j is now d cs db \<and> j \<notin> d_id ` set (docs db))"
    using upsert_doc_db [of f j "is" now d cs db] u by auto
  then have v: "view db' = view db \<or> view db' = (view db)(j \<mapsto> (new_row j now d, chunk_rows is j cs))"
    using view_with_doc [OF assms(1)] by auto
  show "case upsert_doc f j is now d cs db of
         (Inr (k, n, False), db') \<Rightarrow> view db' = (view db)(k \<mapsto> (new_row k now d, chunk_rows is k cs))
       | (Inr (k, n, True), db') \<Rightarrow> view db' = view db
       | (Inl e, db') \<Rightarrow> view db' = view db \<or> view db' = (view db)(j \<mapsto> (new_row j now d, chunk_rows is j cs))"
    using v upsert_doc_Inr [OF assms(1), of f j "is" now d cs] view_with_doc [OF assms(1)] u
    by (auto split: sum.splits bool.splits prod.splits)
  show "\<exists>r e db'. compact sh g now b db = Some (r, e, db') \<and> view db' = view db"
    using compact_loop_spec [OF assms(2,3,1), of now 0 "\<lparr>res_tombs = 0, res_chunks = 0\<rparr>"] view_compacts
    by (auto simp: compact_def compacts_to_def)
qed

theorem store_refines_view_witness:
  "view (snd (delete_doc no_faults 3 200 7 ex_db)) = (view ex_db)(7 := None)"
  using store_refines_view [OF ex_db_ok, of "\<lambda>ts. ts" "\<lambda>k. no_faults" 3 7 200]
  by (simp add: honest_def ex_db_def with_doc_def empty_db_def)

text \<open>A deleted document never comes back: indexing its content again answers with the deleted id as
  "already existed", and the document stays not found.\<close>

theorem deleted_stays_deleted:
  assumes "db_ok db" "x \<in> set (docs db)" "\<not> live x" "n_hash d = d_hash x"
  shows "\<exists>n. upsert_doc no_faults i is now d cs db = (Inr (d_id x, n, True), db)
    \<and> get_doc NoFault (d_id x) db = Inl ErrNotFound"
proof -
  have h: "doc_by_hash db (n_hash d) = Some x" using doc_by_hash_iff [OF assms(1)] assms(2,4) by simp
  then have "insert_doc i now d db = Inl ErrNoRows" by (simp add: insert_doc_def)
  moreover have "doc_by_id db (d_id x) = Some x" using doc_by_id_iff [OF assms(1)] assms(2) by simp
  then have "get_doc NoFault (d_id x) db = Inl ErrNotFound" using assms(3) by (simp add: get_doc_def live_def)
  ultimately show ?thesis using h by (simp add: upsert_doc_def commit_def)
qed

lemma ex_delete: "delete_doc no_faults 3 200 7 ex_db = (None, with_tomb 3 200 7 ex_db)"
  by (rule delete_live [OF ex_db_ok, of _ _ "new_row 7 100 ex_doc"])
     (simp_all add: ex_db_def with_doc_def empty_db_def doc_by_id_def new_row_def live_def)

theorem deleted_stays_deleted_witness:
  "\<exists>n. upsert_doc no_faults 9 [] 300 ex_doc [] (with_tomb 3 200 7 ex_db) = (Inr (7, n, True), with_tomb 3 200 7 ex_db)
    \<and> get_doc NoFault 7 (with_tomb 3 200 7 ex_db) = Inl ErrNotFound"
proof -
  let ?x = "(new_row 7 100 ex_doc)\<lparr>d_deleted := Some 200\<rparr>"
  have "db_ok (with_tomb 3 200 7 ex_db)"
    using delete_doc_ok [OF ex_db_ok, of no_faults 3 200 7] by (simp only: ex_delete snd_conv)
  moreover have "?x \<in> set (docs (with_tomb 3 200 7 ex_db))"
    by (simp add: with_tomb_def mark_deleted_def ex_db_def with_doc_def empty_db_def new_row_def)
  moreover have "\<not> live ?x" "n_hash ex_doc = d_hash ?x" "d_id ?x = 7" by (simp_all add: live_def new_row_def)
  ultimately show ?thesis
    using deleted_stays_deleted [of "with_tomb 3 200 7 ex_db" ?x ex_doc 9 "[]" 300 "[]"] by (simp only: simp_thms)
qed

lemma compact_one_no_faults:
  "compact_one no_faults now ti i db = (Inr (length (chunks_of db i)), compacted ti now i db)"
  by (simp add: compact_one_def compacted_def delete_chunks_def commit_def)

lemma compact_loop_no_faults:
  assumes "reorders sh" "db_ok db"
  shows "\<exists>r db'. compact_loop sh (\<lambda>k. no_faults) now k res db = Some (r, None, db')"
  using assms(2)
proof (induction "length (pending db)" arbitrary: db res k rule: less_induct)
  case less
  show ?case
  proof (rule next_tomb_cases [OF assms(1), of db])
    assume "next_tomb sh db = Inl ErrNoRows"
    then show ?thesis by (subst compact_loop.simps) simp
  next
    fix t assume t: "next_tomb sh db = Inr (t_id t, t_doc t)" "t \<in> set (pending db)"
    have ok: "db_ok (compacted (t_id t) now (t_doc t) db)"
      by (rule compacted_ok [OF less.prems pending_has_tomb [OF t(2)]])
    have "length (pending (compacted (t_id t) now (t_doc t) db)) < length (pending db)"
      using length_pending_compacted [OF less.prems t(2), of now "t_doc t"] by simp
    from less.hyps [OF this ok] show ?thesis
      by (subst compact_loop.simps) (simp add: t(1) compact_one_no_faults)
  qed
qed

lemma compacted_no_chunks:
  assumes "db_ok db" "pending db = []" "is_deleted db i"
  shows "chunks_of db i = []"
proof -
  obtain d where d: "d \<in> set (docs db)" "d_id d = i" "\<not> live d"
    using is_deleted_iff [OF assms(1)] assms(3) by blast
  then obtain t where t: "t \<in> set (tombs db)" "t_doc t = i" using db_okD(9) [OF assms(1)] by force
  have "t_compacted t \<noteq> None"
    using assms(2,3) t by (auto simp: pending_def filter_empty_conv)
  then show ?thesis using db_okD(8) [OF assms(1) t(1)] t(2) by simp
qed

text \<open>C14. Compaction ends, and when no round trip fails it removes exactly the chunks of the deleted
  documents, empties the queue of pending tombstones and counts both; compacting again does nothing.\<close>

theorem compact_complete:
  assumes "db_ok db" "reorders sh"
  shows "\<exists>r db'. compact sh (\<lambda>k. no_faults) now b db = Some (r, None, db')
    \<and> docs db' = docs db
    \<and> chunks db' = filter (\<lambda>c. \<not> is_deleted db (c_doc c)) (chunks db)
    \<and> pending db' = []
    \<and> res_tombs r = length (pending db)
    \<and> res_chunks r = length (filter (\<lambda>c. is_deleted db (c_doc c)) (chunks db))
    \<and> compact sh (\<lambda>k. no_faults) now' b' db' = Some (\<lparr>res_tombs = 0, res_chunks = 0\<rparr>, None, db')"
proof -
  have h: "honest (\<lambda>k. no_faults)" by (simp add: honest_def)
  let ?r0 = "\<lparr>res_tombs = 0, res_chunks = 0\<rparr>"
  obtain r db' where run: "compact_loop sh (\<lambda>k. no_faults) now 0 ?r0 db = Some (r, None, db')"
    using compact_loop_no_faults [OF assms(2,1)] by blast
  have c: "compacts_to ?r0 db r None db'"
    using compact_loop_spec [OF assms(2) h assms(1), of now 0 ?r0] run by simp
  then obtain D where D: "chunks db' = filter (\<lambda>c. c_doc c \<notin> D) (chunks db)" "\<forall>i \<in> D. is_deleted db i"
    by (auto simp: compacts_to_def)
  have ok: "db_ok db'" and docs: "docs db' = docs db" and pend: "pending db' = []"
    using c by (auto simp: compacts_to_def)
  have "c_doc c \<in> D" if "c \<in> set (chunks db)" "is_deleted db (c_doc c)" for c
  proof -
    have "chunks_of db' (c_doc c) = []"
      using compacted_no_chunks [OF ok pend] that(2) is_deleted_docs [OF docs] by simp
    then show ?thesis using that(1) by (auto simp: chunks_of_def D(1) filter_empty_conv)
  qed
  then have ch: "chunks db' = filter (\<lambda>c. \<not> is_deleted db (c_doc c)) (chunks db)"
    unfolding D(1) using D(2) by (intro filter_cong) auto
  have "next_tomb sh db' = Inl ErrNoRows"
    using reorders_Nil_iff [OF assms(2), of "[]"] by (simp add: next_tomb_def pend)
  then have again: "compact sh (\<lambda>k. no_faults) now' b' db' = Some (?r0, None, db')"
    unfolding compact_def by (subst compact_loop.simps) simp
  have "res_chunks r = length (filter (\<lambda>c. is_deleted db (c_doc c)) (chunks db))"
    using c sum_length_filter_compl [of "\<lambda>c. is_deleted db (c_doc c)" "chunks db"]
    by (simp add: compacts_to_def ch)
  moreover have "res_tombs r = length (pending db)" using c by (simp add: compacts_to_def)
  ultimately show ?thesis using run docs ch pend again by (simp add: compact_def)
qed

theorem compact_complete_witness:
  "\<exists>r db'. compact rev (\<lambda>k. no_faults) 300 0 (with_tomb 3 200 7 ex_db) = Some (r, None, db') \<and> pending db' = []"
  using compact_complete [OF delete_doc_ok [OF ex_db_ok, of no_faults 3 200 7, unfolded ex_delete snd_conv] reorders_id(2),
      of 300 0 0 0]
  by blast

end
