(* ===== verification/Store_Reads.thy ===== *)
theory Store_Reads
  imports Store_Laws
begin

text \<open>
  The reading side of the store: pages of the document list and how they fit together, the hits of
  the two searches, and the text form of a vector.
\<close>

section \<open>Pages of the document list\<close>

interpretation ld: weak_order newer UNIV
  by unfold_locales (auto simp: newer_def)

lemma doc_key_inj: "doc_key a = doc_key b \<Longrightarrow> d_id a = d_id b"
  by (simp add: doc_key_def)

definition listing :: "db \<Rightarrow> doc list" where
  "listing db = sort_by newer (filter live (docs db))"

lemma sorted_listing:
  assumes "db_ok db"
  shows "sorted_wrt newer (listing db)"
proof -
  have d: "distinct (map d_id (listing db))"
    using db_okD(1) [OF assms]
    by (metis distinct_map_filter listing_def mset_eq_imp_distinct_iff mset_map mset_sort_by)
  have "sorted_wrt (\<lambda>a b. \<not> newer b a) (listing db)" unfolding listing_def by (rule ld.sorted_sort_by) simp
  then show ?thesis
  proof (rule sorted_wrt_strictI)
    show "distinct (listing db)" using d by (simp add: distinct_map)
    fix a b assume "a \<in> set (listing db)" "b \<in> set (listing db)" "a \<noteq> b"
    then have "d_id a \<noteq> d_id b" using d inj_onD [of d_id "set (listing db)" a b] by (auto simp: distinct_map)
    then have "doc_key a \<noteq> doc_key b" using doc_key_inj by blast
    then show "newer a b \<or> newer b a" unfolding newer_def using neq_iff by blast
  qed
qed

lemma sort_by_filter:
  assumes "sorted_wrt newer (sort_by newer xs)"
  shows "sort_by newer (filter P xs) = filter P (sort_by newer xs)"
proof (rule sym, rule ld.sort_by_unique)
  show "mset (filter P (sort_by newer xs)) = mset (filter P xs)" by simp
  show "sorted_wrt (\<lambda>a b. \<not> newer b a) (filter P (sort_by newer xs))"
  proof (rule sorted_wrt_filter)
    show "sorted_wrt (\<lambda>a b. \<not> newer b a) (sort_by newer xs)" by (rule ld.sorted_sort_by) simp
  qed
  fix a b assume "a \<in> set (filter P xs)" "b \<in> set (filter P xs)" "a \<noteq> b"
  then show "newer a b \<or> newer b a" using sorted_wrt_total [OF assms, of a b] by simp
qed simp

lemma newer_trans: "newer a b \<Longrightarrow> newer b c \<Longrightarrow> newer a c"
  unfolding newer_def by (rule less_trans)

text \<open>The rows after a given one are the rest of the listing.\<close>

lemma filter_after:
  assumes "sorted_wrt newer (xs @ d # ys)"
  shows "filter (\<lambda>x. doc_key x < doc_key d) (xs @ d # ys) = ys"
proof -
  have "filter (\<lambda>x. doc_key x < doc_key d) xs = []"
    using assms by (auto simp: sorted_wrt_append filter_empty_conv newer_def)
  moreover have "filter (\<lambda>x. doc_key x < doc_key d) ys = ys"
    using assms by (auto simp: sorted_wrt_append filter_id_conv newer_def)
  ultimately show ?thesis by simp
qed

lemma list_docs_first:
  "0 < n \<Longrightarrow> n \<le> 200 \<Longrightarrow> list_docs NoFault t 0 n db = Inr (take (nat n) (listing db))"
  by (simp add: list_docs_def norm_list_limit_def listing_def Let_def)

lemma list_docs_next:
  assumes "db_ok db" "listing db = xs @ d # ys" "d_id d \<noteq> 0" "0 < n" "n \<le> 200"
  shows "list_docs NoFault (d_created d) (d_id d) n db = Inr (take (nat n) ys)"
proof -
  have "sort_by newer (filter (\<lambda>x. doc_key x < doc_key d) (filter live (docs db)))
      = filter (\<lambda>x. doc_key x < doc_key d) (listing db)"
    using sort_by_filter [of "filter live (docs db)"] sorted_listing [OF assms(1)]
    by (simp add: listing_def)
  also have "\<dots> = ys" unfolding assms(2)
    by (rule filter_after) (use sorted_listing [OF assms(1)] in \<open>simp add: assms(2)\<close>)
  finally show ?thesis using assms(3-5) by (simp add: list_docs_def norm_list_limit_def Let_def doc_key_def)
qed

text \<open>
  A client that follows the pages: it asks for the first page, then for the rows after the last one
  of every full page. Fuel counts the requests.
\<close>

fun walk :: "nat \<Rightarrow> int \<Rightarrow> db \<Rightarrow> time \<Rightarrow> uuid \<Rightarrow> doc list list option" where
  "walk 0 n db t i = None"
| "walk (Suc fuel) n db t i =
     (case list_docs NoFault t i n db of
        Inl e \<Rightarrow> None
      | Inr page \<Rightarrow>
          if int (length page) \<noteq> n then Some [page]
          else map_option (Cons page) (walk fuel n db (d_created (last page)) (d_id (last page))))"

lemma walk_rest:
  assumes "db_ok db" "list_all (\<lambda>d. d_id d \<noteq> 0) (docs db)" "0 < n" "n \<le> 200"
    "listing db = xs @ ys" "if xs = [] then i = 0 else t = d_created (last xs) \<and> i = d_id (last xs)"
    "length ys < fuel"
  shows "\<exists>pages. walk fuel n db t i = Some pages \<and> concat pages = ys"
  using assms(5-)
proof (induction fuel arbitrary: xs ys t i)
  case (Suc fuel)
  have page: "list_docs NoFault t i n db = Inr (take (nat n) ys)"
  proof (cases "xs = []")
    case True
    then show ?thesis using Suc.prems list_docs_first [OF assms(3,4)] by simp
  next
    case False
    then have xs: "listing db = butlast xs @ last xs # ys" using Suc.prems(1) by simp
    have "last xs \<in> set (listing db)" unfolding xs by simp
    then have "last xs \<in> set (docs db)" by (simp add: listing_def)
    then have "d_id (last xs) \<noteq> 0" using assms(2) by (auto simp: list_all_iff)
    from list_docs_next [OF assms(1) xs this assms(3,4)] show ?thesis using Suc.prems(2) False by simp
  qed
  show ?case
  proof (cases "int (length (take (nat n) ys)) = n")
    case False
    then have "take (nat n) ys = ys" using assms(3) by auto
    with page False show ?thesis by simp
  next
    case True
    let ?p = "take (nat n) ys"
    have p: "?p \<noteq> []" using True assms(3) by auto
    have "listing db = (xs @ ?p) @ drop (nat n) ys" using Suc.prems(1) by simp
    moreover have "if xs @ ?p = [] then d_id (last ?p) = 0
        else d_created (last ?p) = d_created (last (xs @ ?p)) \<and> d_id (last ?p) = d_id (last (xs @ ?p))"
      using p by simp
    moreover have "length (drop (nat n) ys) < fuel"
      using Suc.prems(3) True assms(3) by (auto simp: min_def split: if_splits)
    ultimately obtain pages where "walk fuel n db (d_created (last ?p)) (d_id (last ?p)) = Some pages"
      "concat pages = drop (nat n) ys"
      using Suc.IH by blast
    with page True show ?thesis by (simp add: append_take_drop_id)
  qed
qed simp

text \<open>Following the pages shows every live document exactly once, newest first: the pages, put
  together, are the sorted list of the live rows, and a number of requests one above the number of
  rows is enough to reach the end.\<close>

theorem walk_all_pages:
  assumes "db_ok db" "list_all (\<lambda>d. d_id d \<noteq> 0) (docs db)" "0 < n" "n \<le> 200"
  shows "\<exists>pages. walk (Suc (length (docs db))) n db 0 0 = Some pages
    \<and> concat pages = listing db \<and> sorted_wrt newer (concat pages)
    \<and> mset (concat pages) = mset (filter live (docs db))"
proof -
  have "length (listing db) < Suc (length (docs db))" by (simp add: listing_def less_Suc_eq_le)
  from walk_rest [OF assms, of "[]" "listing db" 0 0, OF _ _ this]
  obtain pages where w: "walk (Suc (length (docs db))) n db 0 0 = Some pages" "concat pages = listing db" by auto
  have "mset (listing db) = mset (filter live (docs db))" by (simp add: listing_def)
  with w sorted_listing [OF assms(1)] show ?thesis by auto
qed

lemma docs_ex_db: "docs ex_db = [new_row 7 100 ex_doc]"
  by (simp add: ex_db_def with_doc_def empty_db_def)

theorem walk_all_pages_witness:
  "\<exists>pages. walk (Suc (Suc 0)) 1 ex_db 0 0 = Some pages \<and> concat pages = listing ex_db"
proof -
  have "list_all (\<lambda>d. d_id d \<noteq> 0) (docs ex_db)" by (simp add: docs_ex_db new_row_def)
  from walk_all_pages [OF ex_db_ok this, of 1] show ?thesis
    unfolding docs_ex_db list.size by auto
qed

section \<open>Search hits\<close>

lemma submset_set: "mset xs \<subseteq># mset ys \<Longrightarrow> x \<in> set xs \<Longrightarrow> x \<in> set ys"
  by (metis in_multiset_in_set mset_subset_eqD)

lemma submset_map: "mset xs \<subseteq># mset ys \<Longrightarrow> mset (map f xs) \<subseteq># mset (map f ys)"
  by (simp only: mset_map image_mset_subseteq_mono)

lemma int_take_le: "0 < m \<Longrightarrow> int (length (take (nat m) xs)) \<le> m"
  by simp

lemma live_chunk_iff: "live_chunk db c \<longleftrightarrow> view db (c_doc c) \<noteq> None"
  by (simp add: live_chunk_def view_None_iff split: option.split)

text \<open>An index scan yields rows of the table, each at most once.\<close>

definition scans :: "pg \<Rightarrow> bool" where
  "scans g \<longleftrightarrow> (\<forall>rows. mset (pg_scan g rows) \<subseteq># mset rows)"

definition hits_ok :: "db \<Rightarrow> int \<Rightarrow> db_hit list \<Rightarrow> bool" where
  "hits_ok db n hs \<longleftrightarrow>
     int (length hs) \<le> norm_search_limit n
   \<and> distinct (map hit_chunk hs)
   \<and> list_all (\<lambda>h. list_ex (\<lambda>c. c_id c = hit_chunk h \<and> c_doc c = hit_doc h \<and> c_index c = hit_index h
        \<and> c_text c = hit_text h \<and> view db (c_doc c) \<noteq> None) (chunks db)) hs"

lemma hit_of_simps [simp]:
  "hit_chunk (hit_of x c) = c_id c" "hit_doc (hit_of x c) = c_doc c" "hit_index (hit_of x c) = c_index c"
  "hit_text (hit_of x c) = c_text c" "hit_score (hit_of x c) = x"
  by (simp_all add: hit_of_def)

lemma hits_ok_rows:
  assumes "db_ok db" "scans g" "mset (map (\<lambda>h. hit_chunk h) hs) \<subseteq># mset (map c_id rows)"
    "rows = pg_scan g (filter P (chunks db))" "int (length hs) \<le> norm_search_limit n"
    "\<And>h. h \<in> set hs \<Longrightarrow> \<exists>c \<in> set rows. \<exists>x. h = hit_of x c"
    "\<And>c. P c \<Longrightarrow> live_chunk db c"
  shows "hits_ok db n hs"
proof -
  have sub: "mset rows \<subseteq># mset (filter P (chunks db))" using assms(2) unfolding scans_def assms(4) by blast
  then have "mset (map c_id rows) \<subseteq># mset (map c_id (filter P (chunks db)))"
    by (simp add: image_mset_subseteq_mono)
  moreover have "distinct (map c_id (filter P (chunks db)))"
    using db_okD(3) [OF assms(1)] by (simp add: chunk_keys_free_def distinct_map_filter)
  ultimately have "distinct (map c_id rows)" by (rule distinct_submset)
  with assms(3) have d: "distinct (map hit_chunk hs)" by (rule distinct_submset)
  have "c \<in> set (chunks db) \<and> P c" if "c \<in> set rows" for c
    using submset_set [OF sub that] by simp
  then show ?thesis
    using d assms(5,6,7) by (fastforce simp: hits_ok_def list_all_iff list_ex_iff live_chunk_iff)
qed

interpretation bm: weak_order "\<lambda>a b :: db_hit. f64_lt (hit_score b) (hit_score a)" "{h. hit_score h \<noteq> NaN}"
  by unfold_locales (use f64_lt_asym f64_lt_neg_trans in blast)+

lemma sorted_wrt_take: "sorted_wrt P xs \<Longrightarrow> sorted_wrt P (take n xs)"
  by (metis append_take_drop_id sorted_wrt_append)

lemma norm_search_limit_pos [simp]: "0 < norm_search_limit n"
  by (simp add: norm_search_limit_def)

text \<open>Ranks and distances are numbers.\<close>

definition numeric :: "pg \<Rightarrow> bool" where
  "numeric g \<longleftrightarrow> (\<forall>q t. pg_rank g q t \<noteq> NaN \<and> pg_distance g q t \<noteq> NaN)"

lemma bm25_hits:
  assumes "db_ok db" "scans g" "numeric g" "search_bm25 g f q n db = Inr hs"
  shows "hits_ok db n hs
    \<and> list_all (\<lambda>h. pg_matches g q (hit_text h) \<and> hit_score h = pg_rank g q (hit_text h)) hs
    \<and> sorted_wrt (\<lambda>a b. \<not> f64_lt (hit_score a) (hit_score b)) hs"
proof -
  let ?P = "\<lambda>c. live_chunk db c \<and> pg_matches g q (c_text c)"
  let ?rows = "pg_scan g (filter ?P (chunks db))"
  let ?hits = "map (\<lambda>c. hit_of (pg_rank g q (c_text c)) c) ?rows"
  let ?lt = "\<lambda>a b :: db_hit. f64_lt (hit_score b) (hit_score a)"
  have hs: "hs = take (nat (norm_search_limit n)) (sort_by ?lt ?hits)"
    using assms(4) by (simp add: search_bm25_def Let_def call_Inr)
  have sub: "mset hs \<subseteq># mset ?hits" 
    unfolding hs using mset_take_le [of "nat (norm_search_limit n)" "sort_by ?lt ?hits"] by (simp only: mset_sort_by)
  have mem: "\<exists>c \<in> set ?rows. h = hit_of (pg_rank g q (c_text c)) c" if "h \<in> set hs" for h
    using submset_set [OF sub that] by auto
  have "mset (map hit_chunk hs) \<subseteq># mset (map hit_chunk ?hits)"
    by (rule submset_map [OF sub])
  also have "map hit_chunk ?hits = map c_id ?rows" by simp
  finally have ids: "mset (map hit_chunk hs) \<subseteq># mset (map c_id ?rows)" .
  have len: "int (length hs) \<le> norm_search_limit n" unfolding hs by (rule int_take_le) simp
  have hits: "hits_ok db n hs"
    by (rule hits_ok_rows [OF assms(1,2) ids refl len]) (use mem in blast)+
  have rows: "?P c" if "c \<in> set ?rows" for c
  proof -
    have "mset ?rows \<subseteq># mset (filter ?P (chunks db))" using assms(2) unfolding scans_def by (rule spec)
    from submset_set [OF this that] show ?thesis by simp
  qed
  have all: "list_all (\<lambda>h. pg_matches g q (hit_text h) \<and> hit_score h = pg_rank g q (hit_text h)) hs"
    unfolding list_all_iff
  proof
    fix h assume "h \<in> set hs"
    with mem obtain c where c: "c \<in> set ?rows" "h = hit_of (pg_rank g q (c_text c)) c" by blast
    show "pg_matches g q (hit_text h) \<and> hit_score h = pg_rank g q (hit_text h)"
      using rows [OF c(1)] unfolding c(2) by simp
  qed
  have "set ?hits \<subseteq> {h. hit_score h \<noteq> NaN}" using assms(3) by (auto simp: numeric_def)
  from bm.sorted_sort_by [OF this]
  have "sorted_wrt (\<lambda>a b. \<not> f64_lt (hit_score a) (hit_score b)) hs"
    unfolding hs by (rule sorted_wrt_take)
  with hits all show ?thesis by blast
qed

text \<open>The keyword search returns chunks of documents a client can see, each at most once and at most
  as many as the limit, that match the query, in descending order of their rank.\<close>

theorem search_bm25_hits:
  assumes "db_ok db" "scans g" "numeric g" "search_bm25 g f q n db = Inr hs"
  shows "hits_ok db n hs
    \<and> list_all (\<lambda>h. pg_matches g q (hit_text h) \<and> hit_score h = pg_rank g q (hit_text h)) hs
    \<and> sorted_wrt (\<lambda>a b. \<not> f64_lt (hit_score a) (hit_score b)) hs"
  by (rule bm25_hits [OF assms])

definition ex_pg :: pg where
  "ex_pg = \<lparr>pg_matches = (\<lambda>q t. q = t), pg_rank = (\<lambda>q t. Fin 1), pg_distance = (\<lambda>a b. Fin 0), pg_scan = (\<lambda>rows. rows)\<rparr>"

lemma ex_pg_ok [simp]: "scans ex_pg" "numeric ex_pg"
  by (simp_all add: scans_def numeric_def ex_pg_def)

theorem search_bm25_hits_witness: "\<exists>hs. search_bm25 ex_pg NoFault (str ''b'') 5 ex_db = Inr hs \<and> hits_ok ex_db 5 hs"
proof -
  obtain hs where "search_bm25 ex_pg NoFault (str ''b'') 5 ex_db = Inr hs"
    by (simp add: search_bm25_def Let_def)
  then show ?thesis using search_bm25_hits [OF ex_db_ok ex_pg_ok, of NoFault "str ''b''" 5 hs] by blast
qed

text \<open>The order of the rows of a vector search.\<close>

interpretation vs: weak_order "\<lambda>a b :: chunk_row. f64_lt (d (c_embedding a)) (d (c_embedding b))" "{c. d (c_embedding c) \<noteq> NaN}"
  for d :: "gostring \<Rightarrow> f64"
  by unfold_locales (use f64_lt_asym f64_lt_neg_trans in blast)+

lemma vector_hits:
  assumes "db_ok db" "scans g" "numeric g" "search_vector g f v n db = Inr hs"
  shows "hits_ok db n hs
    \<and> (\<exists>rows rest. hs = map (\<lambda>c. hit_of (f64_sub (Fin 1) (pg_distance g (c_embedding c) (format_vector v))) c) rows
        \<and> mset (rows @ rest) = mset (pg_scan g (filter (live_chunk db) (chunks db)))
        \<and> sorted_wrt (\<lambda>a b. \<not> f64_lt (pg_distance g (c_embedding b) (format_vector v))
                                 (pg_distance g (c_embedding a) (format_vector v))) (rows @ rest))"
proof -
  let ?d = "\<lambda>t. pg_distance g t (format_vector v)"
  let ?scan = "pg_scan g (filter (live_chunk db) (chunks db))"
  let ?s = "sort_by (\<lambda>a b. f64_lt (?d (c_embedding a)) (?d (c_embedding b))) ?scan"
  let ?m = "nat (norm_search_limit n)"
  have hs: "hs = map (\<lambda>c. hit_of (f64_sub (Fin 1) (?d (c_embedding c))) c) (take ?m ?s)"
    using assms(4) by (simp add: search_vector_def Let_def call_Inr)
  have "mset (take ?m ?s) \<subseteq># mset ?scan" using mset_take_le [of ?m ?s] by (simp only: mset_sort_by)
  then have "mset (map c_id (take ?m ?s)) \<subseteq># mset (map c_id ?scan)"
    by (simp add: image_mset_subseteq_mono)
  moreover have "map hit_chunk hs = map c_id (take ?m ?s)" by (simp add: hs)
  ultimately have ids: "mset (map hit_chunk hs) \<subseteq># mset (map c_id ?scan)" by simp
  have len: "int (length hs) \<le> norm_search_limit n"
    unfolding hs length_map by (rule int_take_le) simp
  have "hits_ok db n hs"
    by (rule hits_ok_rows [OF assms(1,2) ids refl len]) (auto simp: hs dest!: in_set_takeD)
  moreover have "sorted_wrt (\<lambda>a b. \<not> f64_lt (?d (c_embedding b)) (?d (c_embedding a))) ?s"
    using assms(3) by (intro vs.sorted_sort_by) (auto simp: numeric_def)
  ultimately show ?thesis
    by (intro conjI exI [of _ "take ?m ?s"] exI [of _ "drop ?m ?s"])
       (simp_all only: hs append_take_drop_id mset_sort_by)
qed

text \<open>The vector search returns chunks of documents a client can see, each at most once and at most as
  many as the limit: the nearest of the rows the index scan yielded, nearest first, each scored one
  minus its distance.\<close>

theorem search_vector_hits:
  assumes "db_ok db" "scans g" "numeric g" "search_vector g f v n db = Inr hs"
  shows "hits_ok db n hs
    \<and> (\<exists>rows rest. hs = map (\<lambda>c. hit_of (f64_sub (Fin 1) (pg_distance g (c_embedding c) (format_vector v))) c) rows
        \<and> mset (rows @ rest) = mset (pg_scan g (filter (live_chunk db) (chunks db)))
        \<and> sorted_wrt (\<lambda>a b. \<not> f64_lt (pg_distance g (c_embedding b) (format_vector v))
                                 (pg_distance g (c_embedding a) (format_vector v))) (rows @ rest))"
  by (rule vector_hits [OF assms])

theorem search_vector_hits_witness:
  "\<exists>hs. search_vector ex_pg NoFault [] 5 ex_db = Inr hs \<and> hits_ok ex_db 5 hs"
proof -
  obtain hs where "search_vector ex_pg NoFault [] 5 ex_db = Inr hs"
    by (simp add: search_vector_def Let_def)
  then show ?thesis using search_vector_hits [OF ex_db_ok ex_pg_ok, of NoFault "[]" 5 hs] by blast
qed


section \<open>The text form of a vector\<close>

text \<open>Reading a decimal back, as the vector type does.\<close>

text \<open>The decimal \<open>[-]d+.d\<close> with six decimals.\<close>

definition read_float6 :: "gostring \<Rightarrow> rat" where
  "read_float6 s =
     (let neg = (take 1 s = str ''-''); s = (if neg then drop 1 s else s);
          whole = takeWhile is_dec s; frac = drop 1 (dropWhile is_dec s);
          q = of_nat (read_nat whole) + of_nat (read_nat frac) / 1000000
      in if neg then - q else q)"

lemma not_dec_dot: "\<not> is_dec (of_char (CHR ''.''))" "\<not> is_dec (of_char (CHR ''-''))"
  by (simp_all add: is_dec_def)

lemma takeWhile_dec: "list_all is_dec s \<Longrightarrow> takeWhile is_dec (s @ of_char (CHR ''.'') # r) = s"
  "list_all is_dec s \<Longrightarrow> dropWhile is_dec (s @ of_char (CHR ''.'') # r) = of_char (CHR ''.'') # r"
  using not_dec_dot by (induction s) auto

lemma read_format_float6:
  "read_float6 (format_float6 (Fin q)) = (if q < 0 then -1 else 1) * (of_nat (nat (rne (\<bar>q\<bar> * 1000000))) / 1000000)"
proof -
  define n where "n = nat (rne (\<bar>q\<bar> * 1000000))"
  define s where "s = dec_nat (n div 1000000) @ of_char (CHR ''.'') # pad_dec 6 (n mod 1000000)"
  have dec: "list_all is_dec (dec_nat (n div 1000000))" "read_nat (dec_nat (n div 1000000)) = n div 1000000"
    using read_dec_nat by auto
  have pad: "read_nat (pad_dec 6 (n mod 1000000)) = n mod 1000000" using read_pad_dec [of "n mod 1000000" 6] by simp
  obtain b r where br: "dec_nat (n div 1000000) = b # r" "is_dec b"
    using read_dec_nat [of "n div 1000000"] by (cases "dec_nat (n div 1000000)") auto
  have "b \<noteq> of_char (CHR ''-'')" using br(2) not_dec_dot(2) by blast
  then have t1: "take 1 s \<noteq> str ''-''" by (simp add: s_def br(1))
  have "rat_of_nat (n div 1000000) + of_nat (n mod 1000000) / 1000000 = of_nat n / 1000000"
  proof -
    have "rat_of_nat n = of_nat (n div 1000000 * 1000000 + n mod 1000000)" by simp
    then show ?thesis by (simp only: of_nat_add of_nat_mult of_nat_numeral) (simp add: field_simps)
  qed
  then have v: "rat_of_nat (read_nat (takeWhile is_dec s)) + of_nat (read_nat (drop 1 (dropWhile is_dec s))) / 1000000
      = of_nat n / 1000000"
    unfolding s_def takeWhile_dec [OF dec(1)] by (simp add: dec(2) pad)
  have "format_float6 (Fin q) = (if q < 0 then str ''-'' @ s else s)"
    by (simp add: Let_def n_def [symmetric] s_def)
  then show ?thesis
    using t1 v by (simp add: read_float6_def Let_def n_def [symmetric])
qed

text \<open>Storing an embedding component as text loses at most half a millionth: the decimal written into
  the statement reads back within \<open>5e-7\<close> of the value, with the same sign.\<close>

theorem format_float6_error: "\<bar>read_float6 (format_float6 (Fin q)) - q\<bar> \<le> 1 / 2000000"
proof -
  let ?r = "rne (\<bar>q\<bar> * 1000000)"
  have nn: "0 \<le> ?r" using rne_mono [of 0 "\<bar>q\<bar> * 1000000"] rne_of_int [of 0] by simp
  have "\<bar>of_int ?r - \<bar>q\<bar> * 1000000\<bar> \<le> 1 / 2" by (rule rne_error)
  then have "\<bar>rat_of_int ?r / 1000000 - \<bar>q\<bar>\<bar> \<le> 1 / 2000000" by (simp add: abs_le_iff field_simps)
  then show ?thesis
    unfolding read_format_float6 using nn by (cases "q < 0") (auto simp: abs_minus_commute)
qed

end
