(* ===== verification/Embed_Client.thy ===== *)
theory Embed_Client
  imports Go_Errors Float64
begin

text \<open>
  \<open>pkg/embed\<close>: the client of the embedding sidecar, and \<open>embedBatched\<close>, which the API server, the
  indexer and the bench each carry a copy of. The interface \<open>Embedder\<close> is the locale \<open>embedder\<close>.
  Sending a request and decoding a body are parameters; \<open>Sidecar\<close> gives their bytes.
\<close>

section \<open>The client\<close>

definition dim :: nat where
  "dim = 384"

record embed_response =
  embeddings :: "f64 list list"
  resp_model :: gostring
  resp_dim :: int

definition bad_vector :: "f64 list list \<Rightarrow> (nat \<times> f64 list) option" where
  "bad_vector vs = find (\<lambda>(i, v). length v \<noteq> dim) (enumerate 0 vs)"

definition client_embed ::
  "(gostring list \<Rightarrow> reply) \<Rightarrow> (gostring \<Rightarrow> go_error + embed_response) \<Rightarrow> gostring list
     \<Rightarrow> go_error + f64 list list" where
  "client_embed send decode texts =
     (if texts = [] then Inr []
      else bind_err (read_reply (str ''embed'') decode (send texts)) (\<lambda>out.
        if length (embeddings out) \<noteq> length texts
        then Inl (Plain (str ''embed: expected '' @ dec_nat (length texts) @ str '' vectors, got ''
               @ dec_nat (length (embeddings out))))
        else if resp_dim out \<noteq> int dim
        then Inl (Plain (str ''embed: dim mismatch (got '' @ dec_int (resp_dim out) @ str '', want ''
               @ dec_nat dim @ str '')''))
        else case bad_vector (embeddings out) of
               Some (i, v) \<Rightarrow> Inl (Plain (str ''embed: vector '' @ dec_nat i @ str '' has length '' @ dec_nat (length v)))
             | None \<Rightarrow> Inr (embeddings out)))"

record health =
  h_model :: gostring
  h_ready :: bool

text \<open>\<open>Healthz\<close>: the errors of the exchange are passed on unwrapped.\<close>

definition client_healthz :: "reply \<Rightarrow> (gostring \<Rightarrow> go_error + health) \<Rightarrow> go_error + health" where
  "client_healthz rep decode =
     (case rep of
        Not_sent e \<Rightarrow> Inl e
      | Transport_failed e \<Rightarrow> Inl e
      | Response status body \<Rightarrow>
          if status \<noteq> status_ok then Inl (Plain (str ''healthz: non-200'')) else decode body)"

section \<open>Batching\<close>

definition norm_batch :: "int \<Rightarrow> nat" where
  "norm_batch b = (if b \<le> 0 then 32 else nat b)"

lemma norm_batch_pos [simp]: "0 < norm_batch b"
  by (simp add: norm_batch_def)

function batch_loop ::
  "(gostring list \<Rightarrow> go_error + 'v list) \<Rightarrow> int \<Rightarrow> gostring list \<Rightarrow> nat \<Rightarrow> 'v list \<Rightarrow> go_error + 'v list" where
  "batch_loop emb b texts i out =
     (if i < length texts
      then let e = (if length texts < i + norm_batch b then length texts else i + norm_batch b)
           in case emb (take (e - i) (drop i texts)) of
                Inl err \<Rightarrow> Inl err
              | Inr v \<Rightarrow> batch_loop emb b texts (i + norm_batch b) (out @ v)
      else Inr out)"
  by pat_completeness auto
termination
  by (relation "measure (\<lambda>(emb, b, texts, i, out). length texts - i)") (auto intro: diff_less_mono2)

declare batch_loop.simps [simp del]

definition embed_batched ::
  "(gostring list \<Rightarrow> go_error + 'v list) \<Rightarrow> int \<Rightarrow> gostring list \<Rightarrow> go_error + 'v list" where
  "embed_batched emb b texts = (if texts = [] then Inr [] else batch_loop emb b texts 0 [])"

section \<open>The interface\<close>

text \<open>What the callers rely on when they pair texts and vectors by position.\<close>

locale embedder =
  fixes emb :: "gostring list \<Rightarrow> go_error + 'v list" and good :: "'v \<Rightarrow> bool"
  assumes one_each: "emb ts = Inr vs \<Longrightarrow> length vs = length ts"
    and all_good: "emb ts = Inr vs \<Longrightarrow> list_all good vs"
begin

lemma batch_loop_result:
  "batch_loop emb b ts i out = Inr vs \<Longrightarrow> length out = min i (length ts) \<Longrightarrow> list_all good out \<Longrightarrow>
     length vs = length ts \<and> list_all good vs"
proof (induction "length ts - i" arbitrary: i out rule: less_induct)
  case less
  show ?case
  proof (cases "i < length ts")
    case False
    with less.prems show ?thesis by (simp add: batch_loop.simps)
  next
    case True
    let ?e = "if length ts < i + norm_batch b then length ts else i + norm_batch b"
    from True less.prems(1) obtain v where v: "emb (take (?e - i) (drop i ts)) = Inr v"
      "batch_loop emb b ts (i + norm_batch b) (out @ v) = Inr vs"
      by (subst (asm) batch_loop.simps) (auto simp: Let_def split: sum.splits)
    have "length (out @ v) = min (i + norm_batch b) (length ts)"
      using one_each [OF v(1)] less.prems(2) True by auto
    moreover have "list_all good (out @ v)" using all_good [OF v(1)] less.prems(3) by simp
    moreover have "length ts - (i + norm_batch b) < length ts - i"
      using True norm_batch_pos [of b] by (intro diff_less_mono2) auto
    ultimately show ?thesis using less.hyps v(2) by blast
  qed
qed

lemma embed_batched_result:
  "embed_batched emb b ts = Inr vs \<Longrightarrow> length vs = length ts \<and> list_all good vs"
  using batch_loop_result [of b ts 0 "[]"] by (auto simp: embed_batched_def split: if_splits)

end

definition full_vector :: "f64 list \<Rightarrow> bool" where
  "full_vector v \<longleftrightarrow> length v = dim"

lemma bad_vector_None: "bad_vector vs = None \<longleftrightarrow> list_all full_vector vs"
proof -
  have "find (\<lambda>(i, v). length v \<noteq> dim) (enumerate n vs) = None \<longleftrightarrow> list_all full_vector vs" for n
    by (induction vs arbitrary: n) (auto simp: full_vector_def)
  then show ?thesis by (simp add: bad_vector_def)
qed

lemma not_Some_pair: "(\<forall>a b. z \<noteq> Some (a, b)) \<longleftrightarrow> z = None"
  by (cases z) auto

lemma client_embed_Inr:
  "client_embed send decode ts = Inr vs \<longleftrightarrow>
     (if ts = [] then vs = []
      else \<exists>body out. send ts = Response 200 body \<and> decode body = Inr out \<and> vs = embeddings out
             \<and> length vs = length ts \<and> resp_dim out = int dim \<and> list_all full_vector vs)"
  by (auto simp: client_embed_def bind_err_Inr_iff read_reply_Inr_iff bad_vector_None [symmetric] not_Some_pair
      split: if_splits option.splits)

interpretation client: embedder "client_embed send decode" full_vector
  for send :: "gostring list \<Rightarrow> reply" and decode :: "gostring \<Rightarrow> go_error + embed_response"
  by unfold_locales (auto simp: client_embed_Inr split: if_splits)

section \<open>Properties\<close>

text \<open>The client answers exactly when there is nothing to embed or the sidecar replied 200 with a body
  that decodes to one vector per text, reports 384 dimensions and holds only vectors of that length;
  every other reply is an error.\<close>

theorem client_embed_answers:
  "(\<exists>vs. client_embed send decode ts = Inr vs) \<longleftrightarrow>
     ts = [] \<or> (\<exists>body out. send ts = Response 200 body \<and> decode body = Inr out
       \<and> length (embeddings out) = length ts \<and> resp_dim out = 384 \<and> list_all (\<lambda>v. length v = 384) (embeddings out))"
  unfolding client_embed_Inr by (auto simp: dim_def full_vector_def [abs_def])

text \<open>Batching keeps texts and vectors together: whatever the batch size, an answer of
  \<open>embedBatched\<close> on the client has one vector of 384 numbers for each text.\<close>

theorem embed_batched_count:
  assumes "embed_batched (client_embed send decode) b ts = Inr vs"
  shows "length vs = length ts \<and> list_all (\<lambda>v. length v = 384) vs"
  using client.embed_batched_result [OF assms] by (simp add: full_vector_def [abs_def] dim_def)

lemma ex_embed:
  "embed_batched (client_embed (\<lambda>ts. Response 200 []) (\<lambda>b. Inr \<lparr>embeddings = [replicate 384 (Fin 0)], resp_model = [], resp_dim = 384\<rparr>))
     1 [[], []] = Inr [replicate 384 (Fin 0), replicate 384 (Fin 0)]"
proof -
  have "client_embed (\<lambda>ts. Response 200 []) (\<lambda>b. Inr \<lparr>embeddings = [replicate 384 (Fin 0)], resp_model = [], resp_dim = 384\<rparr>) [t]
      = Inr [replicate 384 (Fin 0)]" for t
    by (auto simp: client_embed_Inr dim_def full_vector_def)
  then show ?thesis by (simp add: embed_batched_def batch_loop.simps norm_batch_def)
qed

theorem embed_batched_count_witness: "length [replicate 384 (Fin 0), replicate 384 (Fin 0)] = length [[], [] :: gostring]"
  using embed_batched_count [OF ex_embed] by blast

text \<open>An embedder that treats every text on its own.\<close>

lemma batch_loop_pointwise:
  assumes "\<And>us. emb us = Inr (map g us)"
  shows "batch_loop emb b ts i out = Inr (out @ map g (drop i ts))"
proof (induction "length ts - i" arbitrary: i out rule: less_induct)
  case less
  show ?case
  proof (cases "i < length ts")
    case False
    then show ?thesis by (simp add: batch_loop.simps)
  next
    case True
    let ?e = "if length ts < i + norm_batch b then length ts else i + norm_batch b"
    have "length ts - (i + norm_batch b) < length ts - i"
      using True norm_batch_pos [of b] by (intro diff_less_mono2) auto
    note IH = less.hyps [OF this]
    have "take (?e - i) (drop i ts) @ drop (i + norm_batch b) ts = drop i ts"
      using True by (auto simp: append_eq_conv_conj take_drop)
    then have "map g (take (?e - i) (drop i ts)) @ map g (drop (i + norm_batch b) ts) = map g (drop i ts)"
      by (metis map_append)
    then show ?thesis using True IH by (subst batch_loop.simps) (simp add: Let_def assms)
  qed
qed

text \<open>Batching is invisible: for an embedder whose vector for a text depends on that text alone, every
  batch size gives what one big request would give.\<close>

theorem embed_batched_pointwise:
  assumes "\<And>us. emb us = Inr (map g us)"
  shows "embed_batched emb b ts = emb ts"
  using batch_loop_pointwise [of emb g b ts 0 "[]"] by (simp add: embed_batched_def assms)

theorem embed_batched_pointwise_witness:
  "embed_batched (\<lambda>us. Inr (map length us)) 2 [[], [1], [2, 3]] = Inr [0, 1, 2 :: nat]"
  using embed_batched_pointwise [of "\<lambda>us. Inr (map length us)" length 2 "[[], [1], [2, 3 :: byte]]"] by simp

end
