(* ===== verification/Hybrid.thy ===== *)
theory Hybrid
  imports Rrf Rerank Sanitize Store_Reads Embed_Client
begin

text \<open>
  \<open>internal/search/hybrid.go\<close>: the retrieval modes and \<open>Engine.Query\<close>, which asks the store for the
  keyword and the vector hits, fuses them and lets the reranker reorder the top. The store and the
  embedder are arguments, as the interfaces \<open>Backend\<close> and \<open>Embedder\<close> have them; the locale \<open>backend\<close>
  says what the engine's guarantees need of the store, and the model of \<open>Store\<close> provides it. The text
  form of a uuid is a parameter.
\<close>

section \<open>Modes\<close>

datatype mode = ModeHybrid | ModeKeyword | ModeVector | ModeHybridRerank

fun mode_str :: "mode \<Rightarrow> gostring" where
  "mode_str ModeHybrid = str ''hybrid''"
| "mode_str ModeKeyword = str ''keyword''"
| "mode_str ModeVector = str ''vector''"
| "mode_str ModeHybridRerank = str ''hybrid+rerank''"

text \<open>\<open>%q\<close> quotes its argument; how it escapes it is left open.\<close>

definition parse_mode :: "(gostring \<Rightarrow> gostring) \<Rightarrow> gostring \<Rightarrow> go_error + mode" where
  "parse_mode quote s =
     (if s = [] then Inr ModeHybrid
      else if s = mode_str ModeHybrid then Inr ModeHybrid
      else if s = mode_str ModeKeyword then Inr ModeKeyword
      else if s = mode_str ModeVector then Inr ModeVector
      else if s = mode_str ModeHybridRerank then Inr ModeHybridRerank
      else Inl (Plain (str ''unknown mode '' @ quote s)))"

section \<open>The engine\<close>

record result =
  r_doc :: gostring
  r_chunk :: gostring
  r_score :: f64
  r_snippet :: gostring
  r_signals :: "gostring \<rightharpoonup> f64"

type_synonym reranker_fun = "gostring \<Rightarrow> candidate list \<Rightarrow> int \<Rightarrow> go_error + scored list"

record engine =
  per_list_limit :: int
  rerank_input_n :: int
  e_reranker :: "reranker_fun option"

definition new_engine :: engine where
  "new_engine = \<lparr>per_list_limit = 50, rerank_input_n = 20, e_reranker = None\<rparr>"

definition with_reranker :: "reranker_fun \<Rightarrow> engine \<Rightarrow> engine" where
  "with_reranker r e = e\<lparr>e_reranker := Some r\<rparr>"

record 'v deps =
  bm25 :: "gostring \<Rightarrow> int \<Rightarrow> go_error + db_hit list"
  vsearch :: "'v \<Rightarrow> int \<Rightarrow> go_error + db_hit list"
  embed_texts :: "gostring list \<Rightarrow> go_error + 'v list"
  uuid_str :: "uuid \<Rightarrow> gostring"

definition truncate :: "gostring \<Rightarrow> nat \<Rightarrow> gostring" where
  "truncate s n = (if length s \<le> n then s else take n s @ [0xE2, 0x80, 0xA6])"

text \<open>The maps \<open>snippets\<close> and \<open>chunkToDoc\<close>, as one map from a chunk id to both.\<close>

type_synonym chunk_info = "gostring \<rightharpoonup> gostring \<times> gostring"

text \<open>The loop over the keyword hits overwrites, the loop over the vector hits only adds.\<close>

fun note_bm25 :: "(uuid \<Rightarrow> gostring) \<Rightarrow> db_hit list \<Rightarrow> chunk_info \<Rightarrow> chunk_info" where
  "note_bm25 us [] m = m"
| "note_bm25 us (h # hs) m = note_bm25 us hs (m(us (hit_chunk h) \<mapsto> (hit_text h, us (hit_doc h))))"

fun note_vector :: "(uuid \<Rightarrow> gostring) \<Rightarrow> db_hit list \<Rightarrow> chunk_info \<Rightarrow> chunk_info" where
  "note_vector us [] m = m"
| "note_vector us (h # hs) m =
     note_vector us hs (if m (us (hit_chunk h)) = None then m(us (hit_chunk h) \<mapsto> (hit_text h, us (hit_doc h))) else m)"

definition as_hits :: "(uuid \<Rightarrow> gostring) \<Rightarrow> db_hit list \<Rightarrow> hit list" where
  "as_hits us hs = map (\<lambda>h. \<lparr>h_id = us (hit_chunk h), h_score = hit_score h\<rparr>) hs"

definition snippet_of :: "chunk_info \<Rightarrow> gostring \<Rightarrow> gostring" where
  "snippet_of m i = (case m i of None \<Rightarrow> [] | Some (t, d) \<Rightarrow> t)"

definition doc_of :: "chunk_info \<Rightarrow> gostring \<Rightarrow> gostring" where
  "doc_of m i = (case m i of None \<Rightarrow> [] | Some (t, d) \<Rightarrow> d)"

definition norm_engine :: "engine \<Rightarrow> engine" where
  "norm_engine e = e\<lparr>per_list_limit := (if per_list_limit e \<le> 0 then 50 else per_list_limit e),
                     rerank_input_n := (if rerank_input_n e \<le> 0 then 20 else rerank_input_n e)\<rparr>"

definition uses_bm25 :: "mode \<Rightarrow> bool" where
  "uses_bm25 m \<longleftrightarrow> m = ModeHybrid \<or> m = ModeKeyword \<or> m = ModeHybridRerank"

definition uses_vector :: "mode \<Rightarrow> bool" where
  "uses_vector m \<longleftrightarrow> m = ModeHybrid \<or> m = ModeVector \<or> m = ModeHybridRerank"

text \<open>The retrieval half: the ranked ls, in the order they are put into the map, and the chunk info.\<close>

definition bm25_part :: "'v deps \<Rightarrow> int \<Rightarrow> gostring \<Rightarrow> mode \<Rightarrow> go_error + (gostring \<times> hit list) list \<times> chunk_info" where
  "bm25_part d pl q m =
     (if uses_bm25 m
      then bind_err (wrap_err (str ''bm25'') (bm25 d (sanitize_bm25_query q) pl)) (\<lambda>hs.
             Inr ([(str ''bm25'', as_hits (uuid_str d) hs)], note_bm25 (uuid_str d) hs Map.empty))
      else Inr ([], Map.empty))"

definition vector_part ::
  "'v deps \<Rightarrow> int \<Rightarrow> gostring \<Rightarrow> mode \<Rightarrow> (gostring \<times> hit list) list \<times> chunk_info
     \<Rightarrow> go_error + (gostring \<times> hit list) list \<times> chunk_info" where
  "vector_part d pl q m acc =
     (if uses_vector m
      then bind_err (wrap_err (str ''embed'') (embed_texts d [q])) (\<lambda>vecs.
             case vecs of
               [v] \<Rightarrow> bind_err (wrap_err (str ''vector'') (vsearch d v pl)) (\<lambda>hs.
                        Inr (fst acc @ [(str ''vector'', as_hits (uuid_str d) hs)], note_vector (uuid_str d) hs (snd acc)))
             | _ \<Rightarrow> Inl (Plain (str ''embed: empty result for query'')))
      else Inr acc)"

definition retrieve :: "'v deps \<Rightarrow> int \<Rightarrow> gostring \<Rightarrow> mode \<Rightarrow> go_error + (gostring \<times> hit list) list \<times> chunk_info" where
  "retrieve d pl q m = bind_err (bm25_part d pl q m) (vector_part d pl q m)"

definition candidates :: "chunk_info \<Rightarrow> fused list \<Rightarrow> candidate list" where
  "candidates m fs = map (\<lambda>(i, f). \<lparr>chunk_id = fu_id f, doc_id = doc_of m (fu_id f), snippet = snippet_of m (fu_id f),
       prior_score = rrf_score f, prior_rank = int i\<rparr>) (enumerate 0 fs)"

definition reranked_result :: "scored \<Rightarrow> result" where
  "reranked_result s = \<lparr>r_doc = doc_id (cand s), r_chunk = chunk_id (cand s), r_score = rerank_score s,
     r_snippet = truncate (snippet (cand s)) 240,
     r_signals = [str ''rrf'' \<mapsto> prior_score (cand s), str ''rerank'' \<mapsto> rerank_score s]\<rparr>"

definition fused_result :: "chunk_info \<Rightarrow> fused \<Rightarrow> result" where
  "fused_result m f = \<lparr>r_doc = doc_of m (fu_id f), r_chunk = fu_id f, r_score = rrf_score f,
     r_snippet = truncate (snippet_of m (fu_id f)) 240, r_signals = per_signal f\<rparr>"

text \<open>
  The second half of \<open>Query\<close>: fusion, and reranking when the mode asks for it and a reranker is
  installed. \<open>ord\<close> and \<open>sh\<close> are the orders in which the map of lists and the map of scores are visited.
\<close>

definition reranks :: "engine \<Rightarrow> mode \<Rightarrow> bool" where
  "reranks e m \<longleftrightarrow> m = ModeHybridRerank \<and> e_reranker e \<noteq> None"

definition finish ::
  "((gostring \<times> hit list) list \<Rightarrow> (gostring \<times> hit list) list) \<Rightarrow> (fused list \<Rightarrow> fused list) \<Rightarrow> engine
     \<Rightarrow> gostring \<Rightarrow> int \<Rightarrow> mode \<Rightarrow> (gostring \<times> hit list) list \<times> chunk_info \<Rightarrow> go_error + result list" where
  "finish ord sh e q k m p =
     (let fuse_limit = (if reranks e m then rerank_input_n e else k);
          fs = fuse_rrf sh default_rrf_k fuse_limit (ord (fst p))
      in if reranks e m \<and> fs \<noteq> []
         then bind_err (wrap_err (str ''rerank'') (the (e_reranker e) q (candidates (snd p) fs) k)) (\<lambda>scored.
                Inr (map reranked_result scored))
         else Inr (map (fused_result (snd p)) fs))"

text \<open>\<open>Engine.Query\<close>: the answer, and the engine with the defaults it fills in.\<close>

definition norm_query_k :: "int \<Rightarrow> int" where
  "norm_query_k k = (if k \<le> 0 then 10 else k)"

definition engine_query ::
  "((gostring \<times> hit list) list \<Rightarrow> (gostring \<times> hit list) list) \<Rightarrow> (fused list \<Rightarrow> fused list) \<Rightarrow> 'v deps \<Rightarrow> engine
     \<Rightarrow> gostring \<Rightarrow> int \<Rightarrow> mode \<Rightarrow> (go_error + result list) \<times> engine" where
  "engine_query ord sh d e q k m =
     (let k = norm_query_k k; e = norm_engine e
      in (bind_err (retrieve d (per_list_limit e) q m) (finish ord sh e q k m), e))"

section \<open>Truncation\<close>

text \<open>A snippet is the text itself up to 240 bytes, and otherwise its first 240 bytes followed by an
  ellipsis: never more than 243 bytes.\<close>

theorem truncate_bound:
  "length (truncate s n) \<le> n + 3 \<and> take (min n (length s)) (truncate s n) = take n s
   \<and> (if length s \<le> n then truncate s n = s else drop n (truncate s n) = encode_rune 0x2026)"
  by (auto simp: truncate_def encode_rune_def valid_rune_def)

lemma valid_utf8_letters: "valid_utf8 (replicate n 97 @ s) = valid_utf8 s"
proof (induction n)
  case (Suc n)
  have "segs (97 # r) = (97, [97]) # segs r" for r by (simp add: segs_step)
  with Suc show ?case by (simp add: valid_utf8_def)
qed simp

text \<open>The cut is at a byte: the snippet of a well-formed text can end in a broken UTF-8 sequence.\<close>

theorem truncate_breaks_utf8:
  "valid_utf8 (replicate 239 97 @ [0xC3, 0xA9]) \<and> \<not> valid_utf8 (truncate (replicate 239 97 @ [0xC3, 0xA9]) 240)"
proof -
  have "truncate (replicate 239 97 @ [0xC3, 0xA9]) 240 = replicate 239 97 @ [0xC3, 0xE2, 0x80, 0xA6]"
    by (simp add: truncate_def)
  moreover have "valid_utf8 [0xC3, 0xA9]" "\<not> valid_utf8 [0xC3, 0xE2, 0x80, 0xA6]"
    by (simp_all add: valid_utf8_def segs.simps lead_def is_cont_def)
  ultimately show ?thesis by (simp only: valid_utf8_letters simp_thms)
qed

section \<open>Retrieval\<close>

lemma parse_mode_str: "parse_mode quote (mode_str m) = Inr m"
  by (cases m) (simp_all add: parse_mode_def)

text \<open>
  The store as the engine sees it. \<open>visible c d t\<close> says that the chunk \<open>c\<close> of document \<open>d\<close> with text
  \<open>t\<close> may be shown; \<open>healthy\<close> stands for the conditions the store needs for its guarantees.
\<close>

locale backend =
  fixes bm :: "gostring \<Rightarrow> int \<Rightarrow> go_error + db_hit list"
    and vq :: "'v \<Rightarrow> int \<Rightarrow> go_error + db_hit list"
    and visible :: "uuid \<Rightarrow> uuid \<Rightarrow> gostring \<Rightarrow> bool"
    and healthy :: bool
  assumes bm_distinct: "healthy \<Longrightarrow> bm q n = Inr hs \<Longrightarrow> distinct (map hit_chunk hs)"
    and vq_distinct: "healthy \<Longrightarrow> vq v n = Inr hs \<Longrightarrow> distinct (map hit_chunk hs)"
    and bm_limit: "healthy \<Longrightarrow> bm q n = Inr hs \<Longrightarrow> 0 < n \<Longrightarrow> int (length hs) \<le> n"
    and vq_limit: "healthy \<Longrightarrow> vq v n = Inr hs \<Longrightarrow> 0 < n \<Longrightarrow> int (length hs) \<le> n"
    and bm_visible: "healthy \<Longrightarrow> bm q n = Inr hs \<Longrightarrow> h \<in> set hs \<Longrightarrow> visible (hit_chunk h) (hit_doc h) (hit_text h)"
    and vq_visible: "healthy \<Longrightarrow> vq v n = Inr hs \<Longrightarrow> h \<in> set hs \<Longrightarrow> visible (hit_chunk h) (hit_doc h) (hit_text h)"
    and one_row: "healthy \<Longrightarrow> visible c d t \<Longrightarrow> visible c d' t' \<Longrightarrow> d' = d \<and> t' = t"

text \<open>What the chunk info holds for the ids of the lists.\<close>

definition info_ok :: "(uuid \<Rightarrow> uuid \<Rightarrow> gostring \<Rightarrow> bool) \<Rightarrow> (uuid \<Rightarrow> gostring) \<Rightarrow> chunk_info \<Rightarrow> bool" where
  "info_ok visible us info \<longleftrightarrow>
     (\<forall>i t x. info i = Some (t, x) \<longrightarrow> (\<exists>c d. i = us c \<and> x = us d \<and> visible c d t))"

lemma info_ok_upd:
  "info_ok visible us m \<Longrightarrow> visible c d t \<Longrightarrow> info_ok visible us (m(us c \<mapsto> (t, us d)))"
  unfolding info_ok_def by auto

lemma note_bm25_ok:
  "(\<And>h. h \<in> set hs \<Longrightarrow> visible (hit_chunk h) (hit_doc h) (hit_text h)) \<Longrightarrow> info_ok visible us m \<Longrightarrow>
     info_ok visible us (note_bm25 us hs m) \<and> dom (note_bm25 us hs m) = dom m \<union> us ` hit_chunk ` set hs"
proof (induction hs arbitrary: m)
  case (Cons h hs)
  let ?m = "m(us (hit_chunk h) \<mapsto> (hit_text h, us (hit_doc h)))"
  have "info_ok visible us ?m" by (rule info_ok_upd [OF Cons.prems(2)]) (simp add: Cons.prems(1))
  moreover have "visible (hit_chunk x) (hit_doc x) (hit_text x)" if "x \<in> set hs" for x
    using Cons.prems(1) that by simp
  ultimately have "info_ok visible us (note_bm25 us hs ?m) \<and> dom (note_bm25 us hs ?m) = dom ?m \<union> us ` hit_chunk ` set hs"
    by (rule Cons.IH [rotated])
  then show ?case by (simp only: note_bm25.simps) (simp add: insert_commute)
qed simp

lemma note_vector_ok:
  "(\<And>h. h \<in> set hs \<Longrightarrow> visible (hit_chunk h) (hit_doc h) (hit_text h)) \<Longrightarrow> info_ok visible us m \<Longrightarrow>
     info_ok visible us (note_vector us hs m) \<and> dom (note_vector us hs m) = dom m \<union> us ` hit_chunk ` set hs"
proof (induction hs arbitrary: m)
  case (Cons h hs)
  let ?m = "if m (us (hit_chunk h)) = None then m(us (hit_chunk h) \<mapsto> (hit_text h, us (hit_doc h))) else m"
  have "info_ok visible us (m(us (hit_chunk h) \<mapsto> (hit_text h, us (hit_doc h))))"
    by (rule info_ok_upd [OF Cons.prems(2)]) (simp add: Cons.prems(1))
  then have "info_ok visible us ?m" using Cons.prems(2) by simp
  moreover have "visible (hit_chunk x) (hit_doc x) (hit_text x)" if "x \<in> set hs" for x
    using Cons.prems(1) that by simp
  ultimately have "info_ok visible us (note_vector us hs ?m) \<and> dom (note_vector us hs ?m) = dom ?m \<union> us ` hit_chunk ` set hs"
    by (rule Cons.IH [rotated])
  moreover have "dom ?m = insert (us (hit_chunk h)) (dom m)" by auto
  ultimately show ?case by (simp only: note_vector.simps) (simp add: insert_commute)
qed simp

lemma h_id_as_hits: "h_id ` set (as_hits us hs) = us ` hit_chunk ` set hs"
  by (simp add: as_hits_def image_image)

lemma distinct_as_hits: "inj us \<Longrightarrow> distinct (map hit_chunk hs) \<Longrightarrow> distinct (map h_id (as_hits us hs))"
  by (simp add: as_hits_def comp_def distinct_map inj_on_def)

lemma length_as_hits [simp]: "length (as_hits us hs) = length hs"
  by (simp add: as_hits_def)

definition retrieved ::
  "(uuid \<Rightarrow> uuid \<Rightarrow> gostring \<Rightarrow> bool) \<Rightarrow> (uuid \<Rightarrow> gostring) \<Rightarrow> int \<Rightarrow> (gostring \<times> hit list) list \<times> chunk_info \<Rightarrow> bool" where
  "retrieved visible us pl p \<longleftrightarrow>
     ranked (fst p) \<and> length (fst p) \<le> 2 \<and> list_all (\<lambda>(s, hs). int (length hs) \<le> pl) (fst p)
   \<and> info_ok visible us (snd p) \<and> (\<Union>(s, hs) \<in> set (fst p). h_id ` set hs) = dom (snd p)"

context backend
begin

lemma bm25_part_retrieved:
  assumes "healthy" "inj us" "0 < pl" "bm25 d = bm" "uuid_str d = us" "bm25_part d pl q m = Inr p"
  shows "retrieved visible us pl p \<and> length (fst p) \<le> 1 \<and> set (map fst (fst p)) \<subseteq> {str ''bm25''}"
proof (cases "uses_bm25 m")
  case True
  then obtain hs where hs: "bm (sanitize_bm25_query q) pl = Inr hs"
    "p = ([(str ''bm25'', as_hits us hs)], note_bm25 us hs Map.empty)"
    using assms(4-6) by (auto simp: bm25_part_def bind_err_Inr_iff)
  have "info_ok visible us Map.empty" by (simp add: info_ok_def)
  from note_bm25_ok [OF bm_visible [OF assms(1) hs(1)] this]
  show ?thesis
    using bm_distinct [OF assms(1) hs(1)] bm_limit [OF assms(1) hs(1) assms(3)] distinct_as_hits [OF assms(2)]
    by (simp add: retrieved_def ranked_def hs(2) h_id_as_hits)
next
  case False
  then show ?thesis using assms(6) by (auto simp: bm25_part_def retrieved_def ranked_def info_ok_def)
qed

lemma retrieve_retrieved:
  assumes "healthy" "inj us" "0 < pl" "bm25 d = bm" "vsearch d = vq" "uuid_str d = us" "retrieve d pl q m = Inr p"
  shows "retrieved visible us pl p"
proof -
  from assms(7) obtain a where a: "bm25_part d pl q m = Inr a" "vector_part d pl q m a = Inr p"
    by (auto simp: retrieve_def bind_err_Inr_iff)
  note ra = bm25_part_retrieved [OF assms(1-4,6) a(1)]
  show ?thesis
  proof (cases "uses_vector m")
    case False
    with a(2) ra show ?thesis by (simp add: vector_part_def)
  next
    case True
    then obtain vecs where "embed_texts d [q] = Inr vecs"
      and b: "(case vecs of [v] \<Rightarrow> bind_err (wrap_err (str ''vector'') (vq v pl)) (\<lambda>hs.
                   Inr (fst a @ [(str ''vector'', as_hits us hs)], note_vector us hs (snd a)))
             | _ \<Rightarrow> Inl (Plain (str ''embed: empty result for query''))) = Inr p"
      using a(2) assms(5,6) by (auto simp: vector_part_def bind_err_Inr_iff simp del: str_Cons)
    from b obtain v where "vecs = [v]" by (auto split: list.splits)
    with b obtain hs where v: "vq v pl = Inr hs"
      "p = (fst a @ [(str ''vector'', as_hits us hs)], note_vector us hs (snd a))"
      by (auto simp: bind_err_Inr_iff)
    have "info_ok visible us (snd a)" using ra by (simp add: retrieved_def)
    from note_vector_ok [OF vq_visible [OF assms(1) v(1)] this]
    have "info_ok visible us (snd p) \<and> dom (snd p) = dom (snd a) \<union> us ` hit_chunk ` set hs" by (simp add: v(2))
    moreover have "str ''vector'' \<notin> fst ` set (fst a)" using ra by auto
    moreover have "length (fst p) \<le> 2" using ra by (simp add: v(2))
    ultimately show ?thesis
      using ra vq_distinct [OF assms(1) v(1)] vq_limit [OF assms(1) v(1) assms(3)] distinct_as_hits [OF assms(2)]
      by (simp add: retrieved_def ranked_def v(2) h_id_as_hits Un_commute del: str_Cons)
  qed
qed

end

section \<open>The answer of a query\<close>

lemma default_k [simp]: "norm_k default_rrf_k = 60"
  by (simp add: norm_k_def default_rrf_k_def)

lemma norm_top_n_id: "0 < n \<Longrightarrow> norm_top_n n = n"
  by (simp add: norm_top_n_def)

lemma retrieved_fits:
  "retrieved visible us pl p \<Longrightarrow> pl < 2 ^ 62 \<Longrightarrow> fits 60 (fst p)"
  by (auto simp: retrieved_def fits_def list_all_iff)

lemma retrieved_fuse:
  assumes "retrieved visible us pl p" "pl < 2 ^ 62" "reorders ord" "reorders sh"
  shows "fuse_rrf sh default_rrf_k n (ord (fst p)) = fuse_rrf (\<lambda>xs. xs) default_rrf_k n (fst p)"
  using fuse_rrf_any_order [of "fst p" default_rrf_k "ord (fst p)" "\<lambda>xs. xs" sh n]
    retrieved_fits [OF assms(1,2)] assms by (simp add: retrieved_def reorders_mset)

lemma chunk_id_candidates [simp]: "map chunk_id (candidates m fs) = map fu_id fs"
  unfolding candidates_def by (induction fs arbitrary: rule: rev_induct) (simp_all add: enumerate_append_eq)

lemma length_candidates [simp]: "length (candidates m fs) = length fs"
  by (metis chunk_id_candidates length_map)

lemma in_candidates:
  "c \<in> set (candidates m fs) \<Longrightarrow> chunk_id c \<in> fu_id ` set fs
     \<and> doc_id c = doc_of m (chunk_id c) \<and> snippet c = snippet_of m (chunk_id c)"
  by (auto simp: candidates_def in_set_enumerate_eq)

definition answers_visible ::
  "(uuid \<Rightarrow> uuid \<Rightarrow> gostring \<Rightarrow> bool) \<Rightarrow> (uuid \<Rightarrow> gostring) \<Rightarrow> int \<Rightarrow> result list \<Rightarrow> bool" where
  "answers_visible visible us k rs \<longleftrightarrow>
     int (length rs) \<le> k \<and> distinct (map r_chunk rs)
   \<and> list_all (\<lambda>r. \<exists>c d t. r_chunk r = us c \<and> r_doc r = us d \<and> r_snippet r = truncate t 240 \<and> visible c d t) rs"

lemma info_visible:
  assumes "info_ok visible us info" "i \<in> dom info"
  obtains c d t where "i = us c" "doc_of info i = us d" "snippet_of info i = t" "visible c d t"
proof -
  from assms(2) obtain t x where i: "info i = Some (t, x)" by auto
  with assms(1) obtain c d where "i = us c" "x = us d" "visible c d t" unfolding info_ok_def by blast
  with i that show thesis by (simp add: doc_of_def snippet_of_def)
qed

text \<open>A reranker that keeps the interface, when one is installed.\<close>

definition sound_reranker :: "engine \<Rightarrow> bool" where
  "sound_reranker e \<longleftrightarrow> (case e_reranker e of None \<Rightarrow> True | Some f \<Rightarrow> \<exists>adm. reranker f adm)"

definition small_engine :: "engine \<Rightarrow> bool" where
  "small_engine e \<longleftrightarrow> per_list_limit e < 2 ^ 62"

lemma norm_engine_sel:
  "0 < per_list_limit (norm_engine e)" "0 < rerank_input_n (norm_engine e)"
  "e_reranker (norm_engine e) = e_reranker e"
  "small_engine e \<Longrightarrow> per_list_limit (norm_engine e) < 2 ^ 62"
  by (simp_all add: norm_engine_def small_engine_def)

context backend
begin

lemma fused_answers:
  assumes "retrieved visible us pl (ls, info)" "pl < 2 ^ 62" "0 < k"
  shows "answers_visible visible us k (map (fused_result info) (fuse_rrf (\<lambda>xs. xs) default_rrf_k k ls))"
proof -
  let ?f = "fuse_rrf (\<lambda>xs. xs) default_rrf_k k ls"
  have fits: "fits (norm_k default_rrf_k) ls" using retrieved_fits [OF assms(1,2)] by simp
  note facts = fuse_rrf_facts [OF fits reorders_id(1), of k]
  have info: "info_ok visible us info" and dom: "fu_id ` set ?f \<subseteq> dom info"
    using assms(1) facts(3) by (auto simp: retrieved_def)
  have "\<exists>c d t. r_chunk r = us c \<and> r_doc r = us d \<and> r_snippet r = truncate t 240 \<and> visible c d t"
    if "r \<in> set (map (fused_result info) ?f)" for r
  proof -
    from that obtain f where f: "f \<in> set ?f" "r = fused_result info f" by auto
    then have "fu_id f \<in> dom info" using dom by auto
    from info_visible [OF info this] obtain c d t where
      "fu_id f = us c" "doc_of info (fu_id f) = us d" "snippet_of info (fu_id f) = t" "visible c d t" .
    then show ?thesis by (auto simp: f(2) fused_result_def)
  qed
  moreover have "map r_chunk (map (fused_result info) ?f) = map fu_id ?f" by (simp add: fused_result_def comp_def)
  ultimately show ?thesis
    using facts(1,2) norm_top_n_id [OF assms(3)] unfolding answers_visible_def list_all_iff
    by (metis length_map)
qed

lemma reranked_answers:
  assumes "retrieved visible us pl (ls, info)" "pl < 2 ^ 62" "0 < k" "reranker f adm"
    "f q (candidates info (fuse_rrf (\<lambda>xs. xs) default_rrf_k n ls)) k = Inr out"
  shows "answers_visible visible us k (map reranked_result out)"
proof -
  let ?fused = "fuse_rrf (\<lambda>xs. xs) default_rrf_k n ls"
  have fits: "fits (norm_k default_rrf_k) ls" using retrieved_fits [OF assms(1,2)] by simp
  note facts = fuse_rrf_facts [OF fits reorders_id(1), of n]
  have info: "info_ok visible us info" and dom: "fu_id ` set ?fused \<subseteq> dom info"
    using assms(1) facts(3) by (auto simp: retrieved_def)
  have "\<exists>c d t. r_chunk r = us c \<and> r_doc r = us d \<and> r_snippet r = truncate t 240 \<and> visible c d t"
    if "r \<in> set (map reranked_result out)" for r
  proof -
    from that obtain s where s: "s \<in> set out" "r = reranked_result s" by auto
    note c = in_candidates [OF reranker.from_input [OF assms(4,5) s(1)]]
    then have "chunk_id (cand s) \<in> dom info" using dom by blast
    from info_visible [OF info this] obtain x d t where
      "chunk_id (cand s) = us x" "doc_of info (chunk_id (cand s)) = us d" "snippet_of info (chunk_id (cand s)) = t"
      "visible x d t" .
    with c show ?thesis by (auto simp: s(2) reranked_result_def)
  qed
  moreover have "distinct (map r_chunk (map reranked_result out))"
    using reranker.no_duplicates [OF assms(4,5)] facts(1) by (simp add: reranked_result_def comp_def)
  moreover have "int (length out) \<le> k"
    using reranker.fills [OF assms(4,5)] assms(3) by (simp add: limit_def)
  ultimately show ?thesis unfolding answers_visible_def list_all_iff by simp
qed

lemma finish_answers:
  assumes "retrieved visible us pl p" "pl < 2 ^ 62" "0 < k" "reorders ord" "reorders sh" "sound_reranker e"
    "finish ord sh e q k m p = Inr rs"
  shows "answers_visible visible us k rs"
proof -
  obtain ls info where p: "p = (ls, info)" by (cases p)
  note r = assms(1) [unfolded p]
  define n where "n = (if reranks e m then rerank_input_n e else k)"
  define fs where "fs = fuse_rrf (\<lambda>xs. xs) default_rrf_k n ls"
  have "fuse_rrf sh default_rrf_k n (ord ls) = fs"
    using retrieved_fuse [OF r assms(2,4,5)] by (simp add: fs_def)
  then have fin: "(if reranks e m \<and> fs \<noteq> []
         then bind_err (wrap_err (str ''rerank'') (the (e_reranker e) q (candidates info fs) k)) (\<lambda>scored.
                Inr (map reranked_result scored))
         else Inr (map (fused_result info) fs)) = Inr rs"
    using assms(7) by (simp only: finish_def Let_def p fst_conv snd_conv n_def [symmetric])
  show ?thesis
  proof (cases "reranks e m \<and> fs \<noteq> []")
    case True
    then obtain f where f: "e_reranker e = Some f" by (auto simp: reranks_def)
    then obtain adm where adm: "reranker f adm" using assms(6) by (auto simp: sound_reranker_def)
    from fin True f obtain out where "f q (candidates info fs) k = Inr out" "rs = map reranked_result out"
      by (auto simp: bind_err_Inr_iff simp del: str_Cons)
    with reranked_answers [OF r assms(2,3) adm] show ?thesis unfolding fs_def by simp
  next
    case False
    then have rs: "rs = map (fused_result info) fs" using fin by (simp only: if_False sum.inject)
    show ?thesis
    proof (cases "reranks e m")
      case True
      with False show ?thesis using assms(3) by (simp add: rs answers_visible_def)
    next
      case False
      then show ?thesis using fused_answers [OF r assms(2,3)] by (simp add: rs fs_def n_def)
    qed
  qed
qed

lemma engine_query_answers:
  assumes "healthy" "inj (uuid_str d)" "bm25 d = bm" "vsearch d = vq" "reorders ord" "reorders sh"
    "sound_reranker e" "small_engine e" "fst (engine_query ord sh d e q k m) = Inr rs"
  shows "answers_visible visible (uuid_str d) (norm_query_k k) rs"
proof -
  let ?e = "norm_engine e"
  from assms(9) obtain p where ret: "retrieve d (per_list_limit ?e) q m = Inr p"
    and fin: "finish ord sh ?e q (norm_query_k k) m p = Inr rs"
    by (auto simp: engine_query_def Let_def bind_err_Inr_iff)
  have "retrieved visible (uuid_str d) (per_list_limit ?e) p"
    by (rule retrieve_retrieved [OF assms(1,2) _ assms(3,4) refl ret]) (simp add: norm_engine_sel)
  moreover have "sound_reranker ?e" using assms(7) by (simp add: sound_reranker_def norm_engine_sel)
  ultimately show ?thesis
    using finish_answers [OF _ norm_engine_sel(4) [OF assms(8)] _ assms(5,6) _ fin] by (simp add: norm_query_k_def)
qed

end


section \<open>The engine on the store\<close>

definition chunk_visible :: "db \<Rightarrow> uuid \<Rightarrow> uuid \<Rightarrow> gostring \<Rightarrow> bool" where
  "chunk_visible db c d t \<longleftrightarrow>
     list_ex (\<lambda>r. c_id r = c \<and> c_doc r = d \<and> c_text r = t \<and> view db d \<noteq> None) (chunks db)"

lemma hits_visible: "hits_ok db n hs \<Longrightarrow> h \<in> set hs \<Longrightarrow> chunk_visible db (hit_chunk h) (hit_doc h) (hit_text h)"
  by (fastforce simp: hits_ok_def list_all_iff chunk_visible_def list_ex_iff)

lemma chunk_visible_unique:
  assumes "db_ok db" "chunk_visible db c d t" "chunk_visible db c d' t'"
  shows "d' = d \<and> t' = t"
proof -
  have "inj_on c_id (set (chunks db))" using db_okD(3) [OF assms(1)] by (simp add: chunk_keys_free_def distinct_map)
  with assms(2,3) show ?thesis unfolding chunk_visible_def list_ex_iff by (metis inj_onD)
qed

interpretation sb: backend "\<lambda>q n. search_bm25 g f0 q n db" "\<lambda>v n. search_vector g f1 v n db" "chunk_visible db"
  "db_ok db \<and> scans g \<and> numeric g"
  for g :: pg and f0 f1 :: fault and db :: db
proof
  fix q n hs assume h: "db_ok db \<and> scans g \<and> numeric g" and r: "search_bm25 g f0 q n db = Inr hs"
  then have ok: "hits_ok db n hs" using bm25_hits by blast
  then show "distinct (map hit_chunk hs)" by (simp add: hits_ok_def)
  show "int (length hs) \<le> n" if "0 < n" using ok that by (simp add: hits_ok_def norm_search_limit_def)
  show "chunk_visible db (hit_chunk h) (hit_doc h) (hit_text h)" if "h \<in> set hs" for h
    using hits_visible [OF ok that] .
next
  fix v n hs assume h: "db_ok db \<and> scans g \<and> numeric g" and r: "search_vector g f1 v n db = Inr hs"
  then have ok: "hits_ok db n hs" using vector_hits by blast
  then show "distinct (map hit_chunk hs)" by (simp add: hits_ok_def)
  show "int (length hs) \<le> n" if "0 < n" using ok that by (simp add: hits_ok_def norm_search_limit_def)
  show "chunk_visible db (hit_chunk h) (hit_doc h) (hit_text h)" if "h \<in> set hs" for h
    using hits_visible [OF ok that] .
next
  show "d' = d \<and> t' = t" if "db_ok db \<and> scans g \<and> numeric g" "chunk_visible db c d t" "chunk_visible db c d' t'" for c d t d' t'
    using chunk_visible_unique that by blast
qed

definition store_deps :: "pg \<Rightarrow> fault \<Rightarrow> fault \<Rightarrow> db \<Rightarrow> (gostring list \<Rightarrow> go_error + f64 list list) \<Rightarrow> (uuid \<Rightarrow> gostring) \<Rightarrow> f64 list deps" where
  "store_deps g f0 f1 db emb us =
     \<lparr>bm25 = (\<lambda>q n. search_bm25 g f0 q n db), vsearch = (\<lambda>v n. search_vector g f1 v n db), embed_texts = emb, uuid_str = us\<rparr>"

text \<open>Whatever the mode, an answered query shows at most k chunks, each once, every one of them a
  chunk of a document a client can see, under that document's id and with its own text as the snippet:
  nothing of a deleted document, and no chunk under another document's name.\<close>

theorem query_answers_visible:
  assumes "db_ok db" "scans g" "numeric g" "inj us" "reorders ord" "reorders sh" "sound_reranker e" "small_engine e"
    "fst (engine_query ord sh (store_deps g f0 f1 db emb us) e q k m) = Inr rs"
  shows "answers_visible (chunk_visible db) us (norm_query_k k) rs"
  using sb.engine_query_answers [of db g "store_deps g f0 f1 db emb us" f0 f1 ord sh e q k m rs] assms
  by (simp add: store_deps_def)

lemma sound_heuristic: "sound_reranker (with_reranker (heuristic_rerank u t) e)"
  using heur.reranker_axioms by (auto simp: sound_reranker_def with_reranker_def)

lemma sound_cross: "sound_reranker (with_reranker (cross_rerank send decode) e)"
  using cross.reranker_axioms by (auto simp: sound_reranker_def with_reranker_def)

lemma small_new_engine [simp]: "small_engine (with_reranker f new_engine)" "small_engine new_engine"
  by (simp_all add: small_engine_def with_reranker_def new_engine_def)

text \<open>C17. The answer of a query does not depend on the orders in which Go visits its maps.\<close>

theorem query_deterministic:
  assumes "db_ok db" "scans g" "numeric g" "inj us" "reorders ord" "reorders sh" "small_engine e"
  shows "engine_query ord sh (store_deps g f0 f1 db emb us) e q k m
       = engine_query (\<lambda>xs. xs) (\<lambda>xs. xs) (store_deps g f0 f1 db emb us) e q k m"
proof (cases "retrieve (store_deps g f0 f1 db emb us) (per_list_limit (norm_engine e)) q m")
  case (Inr p)
  have "retrieved (chunk_visible db) us (per_list_limit (norm_engine e)) p"
    using sb.retrieve_retrieved [of db g us "per_list_limit (norm_engine e)" "store_deps g f0 f1 db emb us" f0 f1 q m p]
      Inr assms by (simp add: store_deps_def norm_engine_sel)
  from retrieved_fuse [OF this norm_engine_sel(4) [OF assms(7)] assms(5,6)]
  have "finish ord sh (norm_engine e) q (norm_query_k k) m p
      = finish (\<lambda>xs. xs) (\<lambda>xs. xs) (norm_engine e) q (norm_query_k k) m p"
    by (simp add: finish_def)
  then show ?thesis by (simp add: engine_query_def Let_def Inr)
qed (simp add: engine_query_def Let_def)

lemma retrieve_rerank: "retrieve d pl q ModeHybridRerank = retrieve d pl q ModeHybrid"
proof -
  have "vector_part d pl q ModeHybridRerank = vector_part d pl q ModeHybrid"
    by (intro ext) (simp add: vector_part_def uses_vector_def)
  then show ?thesis by (simp add: retrieve_def bm25_part_def uses_bm25_def)
qed

text \<open>Without a reranker a rerank request is answered exactly as a hybrid one.\<close>

theorem rerank_falls_back:
  assumes "e_reranker e = None"
  shows "engine_query ord sh d e q k ModeHybridRerank = engine_query ord sh d e q k ModeHybrid"
proof -
  have "finish ord sh (norm_engine e) q k' ModeHybridRerank = finish ord sh (norm_engine e) q k' ModeHybrid" for k'
    by (intro ext) (simp add: finish_def reranks_def norm_engine_sel assms)
  then show ?thesis by (simp only: engine_query_def Let_def retrieve_rerank)
qed

theorem rerank_falls_back_witness:
  "engine_query rev rev (store_deps ex_pg NoFault NoFault ex_db (\<lambda>ts. Inr [[]]) (\<lambda>u. [])) new_engine (str ''b'') 3 ModeHybridRerank
   = engine_query rev rev (store_deps ex_pg NoFault NoFault ex_db (\<lambda>ts. Inr [[]]) (\<lambda>u. [])) new_engine (str ''b'') 3 ModeHybrid"
  by (rule rerank_falls_back) (simp add: new_engine_def)

lemma fuse_rrf_Nil: "fuse_rrf sh k n ls = [] \<longleftrightarrow> sh (add_lists (norm_k k) ls []) = []"
proof -
  have "sort_by fused_less xs = [] \<longleftrightarrow> xs = []" for xs by (metis length_0_conv length_sort_by)
  moreover have "\<not> norm_top_n n \<le> 0" using norm_top_n_pos [of n] by linarith
  ultimately show ?thesis by (simp add: fuse_rrf_take)
qed

text \<open>The cross-encoder fails on a non-empty list unless the sidecar answers 200 with one score for each passage.\<close>

lemma cross_rerank_fails:
  assumes "cs \<noteq> []"
  shows "isl (cross_rerank send decode q cs n) \<longleftrightarrow>
     \<not> (\<exists>body xs. send q (map snippet cs) = Response 200 body \<and> decode body = Inr xs \<and> length xs = length cs)"
proof (cases "read_reply (str ''rerank'') decode (send q (map snippet cs))")
  case (Inl err)
  then have "\<nexists>body xs. send q (map snippet cs) = Response 200 body \<and> decode body = Inr xs"
    by (metis read_reply_Inr_iff sum.distinct(1))
  with assms Inl show ?thesis by (auto simp: cross_rerank_def Let_def)
next
  case (Inr xs)
  then obtain body where "send q (map snippet cs) = Response 200 body" "decode body = Inr xs"
    by (auto simp: read_reply_Inr_iff)
  with assms Inr show ?thesis by (simp add: cross_rerank_def Let_def del: str_Cons)
qed

text \<open>C20. An installed reranker that fails makes the query fail. Whenever the plain hybrid query has results, the rerank
  query hands a non-empty list of candidates to the installed reranker, whichever it is, and its answer is that of the
  reranker: an error of it, wrapped, is the error of the query, and there is no fallback to the fused order. With the
  cross-encoder the query fails exactly when the sidecar does not answer 200 with one score for each passage: a
  request that is not sent or not answered, another status, a body that does not decode, another number of scores.\<close>

theorem rerank_error_propagates:
  assumes "e_reranker e = Some r" "fst (engine_query ord sh d e q k ModeHybrid) = Inr hs" "hs \<noteq> []"
  shows "let answer = fst (engine_query ord sh d e q k ModeHybridRerank)
    in \<exists>cs. cs \<noteq> []
      \<and> answer = (case r q cs (norm_query_k k) of
          Inl err \<Rightarrow> Inl (Wrapped (str ''rerank'') err) | Inr scored \<Rightarrow> Inr (map reranked_result scored))
      \<and> (\<forall>send decode. r = cross_rerank send decode \<longrightarrow>
          (isl answer \<longleftrightarrow> \<not> (\<exists>body xs. send q (map snippet cs) = Response 200 body \<and> decode body = Inr xs \<and> length xs = length cs)))"
proof -
  let ?e = "norm_engine e" and ?k = "norm_query_k k"
  obtain p where p: "retrieve d (per_list_limit ?e) q ModeHybrid = Inr p" "finish ord sh ?e q ?k ModeHybrid p = Inr hs"
    using assms(2) by (auto simp: engine_query_def Let_def bind_err_Inr_iff)
  let ?fs = "\<lambda>n. fuse_rrf sh default_rrf_k n (ord (fst p))"
  let ?cs = "candidates (snd p) (?fs (rerank_input_n ?e))"
  have "?fs ?k \<noteq> []" using p(2) assms(3) by (auto simp: finish_def reranks_def)
  then have fs: "?fs (rerank_input_n ?e) \<noteq> []" by (simp add: fuse_rrf_Nil)
  then have cs: "?cs \<noteq> []" by (metis length_0_conv length_candidates)
  have a: "fst (engine_query ord sh d e q k ModeHybridRerank) = (case r q ?cs ?k of
      Inl err \<Rightarrow> Inl (Wrapped (str ''rerank'') err) | Inr scored \<Rightarrow> Inr (map reranked_result scored))"
    using fs assms(1)
    by (simp add: engine_query_def Let_def retrieve_rerank p(1) finish_def reranks_def norm_engine_sel split: sum.split del: str_Cons)
  have "isl (fst (engine_query ord sh d e q k ModeHybridRerank)) = isl (r q ?cs ?k)" unfolding a by (simp split: sum.split del: str_Cons)
  with cross_rerank_fails [OF cs, where q = q and n = ?k] show ?thesis
    unfolding Let_def by (intro exI [of _ ?cs] conjI allI impI cs a) simp
qed

text \<open>A keyword query is the keyword ranking: the chunks of the sanitised full-text search in their
  order, cut at k, with the full-text rank as their only signal; the embedder is not asked.\<close>

theorem keyword_query:
  assumes "db_ok db" "scans g" "numeric g" "inj us" "reorders ord" "reorders sh" "small_engine e"
    "per_list_limit (norm_engine e) \<le> 2 ^ 49"
    "search_bm25 g f0 (sanitize_bm25_query q) (per_list_limit (norm_engine e)) db = Inr hs"
  shows "\<exists>rs. fst (engine_query ord sh (store_deps g f0 f1 db emb us) e q k ModeKeyword) = Inr rs
    \<and> map r_chunk rs = take (nat (norm_query_k k)) (map (us \<circ> hit_chunk) hs)"
proof -
  let ?d = "store_deps g f0 f1 db emb us" and ?pl = "per_list_limit (norm_engine e)"
  have h: "db_ok db \<and> scans g \<and> numeric g" using assms(1-3) by blast
  let ?p = "([(str ''bm25'', as_hits us hs)], note_bm25 us hs Map.empty)"
  have ret: "retrieve ?d ?pl q ModeKeyword = Inr ?p"
    using assms(9) by (simp add: retrieve_def bm25_part_def vector_part_def uses_bm25_def uses_vector_def store_deps_def del: str_Cons)
  have dist: "distinct (map h_id (as_hits us hs))"
    by (rule distinct_as_hits [OF assms(4) sb.bm_distinct [OF h assms(9)]])
  have "int (length hs) \<le> ?pl" by (rule sb.bm_limit [OF h assms(9)]) (simp add: norm_engine_sel)
  then have len: "norm_k default_rrf_k + int (length (as_hits us hs)) \<le> 2 ^ 50" using assms(8) by simp
  have "ord (fst ?p) = fst ?p"
    using reorders_mset [OF assms(5), of "fst ?p"] by (simp del: str_Cons)
  then have fin: "finish ord sh (norm_engine e) q (norm_query_k k) ModeKeyword ?p
      = Inr (map (fused_result (snd ?p)) (fuse_rrf sh default_rrf_k (norm_query_k k) [(str ''bm25'', as_hits us hs)]))"
    by (simp add: finish_def reranks_def del: str_Cons)
  have "norm_top_n (norm_query_k k) = norm_query_k k" by (simp add: norm_top_n_def norm_query_k_def)
  with fuse_rrf_single_ids [OF dist len assms(6), of "norm_query_k k" "str ''bm25''"]
  have ids: "map fu_id (fuse_rrf sh default_rrf_k (norm_query_k k) [(str ''bm25'', as_hits us hs)])
      = take (nat (norm_query_k k)) (map (us \<circ> hit_chunk) hs)"
    by (simp add: as_hits_def comp_def del: str_Cons)
  have rc: "map r_chunk (map (fused_result info) fs) = map fu_id fs" for info fs
    by (simp add: fused_result_def comp_def)
  show ?thesis
    unfolding engine_query_def Let_def fst_conv ret bind_err_simps fin
    by (intro exI conjI, rule refl, rule trans, rule rc, rule ids)
qed


section \<open>Examples\<close>

text \<open>An injective text form of uuids, and the engine on the one-document store.\<close>

definition ex_us :: "uuid \<Rightarrow> gostring" where
  "ex_us u = replicate (unat u) 0"

lemma ex_us_inj [simp]: "inj ex_us"
  by (rule injI) (metis ex_us_def length_replicate word_unat_eq_iff)

abbreviation ex_deps :: "f64 list deps" where
  "ex_deps \<equiv> store_deps ex_pg NoFault NoFault ex_db (\<lambda>ts. Inr [[]]) ex_us"

lemma ex_sanitized: "sanitize_bm25_query (str ''b'') = str ''b''"
  using sanitize_fixpoint [of "[0x62]"]
  by (simp add: encode_rune_def valid_rune_def kept_def is_space_def is_control_def is_zero_width_def max_query_runes_def)

definition ex_row :: chunk_row where
  "ex_row = \<lparr>c_id = 8, c_doc = 7, c_index = 0, c_text = str ''b'', c_embedding = str ''[]''\<rparr>"

lemma ex_rows: "chunks ex_db = [ex_row]" "live_chunk ex_db ex_row"
  by (simp_all add: ex_db_def with_doc_def empty_db_def chunk_rows_def ex_chunks_def ex_row_def
      live_chunk_def doc_by_id_def new_row_def live_def format_vector_def)

lemma take_limit [simp]: "take (nat (norm_search_limit n)) [x] = [x]"
  using norm_search_limit_pos [of n] by (simp add: Suc_le_eq)

lemma ex_search: "search_bm25 ex_pg NoFault (str ''b'') n ex_db = Inr [hit_of (Fin 1) ex_row]"
  by (simp add: search_bm25_def Let_def ex_rows) (simp add: ex_pg_def ex_row_def)

lemma ex_vsearch: "search_vector ex_pg NoFault v n ex_db = Inr [hit_of (f64_sub (Fin 1) (Fin 0)) ex_row]"
  by (simp add: search_vector_def Let_def ex_rows) (simp add: ex_pg_def ex_rows)

theorem keyword_query_witness:
  "\<exists>rs. fst (engine_query rev rev ex_deps new_engine (str ''b'') 3 ModeKeyword) = Inr rs \<and> map r_chunk rs = [ex_us 8]"
  using keyword_query [of ex_db ex_pg ex_us rev rev new_engine NoFault "str ''b''" "[hit_of (Fin 1) ex_row]" NoFault "\<lambda>ts. Inr [[]]" 3]
  by (simp add: ex_sanitized ex_search norm_engine_def new_engine_def norm_query_k_def small_engine_def ex_row_def del: str_Cons)

lemma ex_retrieve:
  "retrieve ex_deps n (str ''b'') ModeHybridRerank = Inr
     ([(str ''bm25'', as_hits ex_us [hit_of (Fin 1) ex_row]),
       (str ''vector'', as_hits ex_us [hit_of (f64_sub (Fin 1) (Fin 0)) ex_row])],
      note_vector ex_us [hit_of (f64_sub (Fin 1) (Fin 0)) ex_row] (note_bm25 ex_us [hit_of (Fin 1) ex_row] Map.empty))"
  by (simp add: retrieve_def bm25_part_def vector_part_def uses_bm25_def uses_vector_def store_deps_def
      ex_sanitized ex_search ex_vsearch del: str_Cons note_vector.simps note_bm25.simps)

lemma fuse_not_empty: "fst (hd ls) = s \<Longrightarrow> ls = (s, h # hs) # rest \<Longrightarrow> fuse_rrf (\<lambda>xs. xs) k n ls \<noteq> []"
proof
  assume ls: "ls = (s, h # hs) # rest" and "fuse_rrf (\<lambda>xs. xs) k n ls = []"
  then have "add_lists (norm_k k) ls [] = []"
    using norm_top_n_pos [of n] by (simp add: fuse_rrf_take)
  moreover have "h_id h \<in> fu_id ` set (add_lists (norm_k k) ls [])"
    unfolding ids_add_lists ls by simp
  ultimately show False by simp
qed

definition failing_engine :: "reply \<Rightarrow> engine" where
  "failing_engine rep = with_reranker (cross_rerank (\<lambda>q ps. rep) (\<lambda>b. Inr [])) new_engine"

theorem rerank_error_propagates_witness:
  "isl (fst (engine_query (\<lambda>xs. xs) (\<lambda>xs. xs) ex_deps (failing_engine (Response 500 [])) (str ''b'') 3 ModeHybridRerank))"
proof -
  let ?e = "failing_engine (Response 500 [])"
  have e: "e_reranker ?e = Some (cross_rerank (\<lambda>q ps. Response 500 []) (\<lambda>b. Inr []))" by (simp add: failing_engine_def with_reranker_def)
  obtain p where p: "retrieve ex_deps 50 (str ''b'') ModeHybrid = Inr p" "fst p = [(str ''bm25'', as_hits ex_us [hit_of (Fin 1) ex_row]),
       (str ''vector'', as_hits ex_us [hit_of (f64_sub (Fin 1) (Fin 0)) ex_row])]"
    using ex_retrieve [of 50] unfolding retrieve_rerank by simp
  have "fuse_rrf (\<lambda>xs. xs) default_rrf_k n (fst p) \<noteq> []" for n
    unfolding p(2) by (rule fuse_not_empty) (simp_all add: as_hits_def)
  with p(1) have "\<exists>hs. fst (engine_query (\<lambda>xs. xs) (\<lambda>xs. xs) ex_deps ?e (str ''b'') 3 ModeHybrid) = Inr hs \<and> hs \<noteq> []"
    by (simp add: engine_query_def Let_def finish_def reranks_def failing_engine_def with_reranker_def norm_engine_def new_engine_def del: str_Cons)
  then obtain hs where "fst (engine_query (\<lambda>xs. xs) (\<lambda>xs. xs) ex_deps ?e (str ''b'') 3 ModeHybrid) = Inr hs" "hs \<noteq> []" by blast
  from rerank_error_propagates [OF e this] obtain cs :: "candidate list" where
    "\<forall>send decode. cross_rerank (\<lambda>q ps. Response 500 []) (\<lambda>b. Inr []) = cross_rerank send decode \<longrightarrow>
      (isl (fst (engine_query (\<lambda>xs. xs) (\<lambda>xs. xs) ex_deps ?e (str ''b'') 3 ModeHybridRerank))
       \<longleftrightarrow> \<not> (\<exists>body xs. send (str ''b'') (map snippet cs) = Response 200 body \<and> decode body = Inr xs \<and> length xs = length cs))"
    unfolding Let_def by (elim exE conjE) (rule that)
  from this [THEN spec, THEN spec, THEN mp, OF refl] show ?thesis by simp
qed

lemma ex_query: "\<exists>rs. fst (engine_query rev rev ex_deps new_engine (str ''b'') 3 ModeHybridRerank) = Inr rs"
  by (simp add: engine_query_def Let_def ex_retrieve finish_def reranks_def norm_engine_def new_engine_def del: str_Cons)

theorem query_answers_visible_witness:
  "\<exists>rs. fst (engine_query rev rev ex_deps new_engine (str ''b'') 3 ModeHybridRerank) = Inr rs
    \<and> answers_visible (chunk_visible ex_db) ex_us 3 rs"
proof -
  obtain rs where "fst (engine_query rev rev ex_deps new_engine (str ''b'') 3 ModeHybridRerank) = Inr rs"
    using ex_query by blast
  with query_answers_visible [OF ex_db_ok ex_pg_ok ex_us_inj reorders_id(2) reorders_id(2) _ small_new_engine(2) this]
  show ?thesis by (simp add: sound_reranker_def new_engine_def norm_query_k_def)
qed

theorem query_deterministic_witness:
  "engine_query rev rev ex_deps new_engine (str ''b'') 3 ModeHybrid
     = engine_query (\<lambda>xs. xs) (\<lambda>xs. xs) ex_deps new_engine (str ''b'') 3 ModeHybrid"
  by (rule query_deterministic) simp_all

end
