(* ===== verification/Api.thy ===== *)
theory Api
  imports Http Cursor Chunker Hybrid
begin

text \<open>
  \<open>internal/api/handlers.go\<close> and \<open>internal/api/deps.go\<close>: the server, its routes and its handlers. The
  interfaces \<open>DocStore\<close>, \<open>Embedder\<close> and \<open>SearchEngine\<close> are records of functions on a store state, so that
  a handler is a function of the request, the response writer and that state. Parsing and printing what
  the standard library and third-party packages own (JSON bodies, uuids, the hash, dates) is the
  environment, an argument of the handlers, so that their laws hold for any of it; \<open>Api_Json\<close> gives the
  environment of the program.
\<close>

section \<open>Payloads\<close>

record index_req =
  ir_source :: gostring
  ir_title :: gostring
  ir_body :: gostring

record query_req =
  qr_q :: gostring
  qr_k :: int
  qr_mode :: gostring

record list_item =
  li_id :: gostring
  li_source :: gostring
  li_title :: gostring
  li_created :: gostring

datatype payload =
    Index_Resp gostring nat bool
  | Query_Resp "result list"
  | Doc_Resp gostring gostring gostring gostring gostring time
  | List_Resp "list_item list" gostring
  | Health_Resp gostring
  | Deleted_Resp gostring bool
  | Compact_Resp nat nat

text \<open>What \<open>encoding/json\<close> refuses: numbers that are not finite, and times outside the years 0 to 9999.\<close>

definition signal_names :: "gostring list" where
  "signal_names = [str ''bm25'', str ''vector'', str ''rrf'', str ''rerank'']"

definition result_finite :: "result \<Rightarrow> bool" where
  "result_finite r \<longleftrightarrow> is_finite (r_score r)
     \<and> list_all (\<lambda>s. case r_signals r s of None \<Rightarrow> True | Some x \<Rightarrow> is_finite x) signal_names"

fun encodable :: "(time \<Rightarrow> bool) \<Rightarrow> payload \<Rightarrow> bool" where
  "encodable time_ok (Query_Resp rs) = list_all result_finite rs"
| "encodable time_ok (Doc_Resp i src t b h created) = time_ok created"
| "encodable time_ok _ = True"

section \<open>The server\<close>

record 's doc_store =
  ds_upsert :: "new_doc \<Rightarrow> new_chunk list \<Rightarrow> 's \<Rightarrow> (go_error + uuid \<times> nat \<times> bool) \<times> 's"
  ds_get :: "uuid \<Rightarrow> 's \<Rightarrow> go_error + doc"
  ds_list :: "time \<Rightarrow> uuid \<Rightarrow> int \<Rightarrow> 's \<Rightarrow> go_error + doc list"
  ds_delete :: "uuid \<Rightarrow> 's \<Rightarrow> go_error option \<times> 's"
  ds_compact :: "int \<Rightarrow> 's \<Rightarrow> (compact_result \<times> go_error option \<times> 's) option"

record 's server =
  sv_store :: "'s doc_store"
  sv_embed :: "gostring list \<Rightarrow> go_error + f64 list list"
  sv_search :: "gostring \<Rightarrow> int \<Rightarrow> mode \<Rightarrow> 's \<Rightarrow> go_error + result list"
  sv_batch :: int

record env =
  sha256 :: "gostring \<Rightarrow> gostring"
  parse_uuid :: "gostring \<Rightarrow> uuid option"
  uuid_text :: "uuid \<Rightarrow> gostring"
  fmt_created :: "time \<Rightarrow> gostring"
  time_ok :: "time \<Rightarrow> bool"
  dec_index :: "gostring \<Rightarrow> index_req option"
  dec_query :: "gostring \<Rightarrow> query_req option"
  marshal_cursor :: "cursor \<Rightarrow> go_error + gostring"
  unmarshal_cursor :: "gostring \<Rightarrow> cursor option"
  quote_str :: "gostring \<Rightarrow> gostring"

definition fail :: "request \<Rightarrow> api_error \<Rightarrow> 'p writer \<Rightarrow> 'p writer" where
  "fail rq e w = write_error (request_id_from (rq_ctx rq)) (Api e) w"

definition reply_ok :: "env \<Rightarrow> payload \<Rightarrow> payload writer \<Rightarrow> payload writer" where
  "reply_ok en p w = write_json (encodable (time_ok en)) 200 p w"

section \<open>POST /v1/index\<close>

text \<open>What both the server and the indexer hand to \<open>UpsertDoc\<close>.\<close>

definition store_doc :: "env \<Rightarrow> gostring \<Rightarrow> gostring \<Rightarrow> gostring \<Rightarrow> new_doc" where
  "store_doc en source title body =
     \<lparr>n_source = source, n_title = title, n_body = body, n_hash = hex_encode (sha256 en body)\<rparr>"

text \<open>The loop over the chunks reads \<open>embeds[i]\<close> for each of them: with fewer vectors it panics.\<close>

definition store_chunks :: "chunk list \<Rightarrow> f64 list list \<Rightarrow> new_chunk list option" where
  "store_chunks cs embeds =
     (if length embeds < length cs then None
      else Some (map2 (\<lambda>c v. \<lparr>n_index = int (ck_index c), n_text = ck_text c, n_embedding = v\<rparr>) cs embeds))"

definition handle_index :: "env \<Rightarrow> 's server \<Rightarrow> (payload, 's) handler" where
  "handle_index en sv rq w s =
     (case dec_index en (rq_body rq) of
        None \<Rightarrow> Returned (fail rq (bad_request (str ''invalid_body'') (str ''expected JSON object'')) w) s
      | Some req \<Rightarrow>
          let source = trim_space (ir_source req); title = trim_space (ir_title req); body = ir_body req
          in if source = [] \<or> title = [] \<or> trim_space body = []
             then Returned (fail rq (bad_request (str ''missing_field'') (str ''source, title, and body are required'')) w) s
             else
               (case split_chunks body zero_opts of
                  None \<Rightarrow> Hangs
                | Some cs \<Rightarrow>
                    (case embed_batched (sv_embed sv) (sv_batch sv) (map ck_text cs) of
                       Inl e \<Rightarrow> Returned (fail rq (unavailable (str ''embed_failed'') (err_text e)) w) s
                     | Inr embeds \<Rightarrow>
                         (case store_chunks cs embeds of
                            None \<Rightarrow> Panicked w s
                          | Some scs \<Rightarrow>
                              (case ds_upsert (sv_store sv) (store_doc en source title body) scs s of
                                 (Inl e, s) \<Rightarrow> Returned (fail rq (internal (str ''persist_failed'') (err_text e)) w) s
                               | (Inr (i, n, existed), s) \<Rightarrow>
                                   Returned (reply_ok en (Index_Resp (uuid_text en i) n existed) w) s)))))"

section \<open>POST /v1/query\<close>

definition handle_query :: "env \<Rightarrow> 's server \<Rightarrow> (payload, 's) handler" where
  "handle_query en sv rq w s =
     (case dec_query en (rq_body rq) of
        None \<Rightarrow> Returned (fail rq (bad_request (str ''invalid_body'') (str ''expected JSON object'')) w) s
      | Some req \<Rightarrow>
          let q = trim_space (qr_q req)
          in if q = [] then Returned (fail rq (bad_request (str ''missing_field'') (str ''q is required'')) w) s
             else if qr_k req < 0 \<or> 100 < qr_k req
             then Returned (fail rq (bad_request (str ''invalid_k'') (str ''k must be between 0 and 100'')) w) s
             else
               (case parse_mode (quote_str en) (qr_mode req) of
                  Inl e \<Rightarrow> Returned (fail rq (bad_request (str ''invalid_mode'') (err_text e)) w) s
                | Inr m \<Rightarrow>
                    (case sv_search sv q (qr_k req) m s of
                       Inl e \<Rightarrow> Returned (fail rq (internal (str ''query_failed'') (err_text e)) w) s
                     | Inr rs \<Rightarrow> Returned (reply_ok en (Query_Resp rs) w) s)))"

section \<open>GET and DELETE /v1/docs/{id}\<close>

definition handle_get_doc :: "env \<Rightarrow> 's server \<Rightarrow> gostring \<Rightarrow> (payload, 's) handler" where
  "handle_get_doc en sv id_str rq w s =
     (case parse_uuid en id_str of
        None \<Rightarrow> Returned (fail rq (bad_request (str ''invalid_id'') (str ''id is not a uuid'')) w) s
      | Some i \<Rightarrow>
          (case ds_get (sv_store sv) i s of
             Inl e \<Rightarrow>
               if err_is e ErrNotFound
               then Returned (fail rq (not_found (str ''not_found'') (str ''doc not found'')) w) s
               else Returned (fail rq (internal (str ''lookup_failed'') (err_text e)) w) s
           | Inr d \<Rightarrow>
               Returned (reply_ok en (Doc_Resp (uuid_text en (d_id d)) (d_source d) (d_title d) (d_body d)
                                        (d_hash d) (d_created d)) w) s))"

definition handle_delete_doc :: "env \<Rightarrow> 's server \<Rightarrow> gostring \<Rightarrow> (payload, 's) handler" where
  "handle_delete_doc en sv id_str rq w s =
     (case parse_uuid en id_str of
        None \<Rightarrow> Returned (fail rq (bad_request (str ''invalid_id'') (str ''id is not a uuid'')) w) s
      | Some i \<Rightarrow>
          (case ds_delete (sv_store sv) i s of
             (Some e, s) \<Rightarrow>
               if err_is e ErrNotFound
               then Returned (fail rq (not_found (str ''not_found'') (str ''doc not found or already deleted'')) w) s
               else Returned (fail rq (internal (str ''delete_failed'') (err_text e)) w) s
           | (None, s) \<Rightarrow> Returned (reply_ok en (Deleted_Resp (uuid_text en i) True) w) s))"

section \<open>GET /v1/docs\<close>

text \<open>\<open>strconv.Atoi\<close>.\<close>

definition atoi :: "gostring \<Rightarrow> int option" where
  "atoi s =
     (let neg = (take 1 s = str ''-'');
          ds = (if neg \<or> take 1 s = str ''+'' then drop 1 s else s);
          z = (if neg then - int (read_nat ds) else int (read_nat ds))
      in if ds = [] \<or> \<not> list_all is_dec ds \<or> z < - (2 ^ 63) \<or> 2 ^ 63 \<le> z then None else Some z)"

definition list_limit :: "gostring \<Rightarrow> int option" where
  "list_limit l =
     (if l = [] then Some 50
      else case atoi l of None \<Rightarrow> None | Some n \<Rightarrow> if n \<le> 0 \<or> 200 < n then None else Some n)"

definition parse_uuid_or_nil :: "env \<Rightarrow> gostring \<Rightarrow> uuid" where
  "parse_uuid_or_nil en s = (if s = [] then 0 else case parse_uuid en s of None \<Rightarrow> 0 | Some i \<Rightarrow> i)"

definition item_of :: "env \<Rightarrow> doc \<Rightarrow> list_item" where
  "item_of en d = \<lparr>li_id = uuid_text en (d_id d), li_source = d_source d, li_title = d_title d,
                   li_created = fmt_created en (d_created d)\<rparr>"

definition next_token :: "env \<Rightarrow> int \<Rightarrow> doc list \<Rightarrow> gostring" where
  "next_token en n ds =
     (if int (length ds) = n
      then case encode_cursor (marshal_cursor en) \<lparr>cur_time = d_created (last ds), cur_id = uuid_text en (d_id (last ds))\<rparr> of
             Inl e \<Rightarrow> [] | Inr t \<Rightarrow> t
      else [])"

definition handle_list_docs :: "env \<Rightarrow> 's server \<Rightarrow> (payload, 's) handler" where
  "handle_list_docs en sv rq w s =
     (case decode_cursor (unmarshal_cursor en) (rq_query rq (str ''cursor'')) of
        Inl e \<Rightarrow> Returned (fail rq (bad_request (str ''invalid_cursor'') (err_text e)) w) s
      | Inr cur \<Rightarrow>
          (case list_limit (rq_query rq (str ''limit'')) of
             None \<Rightarrow> Returned (fail rq (bad_request (str ''invalid_limit'') (str ''limit must be 1..200'')) w) s
           | Some n \<Rightarrow>
               (case ds_list (sv_store sv) (cur_time cur) (parse_uuid_or_nil en (cur_id cur)) n s of
                  Inl e \<Rightarrow> Returned (fail rq (internal (str ''list_failed'') (err_text e)) w) s
                | Inr ds \<Rightarrow> Returned (reply_ok en (List_Resp (map (item_of en) ds) (next_token en n ds)) w) s)))"

section \<open>POST /v1/admin/compact and GET /healthz\<close>

definition handle_compact :: "env \<Rightarrow> 's server \<Rightarrow> (payload, 's) handler" where
  "handle_compact en sv rq w s =
     (case ds_compact (sv_store sv) 0 s of
        None \<Rightarrow> Hangs
      | Some (r, Some e, s) \<Rightarrow> Returned (fail rq (internal (str ''compact_failed'') (err_text e)) w) s
      | Some (r, None, s) \<Rightarrow> Returned (reply_ok en (Compact_Resp (res_tombs r) (res_chunks r)) w) s)"

definition handle_health :: "env \<Rightarrow> (payload, 's) handler" where
  "handle_health en rq w s = Returned (reply_ok en (Health_Resp (str ''ok'')) w) s"

section \<open>Routes\<close>

datatype segment = Lit gostring | Wild

datatype endpoint = Index_E | Query_E | Get_E | Delete_E | List_E | Compact_E | Health_E

definition routes :: "(gostring \<times> segment list \<times> endpoint) list" where
  "routes =
     [(str ''POST'', [Lit (str ''v1''), Lit (str ''index'')], Index_E),
      (str ''POST'', [Lit (str ''v1''), Lit (str ''query'')], Query_E),
      (str ''GET'', [Lit (str ''v1''), Lit (str ''docs''), Wild], Get_E),
      (str ''DELETE'', [Lit (str ''v1''), Lit (str ''docs''), Wild], Delete_E),
      (str ''GET'', [Lit (str ''v1''), Lit (str ''docs'')], List_E),
      (str ''POST'', [Lit (str ''v1''), Lit (str ''admin''), Lit (str ''compact'')], Compact_E),
      (str ''GET'', [Lit (str ''healthz'')], Health_E)]"

text \<open>\<open>http.ServeMux\<close>: a wildcard stands for one segment that is not empty, and a pattern for GET also
  takes HEAD. The value of the wildcard is \<open>PathValue("id")\<close>.\<close>

fun match_path :: "segment list \<Rightarrow> gostring list \<Rightarrow> gostring list option" where
  "match_path [] [] = Some []"
| "match_path (Lit l # ps) (s # ss) = (if l = s then match_path ps ss else None)"
| "match_path (Wild # ps) (s # ss) = (if s = [] then None else map_option (Cons s) (match_path ps ss))"
| "match_path _ _ = None"

definition method_ok :: "gostring \<Rightarrow> gostring \<Rightarrow> bool" where
  "method_ok pm m \<longleftrightarrow> pm = m \<or> (pm = str ''GET'' \<and> m = str ''HEAD'')"

definition find_route :: "gostring \<Rightarrow> gostring list \<Rightarrow> (endpoint \<times> gostring) option" where
  "find_route m p =
     (case List.find (\<lambda>(pm, ps, e). method_ok pm m \<and> match_path ps p \<noteq> None) routes of
        None \<Rightarrow> None
      | Some (pm, ps, e) \<Rightarrow> Some (e, case match_path ps p of Some [v] \<Rightarrow> v | _ \<Rightarrow> []))"

text \<open>The methods other patterns take for the path: with one, the answer is 405, otherwise 404; both are
  the plain text of the standard library.\<close>

definition allowed :: "gostring list \<Rightarrow> gostring list" where
  "allowed p =
     (let ms = map fst (filter (\<lambda>(pm, ps, e). match_path ps p \<noteq> None) routes)
      in sort_by (\<lambda>a b. a < b) (ms @ (if str ''GET'' \<in> set ms then [str ''HEAD''] else [])))"

definition http_error :: "nat \<Rightarrow> gostring \<Rightarrow> 'p writer \<Rightarrow> 'p writer" where
  "http_error st msg w =
     (let w = set_header content_type (str ''text/plain; charset=utf-8'') w;
          w = set_header (str ''X-Content-Type-Options'') (str ''nosniff'') w;
          w = send_status st w
      in write_body (Plain_text (msg @ [10])) w)"

fun join_comma :: "gostring list \<Rightarrow> gostring" where
  "join_comma [] = []"
| "join_comma [x] = x"
| "join_comma (x # xs) = x @ str '', '' @ join_comma xs"

definition no_route :: "gostring list \<Rightarrow> 'p writer \<Rightarrow> 'p writer" where
  "no_route p w =
     (if allowed p = [] then http_error 404 (str ''404 page not found'') w
      else http_error 405 (str ''Method Not Allowed'') (set_header (str ''Allow'') (join_comma (allowed p)) w))"

definition dispatch :: "env \<Rightarrow> 's server \<Rightarrow> endpoint \<Rightarrow> gostring \<Rightarrow> (payload, 's) handler" where
  "dispatch en sv e v =
     (case e of
        Index_E \<Rightarrow> handle_index en sv
      | Query_E \<Rightarrow> handle_query en sv
      | Get_E \<Rightarrow> handle_get_doc en sv v
      | Delete_E \<Rightarrow> handle_delete_doc en sv v
      | List_E \<Rightarrow> handle_list_docs en sv
      | Compact_E \<Rightarrow> handle_compact en sv
      | Health_E \<Rightarrow> handle_health en)"

definition mux :: "env \<Rightarrow> 's server \<Rightarrow> (payload, 's) handler" where
  "mux en sv rq w s =
     (case find_route (rq_method rq) (rq_path rq) of
        None \<Rightarrow> Returned (no_route (rq_path rq) w) s
      | Some (e, v) \<Rightarrow> dispatch en sv e v rq w s)"

text \<open>\<open>Routes\<close>; the random bytes are those \<open>newID\<close> would read for this request.\<close>

definition serve :: "env \<Rightarrow> 's server \<Rightarrow> gostring \<Rightarrow> (payload, 's) handler" where
  "serve en sv rand8 = recoverer (request_id rand8 (mux en sv))"

section \<open>The server on the store model\<close>

text \<open>
  What the database, the clock and Go's maps decide while one request runs: which round trips fail, the
  generated ids, the time, and the orders that are left open.
\<close>

record io =
  io_fault :: "nat \<Rightarrow> fault"
  io_pass :: "nat \<Rightarrow> nat \<Rightarrow> fault"
  io_id :: uuid
  io_ids :: "uuid list"
  io_tomb :: uuid
  io_now :: time
  io_scan :: "tomb list \<Rightarrow> tomb list"
  io_lists :: "(gostring \<times> hit list) list \<Rightarrow> (gostring \<times> hit list) list"
  io_scores :: "fused list \<Rightarrow> fused list"

definition pg_store :: "io \<Rightarrow> db doc_store" where
  "pg_store io =
     \<lparr>ds_upsert = upsert_doc (io_fault io) (io_id io) (io_ids io) (io_now io),
      ds_get = get_doc (io_fault io 0),
      ds_list = list_docs (io_fault io 0),
      ds_delete = delete_doc (io_fault io) (io_tomb io) (io_now io),
      ds_compact = compact (io_scan io) (io_pass io) (io_now io)\<rparr>"

text \<open>\<open>NewServer\<close>; without a reranker the engine keeps a nil one.\<close>

definition engine_for :: "reranker_fun option \<Rightarrow> engine" where
  "engine_for r = (case r of None \<Rightarrow> new_engine | Some f \<Rightarrow> with_reranker f new_engine)"

definition new_server ::
  "env \<Rightarrow> pg \<Rightarrow> (gostring list \<Rightarrow> go_error + f64 list list) \<Rightarrow> reranker_fun option \<Rightarrow> io \<Rightarrow> db server" where
  "new_server en g emb r io =
     \<lparr>sv_store = pg_store io,
      sv_embed = emb,
      sv_search = (\<lambda>q k m db. fst (engine_query (io_lists io) (io_scores io)
         (store_deps g (io_fault io 0) (io_fault io 1) db emb (uuid_text en)) (engine_for r) q k m)),
      sv_batch = 32\<rparr>"

end
