(* ===== verification/Api_Laws.thy ===== *)
theory Api_Laws
  imports Api
begin

text \<open>
  What the API promises whatever store and embedder are behind it. The locale \<open>doc_index\<close> is the contract
  of the \<open>DocStore\<close> interface over an abstract map of the documents that can be seen; \<open>api\<close> adds the
  embedder's. The store model provides both for every choice of failing round trips, generated ids and
  open orders, so the properties at the end hold for the server \<open>NewServer\<close> builds.
\<close>

section \<open>Replies\<close>

text \<open>A whole reply that keeps the store's invariant; with a status other than 200 and 500 it has changed
  nothing.\<close>

definition answers :: "('s \<Rightarrow> bool) \<Rightarrow> gostring \<Rightarrow> 's \<Rightarrow> ('p, 's) outcome \<Rightarrow> bool" where
  "answers ok rid s out \<longleftrightarrow>
     (case out of
        Returned w s' \<Rightarrow> replied rid w \<and> ok s'
          \<and> (case w_sent w of None \<Rightarrow> False | Some (st, h) \<Rightarrow> if st = 200 \<or> st = 500 then True else s' = s)
      | _ \<Rightarrow> False)"

definition asked :: "gostring \<Rightarrow> request \<Rightarrow> 'p writer \<Rightarrow> bool" where
  "asked rid rq w \<longleftrightarrow> ready rid w \<and> rq_ctx rq = Some rid \<and> rid \<noteq> []"

lemma answers_fail:
  assumes "asked rid rq w" "ok s'" "ae_status e \<in> {400, 404, 500, 503}" "ae_retryable e \<longleftrightarrow> ae_status e = 503"
    "ae_status e = 500 \<or> s' = s"
  shows "answers ok rid s (Returned (fail rq e w) s')"
proof -
  have "replied rid (fail rq e w)" using assms(1,3,4) by (auto simp: fail_def asked_def)
  moreover have "w_sent (fail rq e w) = Some (ae_status e, (w_header w)(content_type \<mapsto> application_json))"
    using assms(1) by (simp add: fail_def write_error_def Let_def asked_def ready_def)
  ultimately show ?thesis using assms(2,3,5) by (auto simp: answers_def)
qed

lemma answers_ok:
  assumes "asked rid rq w" "ok s'"
  shows "answers ok rid s (Returned (reply_ok en p w) s')"
proof -
  have "replied rid (reply_ok en p w)" using assms(1) by (auto simp: reply_ok_def asked_def)
  moreover have "w_sent (reply_ok en p w) = Some (200, (w_header w)(content_type \<mapsto> application_json))"
    using assms(1) by (simp add: reply_ok_def write_json_def Let_def asked_def ready_def)
  ultimately show ?thesis using assms(2) by (simp add: answers_def)
qed

section \<open>The contract of the store\<close>

locale doc_index =
  fixes ops :: "'s doc_store" and ok :: "'s \<Rightarrow> bool" and shown :: "'s \<Rightarrow> uuid \<Rightarrow> doc option"
  assumes upsert_ok: "ok s \<Longrightarrow> ok (snd (ds_upsert ops nd cs s))"
    and upsert_answer: "ok s \<Longrightarrow> ds_upsert ops nd cs s = (Inr (i, n, existed), s') \<Longrightarrow>
          if existed then s' = s
          else \<exists>x. shown s' = (shown s)(i \<mapsto> x) \<and> d_id x = i \<and> d_source x = n_source nd \<and> d_title x = n_title nd
                 \<and> d_body x = n_body nd \<and> d_hash x = n_hash nd"
    and delete_ok: "ok s \<Longrightarrow> ok (snd (ds_delete ops i s))"
    and delete_answer: "ok s \<Longrightarrow> ds_delete ops i s = (None, s') \<Longrightarrow> shown s i \<noteq> None \<and> shown s' = (shown s)(i := None)"
    and delete_missing: "ok s \<Longrightarrow> ds_delete ops i s = (Some e, s') \<Longrightarrow> err_is e ErrNotFound \<Longrightarrow> s' = s"
    and get_answer: "ok s \<Longrightarrow> ds_get ops i s = Inr d \<Longrightarrow> shown s i = Some d"
    and compact_answer: "ok s \<Longrightarrow> \<exists>r e s'. ds_compact ops b s = Some (r, e, s') \<and> ok s' \<and> shown s' = shown s"
begin

lemma delete_answers:
  assumes "ok s" "sv_store sv = ops" "asked rid rq w"
  shows "answers ok rid s (handle_delete_doc en sv v rq w s)"
proof (cases "parse_uuid en v")
  case None
  with assms show ?thesis by (simp add: handle_delete_doc_def answers_fail)
next
  case (Some i)
  obtain r s' where r: "ds_delete ops i s = (r, s')" by fastforce
  then have "ok s'" using delete_ok [OF assms(1), of i] by simp
  with r Some assms delete_missing [OF assms(1)] show ?thesis
    by (cases r) (auto simp: handle_delete_doc_def intro!: answers_fail answers_ok)
qed

lemma get_answers:
  assumes "ok s" "sv_store sv = ops" "asked rid rq w"
  shows "answers ok rid s (handle_get_doc en sv v rq w s)"
  using assms by (auto simp: handle_get_doc_def intro!: answers_fail answers_ok split: option.split sum.split)

lemma list_answers:
  assumes "ok s" "sv_store sv = ops" "asked rid rq w"
  shows "answers ok rid s (handle_list_docs en sv rq w s)"
  using assms by (auto simp: handle_list_docs_def intro!: answers_fail answers_ok split: option.split sum.split)

lemma query_answers:
  assumes "ok s" "asked rid rq w"
  shows "answers ok rid s (handle_query en sv rq w s)"
  using assms by (auto simp: handle_query_def Let_def intro!: answers_fail answers_ok split: option.split sum.split)

lemma compact_answers:
  assumes "ok s" "sv_store sv = ops" "asked rid rq w"
  shows "answers ok rid s (handle_compact en sv rq w s)"
proof -
  obtain r e s' where r: "ds_compact ops 0 s = Some (r, e, s')" "ok s'" using compact_answer [OF assms(1)] by blast
  with assms show ?thesis by (cases e) (auto simp: handle_compact_def intro!: answers_fail answers_ok)
qed

end

locale api = doc_index ops ok shown + embedder emb good
  for ops :: "'s doc_store" and ok and shown and emb :: "gostring list \<Rightarrow> go_error + f64 list list" and good
begin

lemma index_answers:
  assumes "ok s" "sv_store sv = ops" "sv_embed sv = emb" "asked rid rq w"
  shows "answers ok rid s (handle_index en sv rq w s)"
proof (cases "dec_index en (rq_body rq)")
  case None
  with assms show ?thesis by (simp add: handle_index_def answers_fail)
next
  case (Some req)
  obtain cs where cs: "split_chunks (ir_body req) zero_opts = Some cs" using split_chunks_some by blast
  have up: "ok s'" if "ds_upsert ops d scs s = (r, s')" for d scs r s' using upsert_ok [OF assms(1), of d scs] that by simp
  have chunks: "\<exists>scs. store_chunks cs vs = Some scs" if "embed_batched emb (sv_batch sv) (map ck_text cs) = Inr vs" for vs
    using embed_batched_result [OF that] by (simp add: store_chunks_def)
  show ?thesis
    using Some cs assms up chunks
    by (auto simp: handle_index_def Let_def intro!: answers_fail answers_ok split: option.split sum.split prod.split)
qed

lemma dispatch_answers:
  assumes "ok s" "sv_store sv = ops" "sv_embed sv = emb" "asked rid rq w"
  shows "answers ok rid s (dispatch en sv e v rq w s)"
  using assms
  by (cases e) (simp_all add: dispatch_def index_answers query_answers get_answers delete_answers list_answers
      compact_answers handle_health_def answers_ok)

end

section \<open>The store model provides the contract\<close>

text \<open>No failure of the driver is taken for the store's own \<open>ErrNotFound\<close> or for an empty result.\<close>

definition sane :: "io \<Rightarrow> bool" where
  "sane io \<longleftrightarrow> honest (io_pass io) \<and> reorders (io_scan io)
     \<and> (\<forall>k e. io_fault io k = Fails e \<or> io_fault io k = Lost e \<longrightarrow> \<not> err_is e ErrNotFound \<and> \<not> err_is e ErrNoRows)"

definition shown_docs :: "db \<Rightarrow> uuid \<Rightarrow> doc option" where
  "shown_docs db i = map_option fst (view db i)"

lemma get_doc_Inr: "get_doc f i db = Inr d \<Longrightarrow> shown_docs db i = Some d"
  by (auto simp: get_doc_def call_def shown_docs_def view_def live_def split: fault.splits option.splits if_splits)

lemma delete_doc_None:
  assumes "db_ok db" "delete_doc f ti now i db = (None, db')"
  shows "shown_docs db i \<noteq> None \<and> shown_docs db' = (shown_docs db)(i := None)"
proof -
  from assms(2) obtain d where d: "doc_by_id db i = Some d" "d_deleted d = None"
    by (auto simp: delete_doc_def call_def split: fault.splits option.splits sum.splits)
  then have v: "view db i \<noteq> None" by (simp add: view_None_iff live_def)
  have "db' \<noteq> db"
  proof
    assume "db' = db"
    with assms(2) d obtain tx where tx: "insert_tomb ti i now (mark_deleted i now db) = Inr tx" "db = tx"
      by (auto simp: delete_doc_def call_def commit_def split: fault.splits sum.splits)
    from tx(1) have "docs tx = docs (mark_deleted i now db)" by (auto simp: insert_tomb_def split: if_splits)
    then have "docs db = docs (mark_deleted i now db)" using tx(2) by simp
    then have "doc_by_id db i = doc_by_id (mark_deleted i now db) i" unfolding doc_by_id_def by (rule arg_cong)
    also have "\<dots> = Some (d\<lparr>d_deleted := Some now\<rparr>)" using d(1) by (simp add: doc_by_id_mark_deleted)
    finally have "d\<lparr>d_deleted := Some now\<rparr> = d" using d(1) by simp
    then have "d_deleted d = Some now" by (metis doc.select_convs(7) doc.surjective doc.update_convs(7))
    with d(2) show False by simp
  qed
  with delete_doc_db [OF assms(1), of f ti now i] assms(2) have "db' = with_tomb ti now i db" by auto
  then show ?thesis using v by (auto simp: shown_docs_def view_with_tomb)
qed

lemma delete_doc_missing:
  assumes "\<And>k e. f k = Fails e \<or> f k = Lost e \<Longrightarrow> \<not> err_is e ErrNotFound"
    and "delete_doc f ti now i db = (Some e, db')" "err_is e ErrNotFound"
  shows "db' = db"
  using assms(2,3) assms(1)
  by (auto simp: delete_doc_def call_def commit_def split: fault.splits option.splits sum.splits)

lemma upsert_doc_new:
  assumes "db_ok db" "upsert_doc f i is now d cs db = (Inr (j, n, existed), db')"
  shows "if existed then db' = db
    else j = i \<and> shown_docs db' = (shown_docs db)(j \<mapsto> new_row j now d)"
  using upsert_doc_Inr [OF assms] by (auto simp: shown_docs_def view_with_doc [OF assms(1)] fun_eq_iff)

interpretation pgs: api "pg_store io" "\<lambda>db. db_ok db \<and> sane io" shown_docs "client_embed send decode" full_vector
  for io :: io and send :: "gostring list \<Rightarrow> reply" and decode :: "gostring \<Rightarrow> go_error + embed_response"
proof unfold_locales
  fix db nd cs i n existed db' assume ok: "db_ok db \<and> sane io"
  then show "db_ok (snd (ds_upsert (pg_store io) nd cs db)) \<and> sane io" by (simp add: pg_store_def upsert_doc_ok)
  assume "ds_upsert (pg_store io) nd cs db = (Inr (i, n, existed), db')"
  then have "upsert_doc (io_fault io) (io_id io) (io_ids io) (io_now io) nd cs db = (Inr (i, n, existed), db')"
    by (simp add: pg_store_def)
  from upsert_doc_new [OF _ this] ok
  show "if existed then db' = db
    else \<exists>x. shown_docs db' = (shown_docs db)(i \<mapsto> x) \<and> d_id x = i \<and> d_source x = n_source nd \<and> d_title x = n_title nd
      \<and> d_body x = n_body nd \<and> d_hash x = n_hash nd"
    by (auto simp: new_row_def)
next
  fix db i db' assume ok: "db_ok db \<and> sane io"
  then show "db_ok (snd (ds_delete (pg_store io) i db)) \<and> sane io" by (simp add: pg_store_def delete_doc_ok)
  show "shown_docs db i \<noteq> None \<and> shown_docs db' = (shown_docs db)(i := None)" if "ds_delete (pg_store io) i db = (None, db')"
    using that delete_doc_None ok by (auto simp: pg_store_def)
  show "db' = db" if "ds_delete (pg_store io) i db = (Some e, db')" "err_is e ErrNotFound" for e
    using that ok delete_doc_missing [of "io_fault io" "io_tomb io" "io_now io" i db e db'] by (auto simp: pg_store_def sane_def)
  show "shown_docs db i = Some d" if "ds_get (pg_store io) i db = Inr d" for d
    using that get_doc_Inr by (simp add: pg_store_def)
  fix b show "\<exists>r e db'. ds_compact (pg_store io) b db = Some (r, e, db') \<and> (db_ok db' \<and> sane io) \<and> shown_docs db' = shown_docs db"
  proof -
    have s: "reorders (io_scan io)" "honest (io_pass io)" using ok by (simp_all add: sane_def)
    from compact_loop_spec [OF s, of db "io_now io" 0 "\<lparr>res_tombs = 0, res_chunks = 0\<rparr>"] ok
    obtain r e db' where c: "compact (io_scan io) (io_pass io) (io_now io) b db = Some (r, e, db')"
      "compacts_to \<lparr>res_tombs = 0, res_chunks = 0\<rparr> db r e db'" unfolding compact_def by blast
    then have "db_ok db'" "view db' = view db" unfolding compacts_to_def using view_compacts by blast+
    then show ?thesis using c(1) ok by (auto simp: pg_store_def shown_docs_def fun_eq_iff)
  qed
qed

end
