(* ===== verification/Api_Flows.thy ===== *)
theory Api_Flows
  imports Api_Laws
begin

text \<open>
  The service end to end: requests through the middleware, the routes, a handler and the store model.
  The lemmas reduce a request to the call of its handler; the properties are about one request and about
  sequences of requests.
\<close>

section \<open>From a request to its handler\<close>

definition rid_of :: "gostring \<Rightarrow> request \<Rightarrow> gostring" where
  "rid_of rand8 rq = (if rq_header rq x_request_id = [] then new_id rand8 else rq_header rq x_request_id)"

definition opened :: "gostring \<Rightarrow> request \<Rightarrow> 'p writer" where
  "opened rand8 rq = set_header x_request_id (rid_of rand8 rq) fresh_writer"

definition tagged :: "gostring \<Rightarrow> request \<Rightarrow> request" where
  "tagged rand8 rq = rq\<lparr>rq_ctx := Some (rid_of rand8 rq)\<rparr>"

lemma rid_of_nonempty [simp]: "rand8 \<noteq> [] \<Longrightarrow> rid_of rand8 rq \<noteq> []"
  by (auto simp: rid_of_def new_id_def hex_encode_def neq_Nil_conv)

lemma tagged_sel [simp]:
  "rq_body (tagged rand8 rq) = rq_body rq" "rq_query (tagged rand8 rq) = rq_query rq"
  "rq_method (tagged rand8 rq) = rq_method rq" "rq_path (tagged rand8 rq) = rq_path rq"
  "rq_ctx (tagged rand8 rq) = Some (rid_of rand8 rq)"
  by (simp_all add: tagged_def)

lemma opened_sel [simp]: "w_body (opened rand8 rq) = []" "w_sent (opened rand8 rq) = None"
  "w_header (opened rand8 rq) = [x_request_id \<mapsto> rid_of rand8 rq]"
  by (simp_all add: opened_def fresh_writer_def)

lemma asked_opened: "rand8 \<noteq> [] \<Longrightarrow> asked (rid_of rand8 rq) (tagged rand8 rq) (opened rand8 rq)"
  by (simp add: asked_def ready_def)

lemma serve_mux: "serve en sv rand8 rq fresh_writer s =
    (case mux en sv (tagged rand8 rq) (opened rand8 rq) s of
       Panicked w s' \<Rightarrow> Returned (write_error (request_id_from (rq_ctx rq)) (Api (internal (str ''panic'') (str ''handler panicked''))) w) s'
     | r \<Rightarrow> r)"
  by (simp add: serve_def recoverer_def request_id_def Let_def tagged_def opened_def rid_of_def)

lemma serve_Returned:
  "find_route (rq_method rq) (rq_path rq) = Some (e, v) \<Longrightarrow>
   dispatch en sv e v (tagged rand8 rq) (opened rand8 rq) s = Returned w s' \<Longrightarrow>
     serve en sv rand8 rq fresh_writer s = Returned w s'"
  by (simp add: serve_mux mux_def)

lemma new_server_sel [simp]:
  "sv_store (new_server en g emb r io) = pg_store io" "sv_embed (new_server en g emb r io) = emb"
  "sv_batch (new_server en g emb r io) = 32"
  "sv_search (new_server en g emb r io) = (\<lambda>q k m db. fst (engine_query (io_lists io) (io_scores io)
     (store_deps g (io_fault io 0) (io_fault io 1) db emb (uuid_text en)) (engine_for r) q k m))"
  by (simp_all add: new_server_def)

lemma pg_store_sel [simp]:
  "ds_upsert (pg_store io) = upsert_doc (io_fault io) (io_id io) (io_ids io) (io_now io)"
  "ds_get (pg_store io) = get_doc (io_fault io 0)" "ds_list (pg_store io) = list_docs (io_fault io 0)"
  "ds_delete (pg_store io) = delete_doc (io_fault io) (io_tomb io) (io_now io)"
  by (simp_all add: pg_store_def)

definition v1 :: gostring where "v1 = str ''v1''"

lemma find_route_simps:
  "find_route (str ''POST'') [v1, str ''index''] = Some (Index_E, [])"
  "find_route (str ''POST'') [v1, str ''query''] = Some (Query_E, [])"
  "i \<noteq> [] \<Longrightarrow> find_route (str ''GET'') [v1, str ''docs'', i] = Some (Get_E, i)"
  "i \<noteq> [] \<Longrightarrow> find_route (str ''DELETE'') [v1, str ''docs'', i] = Some (Delete_E, i)"
  "find_route (str ''GET'') [v1, str ''docs''] = Some (List_E, [])"
  "find_route (str ''POST'') [v1, str ''admin'', str ''compact''] = Some (Compact_E, [])"
  "find_route (str ''GET'') [str ''healthz''] = Some (Health_E, [])"
  by (simp_all add: find_route_def routes_def method_ok_def v1_def)

section \<open>A concrete environment\<close>

text \<open>What the handlers rely on: a printed uuid is read back, is not empty and is plain text, and so is a
  cursor that could be marshalled.\<close>

definition env_ok :: "env \<Rightarrow> bool" where
  "env_ok en \<longleftrightarrow> (\<forall>i. parse_uuid en (uuid_text en i) = Some i \<and> uuid_text en i \<noteq> [] \<and> valid_utf8 (uuid_text en i))
     \<and> json_cursor (marshal_cursor en) (unmarshal_cursor en)"

definition ex_env :: env where
  "ex_env = \<lparr>sha256 = (\<lambda>b. b), parse_uuid = (\<lambda>s. if s \<noteq> [] \<and> list_all is_dec s then Some (of_nat (read_nat s)) else None),
     uuid_text = (\<lambda>i. dec_nat (unat i)), fmt_created = dec_int, time_ok = (\<lambda>t. True),
     dec_index = (\<lambda>b. Some \<lparr>ir_source = str ''s'', ir_title = str ''t'', ir_body = b\<rparr>),
     dec_query = (\<lambda>b. Some \<lparr>qr_q = b, qr_k = 5, qr_mode = []\<rparr>),
     marshal_cursor = cursor_to_json (\<lambda>t. 0), unmarshal_cursor = cursor_of_json, quote_str = (\<lambda>s. s)\<rparr>"

lemma ex_env_ok [simp]: "env_ok ex_env"
proof -
  have "valid_utf8 (dec_nat n)" for n
  proof (rule valid_utf8_ascii)
    have "list_all is_dec (dec_nat n)" using read_dec_nat by blast
    then show "list_all (\<lambda>b. unat b < 128) (dec_nat n)" by (rule list.pred_mono_strong) (simp add: is_dec_def)
  qed
  then show ?thesis using read_dec_nat cursor_json_roundtrip by (simp add: env_ok_def ex_env_def)
qed

lemma ex_env_sel [simp]:
  "dec_index ex_env b = Some \<lparr>ir_source = str ''s'', ir_title = str ''t'', ir_body = b\<rparr>"
  "dec_query ex_env b = Some \<lparr>qr_q = b, qr_k = 5, qr_mode = []\<rparr>" "sha256 ex_env b = b" "time_ok ex_env = (\<lambda>t. True)"
  "marshal_cursor ex_env = cursor_to_json (\<lambda>t. 0)" "unmarshal_cursor ex_env = cursor_of_json"
  by (simp_all add: ex_env_def)

lemma env_okD:
  assumes "env_ok en"
  shows "parse_uuid en (uuid_text en i) = Some i" "uuid_text en i \<noteq> []" "valid_utf8 (uuid_text en i)"
    "json_cursor (marshal_cursor en) (unmarshal_cursor en)"
  using assms by (simp_all add: env_ok_def)

lemma env_ok_inj: "env_ok en \<Longrightarrow> inj (uuid_text en)"
  by (metis env_okD(1) injI option.inject)

definition ex_io :: io where
  "ex_io = \<lparr>io_fault = no_faults, io_pass = (\<lambda>k. no_faults), io_id = 9, io_ids = [10, 11, 12], io_tomb = 3, io_now = 500,
     io_scan = rev, io_lists = rev, io_scores = rev\<rparr>"

lemma ex_io_sane [simp]: "sane ex_io"
  by (simp add: sane_def ex_io_def honest_def)

definition ex_request :: "string \<Rightarrow> gostring list \<Rightarrow> gostring \<Rightarrow> request" where
  "ex_request m p b = \<lparr>rq_method = str m, rq_path = p, rq_header = (\<lambda>k. []), rq_query = (\<lambda>k. []), rq_body = b, rq_ctx = None\<rparr>"

lemma ex_request_sel [simp]:
  "rq_method (ex_request m p b) = str m" "rq_path (ex_request m p b) = p" "rq_body (ex_request m p b) = b"
  "rq_query (ex_request m p b) k = []" "rq_header (ex_request m p b) k = []" "rq_ctx (ex_request m p b) = None"
  by (simp_all add: ex_request_def)

section \<open>One request\<close>

lemma dispatch_pg:
  assumes "db_ok db" "sane io" "rand8 \<noteq> []"
  shows "answers (\<lambda>db. db_ok db \<and> sane io) (rid_of rand8 rq) db
    (dispatch en (new_server en g (client_embed send decode) r io) e v (tagged rand8 rq) (opened rand8 rq) db)"
  by (rule pgs.dispatch_answers [where send = send and decode = decode and io = io])
    (use assms in \<open>simp_all add: asked_opened\<close>)

lemma serve_answers:
  assumes "db_ok db" "sane io" "rand8 \<noteq> []" "find_route (rq_method rq) (rq_path rq) = Some (e, v)"
  shows "answers (\<lambda>db. db_ok db \<and> sane io) (rid_of rand8 rq) db
    (serve en (new_server en g (client_embed send decode) r io) rand8 rq fresh_writer db)"
proof -
  let ?o = "dispatch en (new_server en g (client_embed send decode) r io) e v (tagged rand8 rq) (opened rand8 rq) db"
  note a = dispatch_pg [OF assms(1-3), of rq en g send decode r e v]
  then obtain w s' where "?o = Returned w s'" by (cases ?o) (auto simp: answers_def)
  with a serve_Returned [OF assms(4) this] show ?thesis by simp
qed

text \<open>Every request to a route of the service is answered, with the sidecar's client behind it: the
  handler neither hangs nor panics, exactly one status line is sent, with the JSON content type and the
  request's id (the client's own or a new one) in the header, and under an error status the body is one
  envelope with that id, retryable exactly for 503. The tables stay well formed. Any other path or method
  gets the plain 404 or 405 of the standard library.\<close>

theorem serve_replies:
  assumes "db_ok db" "sane io" "rand8 \<noteq> []"
  shows "\<exists>w db'. serve en (new_server en g (client_embed send decode) r io) rand8 rq fresh_writer db = Returned w db'
    \<and> db_ok db'
    \<and> (case find_route (rq_method rq) (rq_path rq) of
         None \<Rightarrow> w = no_route (rq_path rq) (opened rand8 rq) \<and> db' = db
       | Some _ \<Rightarrow> replied (rid_of rand8 rq) w)"
proof (cases "find_route (rq_method rq) (rq_path rq)")
  case None
  with assms(1) show ?thesis by (simp add: serve_mux mux_def)
next
  case (Some p)
  then obtain e v where ev: "find_route (rq_method rq) (rq_path rq) = Some (e, v)" by (cases p) auto
  let ?o = "serve en (new_server en g (client_embed send decode) r io) rand8 rq fresh_writer db"
  from serve_answers [OF assms ev, of en g send decode r] Some
  show ?thesis by (cases ?o) (auto simp: answers_def)
qed

theorem serve_replies_witness:
  "\<exists>w db'. serve ex_env (new_server ex_env ex_pg (client_embed (\<lambda>ts. Response 500 []) (\<lambda>b. Inl ErrNoRows)) None ex_io) [1]
      (ex_request ''POST'' [v1, str ''index''] (str ''b'')) fresh_writer ex_db = Returned w db'
    \<and> replied (rid_of [1] (ex_request ''POST'' [v1, str ''index''] (str ''b''))) w"
proof -
  have "[1] \<noteq> ([] :: gostring)" by simp
  from serve_replies [OF ex_db_ok ex_io_sane this, of ex_env ex_pg "\<lambda>ts. Response 500 []" "\<lambda>b. Inl ErrNoRows" None
      "ex_request ''POST'' [v1, str ''index''] (str ''b'')"]
  show ?thesis by (auto simp: find_route_simps simp del: str_Cons)
qed

text \<open>A request that is refused changes nothing: after any answer other than 200 and 500 the tables are
  the same, and a lookup, a listing, a query and a health probe never change them.\<close>

theorem refused_unchanged:
  assumes "db_ok db" "sane io" "rand8 \<noteq> []"
    and "serve en (new_server en g (client_embed send decode) r io) rand8 rq fresh_writer db = Returned w db'"
    and "(case w_sent w of None \<Rightarrow> False | Some (st, h) \<Rightarrow> st \<noteq> 200 \<and> st \<noteq> 500)
       \<or> rq_method rq = str ''GET'' \<or> rq_path rq = [v1, str ''query'']"
  shows "db' = db"
proof (cases "find_route (rq_method rq) (rq_path rq)")
  case None
  with assms(4) show ?thesis by (simp add: serve_mux mux_def)
next
  case (Some p)
  then obtain e v where ev: "find_route (rq_method rq) (rq_path rq) = Some (e, v)" by (cases p) auto
  from serve_answers [OF assms(1-3) ev, of en g send decode r] assms(4)
  have a: "answers (\<lambda>db. db_ok db \<and> sane io) (rid_of rand8 rq) db (Returned w db')" by simp
  have "db' = db" if "e \<in> {Get_E, List_E, Query_E, Health_E}"
    using that ev assms(4)
    by (auto simp: serve_mux mux_def dispatch_def handle_get_doc_def handle_list_docs_def handle_query_def handle_health_def
        Let_def split: option.splits sum.splits if_splits)
  moreover have "e \<in> {Get_E, List_E, Query_E, Health_E}" if "rq_method rq = str ''GET'' \<or> rq_path rq = [v1, str ''query'']"
    using that ev by (auto simp: find_route_def routes_def method_ok_def v1_def split: if_splits option.splits)
  ultimately show ?thesis
    using assms(5) a by (auto simp: answers_def split: option.splits prod.splits if_splits)
qed

theorem refused_unchanged_witness:
  "\<exists>w. serve ex_env (new_server ex_env ex_pg (client_embed (\<lambda>ts. Response 500 []) (\<lambda>b. Inl ErrNoRows)) None ex_io) [1]
      (ex_request ''GET'' [str ''healthz''] []) fresh_writer ex_db = Returned w ex_db"
proof -
  have n: "[1] \<noteq> ([] :: gostring)" by simp
  let ?rq = "ex_request ''GET'' [str ''healthz''] []"
  obtain w db' where s: "serve ex_env (new_server ex_env ex_pg (client_embed (\<lambda>ts. Response 500 []) (\<lambda>b. Inl ErrNoRows)) None ex_io)
      [1] ?rq fresh_writer ex_db = Returned w db'"
    using serve_answers [OF ex_db_ok ex_io_sane n, of ?rq Health_E "[]" ex_env ex_pg "\<lambda>ts. Response 500 []" "\<lambda>b. Inl ErrNoRows" None]
    by (simp add: find_route_simps answers_def del: str_Cons split: outcome.splits)
  from refused_unchanged [OF ex_db_ok ex_io_sane n s] s show ?thesis by simp
qed

section \<open>Sequences of requests\<close>

lemma fail_body [simp]: "w_body (fail rq e w) = w_body w @ [Envelope \<lparr>env_code = ae_code e, env_message = ae_message e,
    env_retryable = ae_retryable e, env_request_id = request_id_from (rq_ctx rq)\<rparr>]"
  by (simp add: fail_def write_error_def Let_def)

lemma reply_ok_body [simp]:
  "w_body (reply_ok en p w) = (if encodable (time_ok en) p then w_body w @ [Payload p] else w_body w)"
  by (simp add: reply_ok_def write_json_def Let_def)

lemma handle_index_created:
  assumes "handle_index en sv rq w s = Returned w' s'" "w_body w = []" "w_body w' = [Payload (Index_Resp t n existed)]"
  shows "\<exists>req cs i. dec_index en (rq_body rq) = Some req \<and> t = uuid_text en i
    \<and> ds_upsert (sv_store sv) (store_doc en (trim_space (ir_source req)) (trim_space (ir_title req)) (ir_body req)) cs s
        = (Inr (i, n, existed), s')"
  using assms
  by (auto simp: handle_index_def Let_def split: option.splits sum.splits prod.splits if_splits) blast

lemma serve_get_doc:
  assumes "env_ok en" "rq_method rq = str ''GET''" "rq_path rq = [v1, str ''docs'', uuid_text en i]" "io_fault io 0 = NoFault"
  shows "serve en (new_server en g emb r io) rand8 rq fresh_writer db = Returned
    (case shown_docs db i of
       None \<Rightarrow> fail (tagged rand8 rq) (not_found (str ''not_found'') (str ''doc not found'')) (opened rand8 rq)
     | Some d \<Rightarrow> reply_ok en (Doc_Resp (uuid_text en (d_id d)) (d_source d) (d_title d) (d_body d) (d_hash d) (d_created d))
                  (opened rand8 rq)) db"
proof (rule serve_Returned)
  show "find_route (rq_method rq) (rq_path rq) = Some (Get_E, uuid_text en i)"
    using assms env_okD(2) by (simp add: find_route_simps del: str_Cons)
  show "dispatch en (new_server en g emb r io) Get_E (uuid_text en i) (tagged rand8 rq) (opened rand8 rq) db = Returned
    (case shown_docs db i of
       None \<Rightarrow> fail (tagged rand8 rq) (not_found (str ''not_found'') (str ''doc not found'')) (opened rand8 rq)
     | Some d \<Rightarrow> reply_ok en (Doc_Resp (uuid_text en (d_id d)) (d_source d) (d_title d) (d_body d) (d_hash d) (d_created d))
                  (opened rand8 rq)) db"
    using assms(1,4) by (simp add: dispatch_def handle_get_doc_def env_okD get_doc_view shown_docs_def del: str_Cons split: option.split)
qed

lemma served_index:
  assumes "rq_method rq = str ''POST''" "rq_path rq = [v1, str ''index'']"
    and "serve en sv rand8 rq fresh_writer db = Returned w db'" "w_body w = [Payload p]"
  shows "handle_index en sv (tagged rand8 rq) (opened rand8 rq) db = Returned w db'"
proof -
  have fr: "find_route (rq_method rq) (rq_path rq) = Some (Index_E, [])"
    unfolding assms(1,2) by (rule find_route_simps)
  show ?thesis
  proof (cases "handle_index en sv (tagged rand8 rq) (opened rand8 rq) db")
    case (Panicked w1 s1)
    then have "w1 = opened rand8 rq"
      by (auto simp: handle_index_def Let_def split: option.splits sum.splits prod.splits if_splits)
    with Panicked assms(3,4) fr show ?thesis
      by (auto simp: serve_mux mux_def dispatch_def write_error_def Let_def)
  qed (use assms(3) fr in \<open>simp_all add: serve_mux mux_def dispatch_def\<close>)
qed

lemma index_created:
  assumes "db_ok db" "rq_method rq = str ''POST''" "rq_path rq = [v1, str ''index'']"
    and "serve en (new_server en g emb r io) rand8 rq fresh_writer db = Returned w db'"
    and "w_body w = [Payload (Index_Resp t n False)]"
  shows "\<exists>req i. dec_index en (rq_body rq) = Some req \<and> t = uuid_text en i \<and> db_ok db'
    \<and> shown_docs db' i = Some (new_row i (io_now io)
        (store_doc en (trim_space (ir_source req)) (trim_space (ir_title req)) (ir_body req)))"
proof -
  note h = served_index [OF assms(2-5)]
  from handle_index_created [OF h _ assms(5)] obtain req cs i where c: "dec_index en (rq_body rq) = Some req" "t = uuid_text en i"
    "upsert_doc (io_fault io) (io_id io) (io_ids io) (io_now io)
       (store_doc en (trim_space (ir_source req)) (trim_space (ir_title req)) (ir_body req)) cs db = (Inr (i, n, False), db')"
    by auto
  from upsert_doc_new [OF assms(1) c(3)] upsert_doc_ok [OF assms(1)] c(3)
  have "db_ok db' \<and> shown_docs db' i = Some (new_row i (io_now io)
      (store_doc en (trim_space (ir_source req)) (trim_space (ir_title req)) (ir_body req)))" by (metis fun_upd_same snd_conv)
  with c(1,2) show ?thesis by blast
qed

definition ex_post :: request where
  "ex_post = ex_request ''POST'' [v1, str ''index''] (str ''b'')"

definition ex_emb :: "gostring list \<Rightarrow> go_error + f64 list list" where
  "ex_emb ts = Inr (map (\<lambda>t. [Fin 1]) ts)"

lemma trim_letter: "trim_space [98] = [98]" "trim_space [115] = [115]" "trim_space [116] = [116]"
  by (simp_all add: trim_space_def trim_def segs_step is_space_def)

lemma ex_split: "split_chunks [98] zero_opts = Some [\<lparr>ck_index = 0, ck_text = [98]\<rparr>]"
  by (simp add: split_chunks_def split_body_def clamp_opts_def zero_opts_def default_target_chars_def default_max_chars_def
      trim_letter runes_def segs_step Let_def of_runes_def encode_rune_def valid_rune_def)

text \<open>One document is indexed, in any environment in which the request's body names it.\<close>

lemma ex_index_in:
  assumes "rq_method rq = str ''POST''" "rq_path rq = [v1, str ''index'']"
    and "dec_index en (rq_body rq) = Some \<lparr>ir_source = str ''s'', ir_title = str ''t'', ir_body = str ''b''\<rparr>"
  shows "\<exists>db. serve en (new_server en ex_pg ex_emb None ex_io) [1] rq fresh_writer empty_db
     = Returned (reply_ok en (Index_Resp (uuid_text en 9) 1 False) (opened [1] rq)) db"
proof -
  have "embed_batched ex_emb 32 [[98]] = ex_emb [[98]]"
    by (simp add: embed_batched_def batch_loop.simps norm_batch_def ex_emb_def)
  with assms(3) have "\<exists>db. handle_index en (new_server en ex_pg ex_emb None ex_io) (tagged [1] rq) (opened [1] rq) empty_db
     = Returned (reply_ok en (Index_Resp (uuid_text en 9) 1 False) (opened [1] rq)) db"
    by (simp add: handle_index_def Let_def trim_letter ex_split ex_emb_def store_chunks_def ex_io_def
        upsert_doc_def insert_doc_def doc_by_hash_def doc_by_id_def empty_db_def insert_chunks_def chunk_rows_def
        chunk_keys_free_def commit_def)
  then obtain db where h: "handle_index en (new_server en ex_pg ex_emb None ex_io) (tagged [1] rq) (opened [1] rq) empty_db
     = Returned (reply_ok en (Index_Resp (uuid_text en 9) 1 False) (opened [1] rq)) db" by blast
  have "find_route (rq_method rq) (rq_path rq) = Some (Index_E, [])"
    using assms(1,2) by (simp add: find_route_simps del: str_Cons)
  from serve_Returned [OF this, of en "new_server en ex_pg ex_emb None ex_io" "[1]" empty_db] h
  show ?thesis by (simp add: dispatch_def)
qed

lemma ex_index:
  "\<exists>db. serve ex_env (new_server ex_env ex_pg ex_emb None ex_io) [1] ex_post fresh_writer empty_db
     = Returned (reply_ok ex_env (Index_Resp (uuid_text ex_env 9) 1 False) (opened [1] ex_post)) db"
  by (rule ex_index_in) (simp_all add: ex_post_def)

lemma handle_delete_ok:
  assumes "handle_delete_doc en sv v rq w s = Returned w' s'" "w_body w = []" "w_body w' = [Payload p]"
  shows "\<exists>i. parse_uuid en v = Some i \<and> ds_delete (sv_store sv) i s = (None, s') \<and> p = Deleted_Resp (uuid_text en i) True"
  using assms by (auto simp: handle_delete_doc_def split: option.splits prod.splits if_splits)

lemma handle_delete_no_panic: "handle_delete_doc en sv v rq w s \<noteq> Panicked w' s'"
  by (auto simp: handle_delete_doc_def split: option.split prod.split)

lemma serve_delete:
  assumes "v \<noteq> []" "rq_method rq = str ''DELETE''" "rq_path rq = [v1, str ''docs'', v]"
  shows "serve en sv rand8 rq fresh_writer s = handle_delete_doc en sv v (tagged rand8 rq) (opened rand8 rq) s"
  using assms handle_delete_no_panic [of en sv v "tagged rand8 rq" "opened rand8 rq" s]
  by (simp add: serve_mux mux_def find_route_simps dispatch_def del: str_Cons split: outcome.split)

text \<open>C7. What was deleted is gone: after a \<open>DELETE\<close> that was answered with "deleted", a lookup of the id is
  404, deleting it again is 404 and changes nothing, and a lookup of any other document answers what it
  answered before.\<close>

theorem delete_then_get:
  assumes "db_ok db" "env_ok en"
    and "rq_method rq = str ''DELETE''" "rq_path rq = [v1, str ''docs'', uuid_text en i]"
    and "serve en (new_server en g emb r io) rand8 rq fresh_writer db = Returned w db'" "w_body w = [Payload p]"
    and "rq_method rq1 = str ''GET''" "rq_path rq1 = [v1, str ''docs'', uuid_text en j]"
    and "io_fault io1 = no_faults"
  shows "serve en (new_server en g emb r io1) rand8 rq1 fresh_writer db' =
      (if j = i then Returned (fail (tagged rand8 rq1) (not_found (str ''not_found'') (str ''doc not found'')) (opened rand8 rq1)) db'
       else case serve en (new_server en g emb r io1) rand8 rq1 fresh_writer db of Returned w1 _ \<Rightarrow> Returned w1 db' | x \<Rightarrow> x)
    \<and> serve en (new_server en g emb r io1) rand8 rq fresh_writer db' =
        Returned (fail (tagged rand8 rq) (not_found (str ''not_found'') (str ''doc not found or already deleted'')) (opened rand8 rq)) db'"
proof -
  note ne = env_okD(2) [OF assms(2), of i]
  have n0: "io_fault io1 0 = NoFault" using assms(9) by (simp add: no_faults_def)
  from assms(5) handle_delete_ok [of en "new_server en g emb r io" "uuid_text en i" "tagged rand8 rq" "opened rand8 rq" db w db' p]
  have "delete_doc (io_fault io) (io_tomb io) (io_now io) i db = (None, db')"
    using assms(6) env_okD(1) [OF assms(2), of i] by (auto simp: serve_delete [OF ne assms(3,4)])
  from delete_doc_None [OF assms(1) this] have s: "shown_docs db' = (shown_docs db)(i := None)" by blast
  then have v: "view db' i = None" by (metis fun_upd_same map_option_is_None shown_docs_def)
  have "delete_doc (io_fault io1) (io_tomb io1) (io_now io1) i db' = (Some ErrNotFound, db')"
    using delete_not_live [OF v] assms(9) by simp
  then have "serve en (new_server en g emb r io1) rand8 rq fresh_writer db' =
        Returned (fail (tagged rand8 rq) (not_found (str ''not_found'') (str ''doc not found or already deleted'')) (opened rand8 rq)) db'"
    using env_okD(1) [OF assms(2), of i] by (simp add: serve_delete [OF ne assms(3,4)] handle_delete_doc_def del: str_Cons)
  moreover note serve_get_doc [OF assms(2,7,8) n0, of g emb r rand8 db'] serve_get_doc [OF assms(2,7,8) n0, of g emb r rand8 db]
  ultimately show ?thesis using s by (simp split: option.split)
qed

lemma ex_served_delete:
  "serve ex_env (new_server ex_env g emb r ex_io) rand8 (ex_request ''DELETE'' [v1, str ''docs'', uuid_text ex_env 7] []) fresh_writer ex_db
     = Returned (reply_ok ex_env (Deleted_Resp (uuid_text ex_env 7) True) (opened rand8 (ex_request ''DELETE'' [v1, str ''docs'', uuid_text ex_env 7] [])))
        (with_tomb 3 500 7 ex_db)"
proof -
  have "delete_doc no_faults 3 500 7 ex_db = (None, with_tomb 3 500 7 ex_db)"
    by (rule delete_live [OF ex_db_ok, of _ _ "new_row 7 100 ex_doc"])
       (simp_all add: ex_db_def with_doc_def empty_db_def doc_by_id_def new_row_def live_def)
  then show ?thesis
    using env_okD(1,2) [OF ex_env_ok, of 7]
    by (simp add: serve_delete handle_delete_doc_def ex_io_def del: str_Cons)
qed

theorem delete_then_get_witness:
  "serve ex_env (new_server ex_env ex_pg ex_emb None ex_io) [1] (ex_request ''GET'' [v1, str ''docs'', uuid_text ex_env 7] [])
      fresh_writer (with_tomb 3 500 7 ex_db)
   = Returned (fail (tagged [1] (ex_request ''GET'' [v1, str ''docs'', uuid_text ex_env 7] []))
       (not_found (str ''not_found'') (str ''doc not found'')) (opened [1] (ex_request ''GET'' [v1, str ''docs'', uuid_text ex_env 7] [])))
       (with_tomb 3 500 7 ex_db)"
proof -
  have f: "io_fault ex_io = no_faults" by (simp add: ex_io_def)
  have b: "w_body (reply_ok ex_env (Deleted_Resp (uuid_text ex_env 7) True)
      (opened [1] (ex_request ''DELETE'' [v1, str ''docs'', uuid_text ex_env 7] []))) = [Payload (Deleted_Resp (uuid_text ex_env 7) True)]"
    by simp
  have g: "rq_method (ex_request ''GET'' [v1, str ''docs'', uuid_text ex_env 7] []) = str ''GET''"
    "rq_path (ex_request ''GET'' [v1, str ''docs'', uuid_text ex_env 7] []) = [v1, str ''docs'', uuid_text ex_env 7]" by simp_all
  from delete_then_get [OF ex_db_ok ex_env_ok _ _ ex_served_delete b g f] show ?thesis by simp
qed

lemma handle_query_ok:
  assumes "handle_query en sv rq w s = Returned w' s'" "w_body w = []" "w_body w' = [Payload (Query_Resp rs)]"
  shows "\<exists>req m. dec_query en (rq_body rq) = Some req \<and> 0 \<le> qr_k req \<and> qr_k req \<le> 100
    \<and> parse_mode (quote_str en) (qr_mode req) = Inr m \<and> sv_search sv (trim_space (qr_q req)) (qr_k req) m s = Inr rs \<and> s' = s"
proof (cases "dec_query en (rq_body rq)")
  case (Some req)
  with assms show ?thesis by (auto simp: handle_query_def Let_def split: sum.splits if_splits)
qed (use assms in \<open>auto simp: handle_query_def\<close>)

lemma handle_query_no_panic: "handle_query en sv rq w s \<noteq> Panicked w' s'"
  by (auto simp: handle_query_def Let_def split: option.split sum.split)

lemma serve_query:
  assumes "rq_method rq = str ''POST''" "rq_path rq = [v1, str ''query'']"
  shows "serve en sv rand8 rq fresh_writer s = handle_query en sv (tagged rand8 rq) (opened rand8 rq) s"
  using assms handle_query_no_panic [of en sv "tagged rand8 rq" "opened rand8 rq" s]
  by (simp add: serve_mux mux_def find_route_simps dispatch_def del: str_Cons split: outcome.split)

lemma query_shows_visible:
  assumes "db_ok db" "env_ok en" "scans g" "numeric g" "sound_reranker (engine_for r)"
    and "reorders (io_lists io)" "reorders (io_scores io)"
    and "handle_query en (new_server en g emb r io) rq w db = Returned w' db'" "w_body w = []" "w_body w' = [Payload (Query_Resp rs)]"
  shows "answers_visible (chunk_visible db) (uuid_text en) 100 rs"
proof -
  from handle_query_ok [OF assms(8-10)] obtain req :: query_req and m where req: "qr_k req \<le> 100"
    "fst (engine_query (io_lists io) (io_scores io) (store_deps g (io_fault io 0) (io_fault io 1) db emb (uuid_text en))
       (engine_for r) (trim_space (qr_q req)) (qr_k req) m) = Inr rs"
    by (simp del: One_nat_def) blast
  have small: "small_engine (engine_for r)" by (simp add: engine_for_def split: option.split)
  have "answers_visible (chunk_visible db) (uuid_text en) (norm_query_k (qr_k req)) rs"
    using sb.engine_query_answers [of db g "store_deps g (io_fault io 0) (io_fault io 1) db emb (uuid_text en)"
        "io_fault io 0" "io_fault io 1", OF _ _ _ _ assms(6,7,5) small req(2)] assms(1,3,4) env_ok_inj [OF assms(2)]
    by (simp add: store_deps_def)
  then show ?thesis using req(1) by (auto simp: answers_visible_def norm_query_k_def split: if_splits)
qed

lemma ex_served_query:
  "serve ex_env (new_server ex_env ex_pg ex_emb None ex_io) [1] (ex_request ''POST'' [v1, str ''query''] (str ''b'')) fresh_writer
      (with_tomb 3 500 7 ex_db)
   = Returned (reply_ok ex_env (Query_Resp []) (opened [1] (ex_request ''POST'' [v1, str ''query''] (str ''b'')))) (with_tomb 3 500 7 ex_db)"
proof -
  let ?db = "with_tomb 3 500 7 ex_db"
  have c: "filter P (chunks ?db) = []" if "\<And>c. c_doc c = 7 \<Longrightarrow> \<not> P c" for P
    using that by (simp add: with_tomb_def ex_db_def with_doc_def empty_db_def ex_chunks_def chunk_rows_def)
  have l: "\<not> live_chunk ?db c" if "c_doc c = 7" for c
    using that by (simp add: live_chunk_def live_def with_tomb_def mark_deleted_def doc_by_id_def ex_db_def with_doc_def
        empty_db_def new_row_def)
  have b: "search_bm25 ex_pg NoFault q n ?db = Inr []" for q n
    using c [of "\<lambda>c. live_chunk ?db c \<and> pg_matches ex_pg q (c_text c)"] l by (simp add: search_bm25_def Let_def ex_pg_def)
  have v: "search_vector ex_pg NoFault x n ?db = Inr []" for x n
    using c [of "live_chunk ?db"] l by (simp add: search_vector_def Let_def ex_pg_def)
  have "fst (engine_query rev rev (store_deps ex_pg NoFault NoFault ?db ex_emb us) new_engine q k ModeHybrid) = Inr []" for us q k
    by (simp add: engine_query_def Let_def retrieve_def bm25_part_def vector_part_def uses_bm25_def uses_vector_def store_deps_def
        b v ex_emb_def as_hits_def finish_def reranks_def norm_engine_sel new_engine_def fuse_rrf_def norm_k_def)
  then show ?thesis
    by (simp add: serve_query handle_query_def trim_letter parse_mode_def ex_io_def engine_for_def no_faults_def)
qed

end
