(* ===== verification/Float32.thy ===== *)
theory Float32
  imports Float64
begin

text \<open>
  \<open>float32\<close>, the numbers of the vectors: rounding to 24 significant bits, the exponent clipped at the subnormal
  range. The values are kept among the rationals. The lemmas: the relative error, and that a value of \<open>float32\<close> is
  found again in any decimal that reads back as it in 64 bits.
\<close>

definition ulp32 :: "rat \<Rightarrow> rat" where
  "ulp32 q = pw (max (expo q) (-126) - 23)"

definition rnd32 :: "rat \<Rightarrow> rat" where
  "rnd32 q = (if q = 0 then 0 else of_int (rne (q / ulp32 q)) * ulp32 q)"

lemma ulp32_pos [simp]: "0 < ulp32 q"
  by (simp add: ulp32_def)

lemma ulp32_minus [simp]: "ulp32 (- q) = ulp32 q"
  by (simp add: ulp32_def)

lemma rnd32_0 [simp]: "rnd32 0 = 0"
  by (simp add: rnd32_def)

lemma rnd32_minus [simp]: "rnd32 (- q) = - rnd32 q"
  by (simp add: rnd32_def)

section \<open>Normal values\<close>

text \<open>A zero, or 24 bits that start with a one, well inside the range.\<close>

definition f32_normal :: "rat \<Rightarrow> bool" where
  "f32_normal q \<longleftrightarrow> q = 0 \<or> (\<exists>n e. 2 ^ 23 \<le> \<bar>n\<bar> \<and> \<bar>n\<bar> < 2 ^ 24 \<and> -125 \<le> e \<and> e \<le> 127 \<and> q = of_int n * pw (e - 23))"

lemma f32_normalI:
  "2 ^ 23 \<le> \<bar>n\<bar> \<Longrightarrow> \<bar>n\<bar> < 2 ^ 24 \<Longrightarrow> -125 \<le> e \<Longrightarrow> e \<le> 127 \<Longrightarrow> q = of_int n * pw (e - 23) \<Longrightarrow> f32_normal q"
  unfolding f32_normal_def by blast

lemma f32_normal_minusI: "f32_normal q \<Longrightarrow> f32_normal (- q)"
proof (cases "q = 0")
  case False
  assume "f32_normal q"
  with False obtain n e where "2 ^ 23 \<le> \<bar>n\<bar>" "\<bar>n\<bar> < 2 ^ 24" "-125 \<le> e" "e \<le> 127" "q = of_int n * pw (e - 23)"
    unfolding f32_normal_def by blast
  then show ?thesis by (intro f32_normalI [of "- n" e]) simp_all
qed simp

lemma f32_normal_minus [simp]: "f32_normal (- q) \<longleftrightarrow> f32_normal q"
  using f32_normal_minusI [of q] f32_normal_minusI [of "- q"] by (simp only: minus_minus) blast

lemma expo_normal:
  assumes "pw k \<le> x" "x < pw (k + 1)"
  shows "expo x = k"
proof -
  have "\<bar>x\<bar> = x" using assms(1) pw_pos [of k] by linarith
  with assms show ?thesis by (intro expo_eqI) simp_all
qed

text \<open>Rounding a positive value of the normal range.\<close>

lemma rnd32_pos:
  assumes "pw k \<le> x" "x < pw (k + 1)" "-126 \<le> k"
  shows "rnd32 x = of_int (rne (x / pw (k - 23))) * pw (k - 23)"
    and "2 ^ 23 \<le> rne (x / pw (k - 23))" "rne (x / pw (k - 23)) \<le> 2 ^ 24"
    and "\<bar>rnd32 x - x\<bar> \<le> x * pw (-24)"
proof -
  let ?u = "pw (k - 23)"
  have x: "0 < x" using assms(1) pw_pos [of k] by linarith
  have u: "ulp32 x = ?u" using expo_normal [OF assms(1,2)] assms(3) by (simp add: ulp32_def)
  show r: "rnd32 x = of_int (rne (x / ?u)) * ?u" using x u by (simp add: rnd32_def)
  have k: "pw k = 2 ^ 23 * ?u" "pw (k + 1) = 2 ^ 24 * ?u"
    using pw_split [of "k - 23" k] pw_split [of "k - 23" "k + 1"] by simp_all
  have "of_int (2 ^ 23) \<le> x / ?u" "x / ?u \<le> of_int (2 ^ 24)"
    using assms(1,2) k by (simp_all add: pos_le_divide_eq pos_divide_le_eq)
  then show "2 ^ 23 \<le> rne (x / ?u)" "rne (x / ?u) \<le> 2 ^ 24"
    using rne_mono by (metis rne_of_int)+
  have "rnd32 x - x = (of_int (rne (x / ?u)) - x / ?u) * ?u" by (simp add: r left_diff_distrib)
  then have "\<bar>rnd32 x - x\<bar> = \<bar>of_int (rne (x / ?u)) - x / ?u\<bar> * ?u" by (simp add: abs_mult)
  also have "\<dots> \<le> 1 / 2 * ?u" using rne_error by (rule mult_right_mono) simp
  also have "\<dots> = pw k * pw (-24)" using k by (simp add: power_int_minus)
  also have "\<dots> \<le> x * pw (-24)" using assms(1) by (rule mult_right_mono) simp
  finally show "\<bar>rnd32 x - x\<bar> \<le> x * pw (-24)" .
qed

lemma rnd32_normal_pos:
  assumes "pw (-125) \<le> x" "x \<le> 2 ^ 100"
  shows "f32_normal (rnd32 x) \<and> \<bar>rnd32 x - x\<bar> \<le> x * pw (-24)"
proof -
  let ?k = "expo x" and ?n = "rne (x / pw (expo x - 23))"
  have x: "0 < x" using assms(1) pw_pos [of "-125"] by linarith
  then have b: "pw ?k \<le> x" "x < pw (?k + 1)" using expo_bounds [of x] by auto
  from b(2) assms(1) have "pw (-125) < pw (?k + 1)" by linarith
  then have k: "-125 \<le> ?k" using pw_less_cancel by fastforce
  have "pw ?k < pw 101" using b(1) assms(2) pw_strict_mono [of 100 101] pw_nat [of 100] by simp
  then have k': "?k \<le> 100" using pw_less_cancel by fastforce
  note r = rnd32_pos [OF b order.trans [OF _ k]]
  have "f32_normal (rnd32 x)"
  proof (cases "?n = 2 ^ 24")
    case True
    have "rnd32 x = of_int (2 ^ 23) * pw ((?k + 1) - 23)"
      using r(1) True pw_Suc [of "?k - 23"] by (simp add: algebra_simps)
    then show ?thesis using k k' by (intro f32_normalI [of "2 ^ 23" "?k + 1"]) simp_all
  next
    case False
    then show ?thesis using r(1-3) k k' by (intro f32_normalI [of ?n ?k]) simp_all
  qed
  with r(4) show ?thesis by simp
qed

lemma rnd32_normal:
  assumes "x = 0 \<or> pw (-125) \<le> \<bar>x\<bar>" "\<bar>x\<bar> \<le> 2 ^ 100"
  shows "f32_normal (rnd32 x) \<and> \<bar>rnd32 x - x\<bar> \<le> \<bar>x\<bar> * pw (-24)"
proof (cases "x < 0")
  case True
  with assms rnd32_normal_pos [of "- x"] show ?thesis by (simp add: abs_minus_commute)
next
  case False
  with assms rnd32_normal_pos [of x] show ?thesis by (cases "x = 0") (auto simp: f32_normal_def)
qed

section \<open>Reading a value back\<close>

lemma rne_scaled:
  assumes "0 < u" "\<bar>y - of_int n * u\<bar> < u / 2"
  shows "rne (y / u) = n"
proof (rule rne_eqI)
  have "y / u - of_int n = (y - of_int n * u) / u" using assms(1) by (simp add: diff_divide_distrib)
  then have "\<bar>y / u - of_int n\<bar> = \<bar>y - of_int n * u\<bar> / u" using assms(1) by simp
  then show "\<bar>y / u - of_int n\<bar> < 1 / 2" using assms by (simp add: pos_divide_less_eq)
qed

lemma rnd32_near_pos:
  assumes "2 ^ 23 \<le> n" "n < 2 ^ 24" "-125 \<le> e" "q = of_int n * pw (e - 23)" "\<bar>y - q\<bar> \<le> pw (e - 26)"
  shows "rnd32 y = q"
proof -
  let ?v = "pw (e - 26)"
  have e: "pw (e - 23) = 8 * ?v" "pw (e - 24) = 4 * ?v" "pw e = 67108864 * ?v" "pw (e - 1) = 33554432 * ?v"
    "pw (e + 1) = 134217728 * ?v"
    using pw_split [of "e - 26" "e - 23"] pw_split [of "e - 26" "e - 24"] pw_split [of "e - 26" e]
      pw_split [of "e - 26" "e - 1"] pw_split [of "e - 26" "e + 1"] by simp_all
  have v: "0 < ?v" by simp
  have q: "q = of_int n * 8 * ?v" using assms(4) e(1) by simp
  have "n \<le> 2 ^ 24 - 1" using assms(2) by simp
  with assms(1) have "(of_int (2 ^ 23) :: rat) \<le> of_int n" "(of_int n :: rat) \<le> of_int (2 ^ 24 - 1)"
    by (simp_all only: of_int_le_iff)
  then have n: "(2 ^ 23 :: rat) \<le> of_int n" "(of_int n :: rat) \<le> 2 ^ 24 - 1" by simp_all
  have le: "67108864 * ?v \<le> q" "q \<le> 134217720 * ?v"
    using n v unfolding q by (simp_all add: mult_right_mono)
  have y: "y \<le> q + ?v" "q - ?v \<le> y" using assms(5) by linarith+
  have y1: "y < pw (e + 1)" using le(2) y(1) v unfolding e(5) by linarith
  show ?thesis
  proof (cases "pw e \<le> y")
    case True
    have "\<bar>y - of_int n * pw (e - 23)\<bar> < pw (e - 23) / 2" using assms(5) e(1) v unfolding assms(4) by linarith
    then have "rne (y / pw (e - 23)) = n" by (intro rne_scaled) simp_all
    with rnd32_pos(1) [OF True y1] assms(3,4) show ?thesis by simp
  next
    case False
    have "(of_int n * 8 - 1) * ?v < 67108864 * ?v" using False y(2) unfolding e(3) q left_diff_distrib by linarith
    then have "(of_int n * 8 - 1 :: rat) < 67108864" using v by (simp only: mult_less_cancel_right_pos)
    then have "(of_int n :: rat) * 8 < 2 ^ 26 + 1" by simp
    then have "(of_int (n * 8) :: rat) < of_int (2 ^ 26 + 1)" by simp
    then have "n * 8 < 2 ^ 26 + 1" by (simp only: of_int_less_iff)
    with assms(1) have n: "n = 2 ^ 23" by simp
    have q': "q = 2 ^ 24 * pw (e - 24)" using q n e(2) by simp
    have lo: "pw (e - 1) \<le> y" using le(1) y(2) v unfolding e(4) by linarith
    have "\<bar>y - of_int (2 ^ 24) * pw (e - 24)\<bar> < pw (e - 24) / 2"
      using assms(5) le_less_trans [of _ ?v "2 * ?v"] q' e(2) by simp
    then have "rne (y / pw (e - 24)) = 2 ^ 24" by (intro rne_scaled) simp_all
    moreover have "rnd32 y = of_int (rne (y / pw (e - 24))) * pw (e - 24)"
      using rnd32_pos(1) [of "e - 1" y] lo False assms(3) by simp
    ultimately show ?thesis using q' by simp
  qed
qed

text \<open>A decimal that reads as a value of \<open>float32\<close> in 64 bits reads as the same value in 32 bits.\<close>

lemma rnd_zero_small: "rnd y = 0 \<Longrightarrow> \<bar>y\<bar> < pw (-1022)"
  using rnd_pos [of y] rnd_pos [of "- y"] pw_pos [of "expo y"] by (cases "\<bar>y\<bar> < pw (-1022)") (auto simp: not_less abs_if split: if_splits)

lemma rnd32_small: "\<bar>y\<bar> < pw (-1022) \<Longrightarrow> rnd32 y = 0"
proof (cases "y = 0")
  case False
  assume y: "\<bar>y\<bar> < pw (-1022)"
  with False have "pw (expo y) < pw (-1022)" using expo_bounds(1) [of y] by linarith
  then have "expo y < -1022" by (rule pw_less_cancel)
  then have u: "ulp32 y = pw (-149)" by (simp add: ulp32_def)
  have "pw (-1022) \<le> pw (-150)" "pw (-149) = 2 * pw (-150)" using pw_mono [of "-1022" "-150"] pw_Suc [of "-150"] by simp_all
  with y have "rne (y / pw (-149)) = 0" by (intro rne_scaled) simp_all
  with False show ?thesis by (simp only: rnd32_def u) simp
qed simp

lemma rnd32_rnd_pos:
  assumes "2 ^ 23 \<le> n" "n < 2 ^ 24" "-125 \<le> e" "rnd y = of_int n * pw (e - 23)"
  shows "rnd32 y = rnd y"
proof -
  have e: "pw e = 2 ^ 23 * pw (e - 23)" "pw (e + 1) = 2 ^ 24 * pw (e - 23)"
    using pw_split [of "e - 23" e] pw_split [of "e - 23" "e + 1"] by simp_all
  have "(of_int n :: rat) < of_int (2 ^ 24)" using assms(2) by (simp only: of_int_less_iff)
  then have hi: "rnd y < pw (e + 1)" using assms(4) e(2) by simp
  have y: "y < pw (e + 1)"
  proof (rule ccontr)
    assume "\<not> y < pw (e + 1)"
    then have "rnd (pw (e + 1)) \<le> rnd y" by (intro rnd_mono) simp
    with hi rnd_pw [of "e + 1"] assms(3) show False by simp
  qed
  have "0 < rnd y" using assms(1,4) by simp
  then have y0: "0 < y" using rnd_mono [of y 0] by (cases "0 < y") (simp_all add: not_less)
  then have "pw (expo y) \<le> y" using expo_bounds(1) [of y] by simp
  with y have "pw (expo y) < pw (e + 1)" by linarith
  then have "expo y < e + 1" by (rule pw_less_cancel)
  then have "max (expo y) (-1022) - 52 \<le> e - 26" using assms(3) by simp
  then have "ulp y \<le> pw (e - 26)" unfolding ulp_def by (rule pw_mono)
  with rnd_error [of y] have "\<bar>y - rnd y\<bar> \<le> pw (e - 26)" using ulp_pos [of y] by linarith
  then show ?thesis using assms by (intro rnd32_near_pos [of n e]) simp_all
qed

lemma rnd32_rnd: "f32_normal (rnd y) \<Longrightarrow> rnd32 y = rnd y"
proof -
  assume "f32_normal (rnd y)"
  then consider "rnd y = 0" | n e where "2 ^ 23 \<le> \<bar>n\<bar>" "\<bar>n\<bar> < 2 ^ 24" "-125 \<le> e" "rnd y = of_int n * pw (e - 23)"
    unfolding f32_normal_def by blast
  then show ?thesis
  proof cases
    case 1
    with rnd_zero_small rnd32_small show ?thesis by simp
  next
    case (2 n e)
    then consider "2 ^ 23 \<le> n" | "2 ^ 23 \<le> - n" by linarith
    then show ?thesis using 2 rnd32_rnd_pos [of n e y] rnd32_rnd_pos [of "- n" e "- y"] by cases simp_all
  qed
qed

text \<open>The integers up to \<open>2 ^ 24\<close> are values; there adding one has no effect.\<close>

lemma rnd32_multiple: "q = of_int n * ulp32 q \<Longrightarrow> rnd32 q = q"
  using ulp32_pos [of q] by (metis rnd32_def nonzero_mult_div_cancel_right less_irrefl rne_of_int)

lemma rnd32_of_int: "\<bar>n\<bar> \<le> 2 ^ 24 \<Longrightarrow> rnd32 (of_int n) = of_int n"
proof (cases "n = 0 \<or> \<bar>n\<bar> = 2 ^ 24")
  case True
  have "expo (2 ^ 24) = 24" using pw_nat [of 24] pw_nat [of 25] by (intro expo_normal) simp_all
  then have "ulp32 (2 ^ 24) = 2" by (simp add: ulp32_def)
  then have "rnd32 (2 ^ 24) = 2 ^ 24" by (intro rnd32_multiple [of _ "2 ^ 23"]) simp
  then have "rnd32 (of_int (2 ^ 24)) = of_int (2 ^ 24)" by simp
  then have "rnd32 (of_int n) = of_int n" if "n = 2 ^ 24 \<or> n = - (2 ^ 24)" for n
    using that rnd32_minus [of "of_int (2 ^ 24)"] by auto
  moreover have "n = 0 \<or> n = 2 ^ 24 \<or> n = - (2 ^ 24)" using True by linarith
  ultimately show ?thesis by auto
next
  case False
  assume "\<bar>n\<bar> \<le> 2 ^ 24"
  with False have n: "of_int n \<noteq> (0 :: rat)" "\<bar>n\<bar> < 2 ^ 24" "1 \<le> \<bar>n\<bar>" by auto
  let ?e = "expo (of_int n)"
  have "(of_int \<bar>n\<bar> :: rat) < of_int (2 ^ 24)" "(of_int 1 :: rat) \<le> of_int \<bar>n\<bar>"
    using n(2,3) by (simp_all only: of_int_less_iff of_int_le_iff)
  with expo_bounds [OF n(1)] have "pw ?e < pw 24" "pw 0 < pw (?e + 1)" by simp_all
  then have e: "?e \<le> 23" "0 \<le> ?e" using pw_less_cancel by fastforce+
  then have "pw 0 = of_int (2 ^ nat (23 - ?e)) * pw (?e - 23)" using pw_split [of "?e - 23" 0] by simp
  then have "of_int n = of_int (n * 2 ^ nat (23 - ?e)) * ulp32 (of_int n)"
    using e by (simp add: ulp32_def)
  then show ?thesis by (rule rnd32_multiple)
qed

lemma rnd32_saturates: "rnd32 (2 ^ 24 + 1) = 2 ^ 24"
proof -
  have "rnd32 (2 ^ 24 + 1) = of_int (rne ((2 ^ 24 + 1) / pw (24 - 23))) * pw (24 - 23)"
    using pw_nat [of 24] pw_nat [of 25] by (intro rnd32_pos(1)) simp_all
  moreover have "\<lfloor>(2 ^ 24 + 1) / 2 :: rat\<rfloor> = 2 ^ 23" by (rule floor_unique) simp_all
  then have "rne ((2 ^ 24 + 1) / 2) = 2 ^ 23" by (simp add: rne_def Let_def)
  ultimately show ?thesis by simp
qed

end
