(* ===== verification/Sidecar.thy ===== *)
theory Sidecar
  imports Embed_Client Rerank Json Float32 "HOL-Library.Monad_Syntax"
begin

text \<open>
  What the Go clients and the sidecar say to each other, as bytes: the requests and replies of \<open>pkg/embed\<close> and of
  \<open>CrossEncoderReranker\<close>, and the endpoints of \<open>services/embed-sidecar/app/main.py\<close> as functions from the bytes of a
  request to a reply. The models behind the endpoints are parameters: a vector for a text, a score for a query
  and a passage, as the JSON numbers they are printed as. Exchanging the bytes is a function \<open>http\<close> from a request body
  to a reply. The lemmas: each side reads what the other wrote.
\<close>

section \<open>\<open>float32\<close>\<close>

text \<open>A JSON number read into a \<open>float32\<close>: rounded once; out of range is an error. The values are kept among the \<open>f64\<close>.\<close>

definition number_f32 :: "number \<Rightarrow> f64 option" where
  "number_f32 n = (let r = rnd32 (num_value n) in if r \<noteq> 0 \<and> 128 \<le> expo r then None else Some (Fin r))"

definition into_f32 :: "json \<Rightarrow> f64 \<Rightarrow> f64 option" where
  "into_f32 j old = (case j of JNum n \<Rightarrow> number_f32 n | JNull \<Rightarrow> Some old | _ \<Rightarrow> None)"

section \<open>The clients\<close>

definition jstrings :: "gostring list \<Rightarrow> json" where
  "jstrings ss = JArr (map jstr ss)"

definition embed_request :: "gostring list \<Rightarrow> json" where
  "embed_request texts = jobj [(''texts'', jstrings texts)]"

text \<open>\<open>bad\<close> is the message of the decoder for a body it refuses.\<close>

definition embed_reply :: "(gostring \<Rightarrow> go_error) \<Rightarrow> gostring \<Rightarrow> go_error + embed_response" where
  "embed_reply bad b =
     (case do {
        j \<leftarrow> json_decode b;
        fs \<leftarrow> members j;
        vs \<leftarrow> field ''embeddings'' (into_list (into_list into_f32 (Fin 0)) []) [] fs;
        m \<leftarrow> field ''model'' into_string [] fs;
        d \<leftarrow> field ''dim'' into_int 0 fs;
        Some \<lparr>embeddings = vs, resp_model = m, resp_dim = d\<rparr>
      } of None \<Rightarrow> Inl (bad b) | Some out \<Rightarrow> Inr out)"

text \<open>\<open>Embed\<close> of the client: the JSON of the texts is posted to \<open>/embed\<close>.\<close>

definition embed_texts :: "(gostring \<Rightarrow> reply) \<Rightarrow> (gostring \<Rightarrow> go_error) \<Rightarrow> gostring list \<Rightarrow> go_error + f64 list list" where
  "embed_texts http bad = client_embed (\<lambda>texts. http (json_marshal (embed_request texts))) (embed_reply bad)"

definition health_reply :: "(gostring \<Rightarrow> go_error) \<Rightarrow> gostring \<Rightarrow> go_error + health" where
  "health_reply bad b =
     (case do {
        j \<leftarrow> json_decode b;
        fs \<leftarrow> members j;
        m \<leftarrow> field ''model'' into_string [] fs;
        r \<leftarrow> field ''ready'' into_bool False fs;
        Some \<lparr>h_model = m, h_ready = r\<rparr>
      } of None \<Rightarrow> Inl (bad b) | Some h \<Rightarrow> Inr h)"

definition rerank_request :: "gostring \<Rightarrow> gostring list \<Rightarrow> json" where
  "rerank_request query passages = jobj [(''query'', jstr query), (''passages'', jstrings passages)]"

definition rerank_reply :: "(gostring \<Rightarrow> go_error) \<Rightarrow> gostring \<Rightarrow> go_error + f64 list" where
  "rerank_reply bad b =
     (case do {
        j \<leftarrow> json_decode b;
        fs \<leftarrow> members j;
        xs \<leftarrow> field ''scores'' (into_list into_float (Fin 0)) [] fs;
        m \<leftarrow> field ''model'' into_string [] fs;
        Some xs
      } of None \<Rightarrow> Inl (bad b) | Some xs \<Rightarrow> Inr xs)"

definition rerank_passages ::
  "(gostring \<Rightarrow> reply) \<Rightarrow> (gostring \<Rightarrow> go_error) \<Rightarrow> gostring \<Rightarrow> candidate list \<Rightarrow> int \<Rightarrow> go_error + scored list" where
  "rerank_passages http bad = cross_rerank (\<lambda>q ps. http (json_marshal (rerank_request q ps))) (rerank_reply bad)"

section \<open>The sidecar\<close>

text \<open>A request model of \<open>pydantic\<close>: the body is one JSON object, the last member of a name counts, and the fields
  are strings and lists of strings. (For a body of well-formed text, as the clients send: Python refuses what is not
  UTF-8 or half of a surrogate pair, which Go's encoder never writes.)\<close>

definition py_field :: "string \<Rightarrow> json \<Rightarrow> json option" where
  "py_field name j = (case j of JObj fs \<Rightarrow> map_option snd (find (\<lambda>(k, v). unquote k = str name) (rev fs)) | _ \<Rightarrow> None)"

definition py_str :: "json \<Rightarrow> gostring option" where
  "py_str j = (case j of JStr raw \<Rightarrow> Some (unquote raw) | _ \<Rightarrow> None)"

definition py_list :: "json \<Rightarrow> gostring list option" where
  "py_list j = (case j of JArr js \<Rightarrow> all_or_none (map py_str js) | _ \<Rightarrow> None)"

definition embed_body :: "gostring \<Rightarrow> gostring list option" where
  "embed_body b = do { j \<leftarrow> json_unmarshal b; t \<leftarrow> py_field ''texts'' j; py_list t }"

definition rerank_body :: "gostring \<Rightarrow> (gostring \<times> gostring list) option" where
  "rerank_body b =
     do { j \<leftarrow> json_unmarshal b; q \<leftarrow> py_field ''query'' j; q \<leftarrow> py_str q; p \<leftarrow> py_field ''passages'' j; ps \<leftarrow> py_list p;
          Some (q, ps) }"

text \<open>\<open>refuse\<close> is the body \<open>FastAPI\<close> sends under 422 for a request that does not fit the model. The endpoints are those
  of an app whose model is built and gives numbers that can be printed; \<open>app_embed\<close> and \<open>app_rerank\<close> of
  \<open>Hash_Models\<close> add the 500 of every other case.\<close>

definition embed_endpoint ::
  "(gostring \<Rightarrow> gostring) \<Rightarrow> (gostring \<Rightarrow> number list) \<Rightarrow> gostring \<Rightarrow> nat \<Rightarrow> gostring \<Rightarrow> reply" where
  "embed_endpoint refuse vec name d b =
     (case embed_body b of
        None \<Rightarrow> Response 422 (refuse b)
      | Some texts \<Rightarrow> Response 200 (json_marshal (jobj
          [(''embeddings'', JArr (map (\<lambda>t. JArr (map JNum (vec t))) texts)), (''model'', jstr name), (''dim'', jint (int d))])))"

definition rerank_endpoint ::
  "(gostring \<Rightarrow> gostring) \<Rightarrow> (gostring \<Rightarrow> gostring \<Rightarrow> number) \<Rightarrow> gostring \<Rightarrow> gostring \<Rightarrow> reply" where
  "rerank_endpoint refuse score name b =
     (case rerank_body b of
        None \<Rightarrow> Response 422 (refuse b)
      | Some (q, ps) \<Rightarrow> Response 200 (json_marshal (jobj
          [(''scores'', JArr (map (\<lambda>p. JNum (score q p)) ps)), (''model'', jstr name)])))"

definition health_endpoint :: "gostring \<Rightarrow> reply" where
  "health_endpoint name = Response 200 (json_marshal (jobj [(''model'', jstr name), (''ready'', JBool True)]))"

section \<open>Each side reads the other\<close>

lemma py_field_jobj:
  "py_field name (jobj fs) = map_option snd (find (\<lambda>(k, v). clean (str k) = str name) (rev fs))"
proof -
  have "find (\<lambda>(k, v). unquote k = str name) (map (\<lambda>(k, v). (jkey k, v)) xs)
      = map_option (\<lambda>(k, v). (jkey k, v)) (find (\<lambda>(k, v). clean (str k) = str name) xs)" for xs :: "(string \<times> json) list"
    by (induction xs) (auto simp: jkey_def unquote_quote)
  then show ?thesis by (simp add: py_field_def jobj_def rev_map option.map_comp comp_def case_prod_unfold)
qed

lemma py_list_jstrings [simp]: "py_list (jstrings ss) = Some (map clean ss)"
  by (simp add: py_list_def jstrings_def all_or_none_Some comp_def py_str_def jstr_def unquote_quote)

lemma jstrings_ok [simp]: "json_ok (jstrings ss)" "json_depth (jstrings ss) \<le> 9"
  using json_depth_le(1) [of "map jstr ss" 8] by (simp_all add: jstrings_def list_all_iff)

lemma ascii_clean: "list_all (\<lambda>c. unat c < 128) s \<Longrightarrow> clean s = s"
  by (simp add: valid_utf8_ascii)

lemma embed_body_request: "embed_body (json_marshal (embed_request texts)) = Some (map clean texts)"
proof -
  have "json_unmarshal (json_marshal (embed_request texts)) = Some (embed_request texts)"
    unfolding embed_request_def by (rule unmarshal_marshal [OF _ jobj_shallow]) simp_all
  moreover have "clean (str ''texts'') = str ''texts''" by (rule ascii_clean) simp
  ultimately show ?thesis by (simp add: embed_body_def embed_request_def py_field_jobj del: str_Cons)
qed

lemma rerank_body_request: "rerank_body (json_marshal (rerank_request q ps)) = Some (clean q, map clean ps)"
proof -
  have "json_unmarshal (json_marshal (rerank_request q ps)) = Some (rerank_request q ps)"
    unfolding rerank_request_def by (rule unmarshal_marshal [OF _ jobj_shallow]) simp_all
  moreover have "clean (str ''query'') = str ''query''" "clean (str ''passages'') = str ''passages''"
    by (rule ascii_clean, simp)+
  moreover have "str ''query'' \<noteq> str ''passages''" by simp
  ultimately show ?thesis
    by (simp add: rerank_body_def rerank_request_def py_field_jobj py_str_def jstr_def unquote_quote del: str_Cons)
qed

lemma embed_endpoint_reads:
  "embed_endpoint refuse vec name d (json_marshal (embed_request texts)) = Response 200 (json_marshal (jobj
     [(''embeddings'', JArr (map (\<lambda>t. JArr (map JNum (vec (clean t)))) texts)), (''model'', jstr name), (''dim'', jint (int d))]))"
  by (simp add: embed_endpoint_def embed_body_request comp_def)

lemma rerank_endpoint_reads:
  "rerank_endpoint refuse score name (json_marshal (rerank_request q ps)) = Response 200 (json_marshal (jobj
     [(''scores'', JArr (map (\<lambda>p. JNum (score (clean q) (clean p))) ps)), (''model'', jstr name)]))"
  by (simp add: rerank_endpoint_def rerank_body_request comp_def)

lemma read_vectors:
  assumes "list_all (list_all (\<lambda>n. number_f32 n = Some (f n))) vs"
  shows "into_list (into_list into_f32 (Fin 0)) [] (JArr (map (\<lambda>v. JArr (map JNum v)) vs)) old = Some (map (map f) vs)"
proof -
  have "into_elems into_f32 (Fin 0) (map JNum v) old = Some (map f v)" if "v \<in> set vs" for v old
    by (rule into_elems_map) (use assms that in \<open>auto simp: into_f32_def list_all_iff\<close>)
  then have "into_elems (into_list into_f32 (Fin 0)) [] (map (\<lambda>v. JArr (map JNum v)) vs) old = Some (map (map f) vs)"
    by (intro into_elems_map) (simp add: into_list_def list_all_iff)
  then show ?thesis by (simp add: into_list_def)
qed

lemma read_scores:
  assumes "list_all (\<lambda>n. number_float n = Some (f n)) xs"
  shows "into_list into_float (Fin 0) (JArr (map JNum xs)) old = Some (map f xs)"
proof -
  have "into_elems into_float (Fin 0) (map JNum xs) old = Some (map f xs)"
    by (rule into_elems_map) (use assms in \<open>auto simp: into_float_def list_all_iff\<close>)
  then show ?thesis by (simp add: into_list_def)
qed

lemma num_list_ok:
  "list_all num_ok ns \<Longrightarrow> json_ok (JArr (map JNum ns)) \<and> json_depth (JArr (map JNum ns)) \<le> 8"
  using json_depth_le(1) [of "map JNum ns" 7] by (simp add: list_all_iff)

lemma embed_reply_reads:
  assumes "list_all (list_all (\<lambda>n. num_ok n \<and> number_f32 n = Some (f n))) vs" "d < 2 ^ 63"
  shows "embed_reply bad (json_marshal (jobj [(''embeddings'', JArr (map (\<lambda>v. JArr (map JNum v)) vs)), (''model'', jstr name),
      (''dim'', jint (int d))])) = Inr \<lparr>embeddings = map (map f) vs, resp_model = clean name, resp_dim = int d\<rparr>"
proof -
  let ?a = "JArr (map (\<lambda>v. JArr (map JNum v)) vs)"
  let ?j = "jobj [(''embeddings'', ?a), (''model'', jstr name), (''dim'', jint (int d))]"
  have "json_ok (JArr (map JNum v)) \<and> json_depth (JArr (map JNum v)) \<le> 8" if "v \<in> set vs" for v
    by (rule num_list_ok) (use assms(1) that in \<open>auto simp: list_all_iff\<close>)
  then have a: "json_ok ?a" "json_depth ?a \<le> 9"
    using json_depth_le(1) [of "map (\<lambda>v. JArr (map JNum v)) vs" 8] by (simp_all add: list_all_iff)
  have "json_decode (json_marshal ?j) = Some ?j" by (rule decode_alone [OF _ jobj_shallow]) (use a in simp_all)
  moreover have "list_all (list_all (\<lambda>n. number_f32 n = Some (f n))) vs"
    using assms(1) by (auto simp: list_all_iff)
  from read_vectors [OF this] have "into_list (into_list into_f32 (Fin 0)) [] ?a old = Some (map (map f) vs)" for old .
  ultimately show ?thesis using assms(2) by (simp add: embed_reply_def fold_rune_def)
qed

lemma rerank_reply_reads:
  assumes "list_all (\<lambda>n. num_ok n \<and> number_float n = Some (f n)) xs"
  shows "rerank_reply bad (json_marshal (jobj [(''scores'', JArr (map JNum xs)), (''model'', jstr name)])) = Inr (map f xs)"
proof -
  let ?j = "jobj [(''scores'', JArr (map JNum xs)), (''model'', jstr name)]"
  have "list_all num_ok xs" using assms by (simp add: list_all_iff)
  note a = num_list_ok [OF this]
  have "json_decode (json_marshal ?j) = Some ?j" by (rule decode_alone [OF _ jobj_shallow]) (use a in simp_all)
  moreover have "list_all (\<lambda>n. number_float n = Some (f n)) xs" using assms by (simp add: list_all_iff)
  note read_scores [OF this, of "[]"]
  ultimately show ?thesis by (simp add: rerank_reply_def fold_rune_def)
qed

text \<open>What a body decodes to is a number, never a \<open>NaN\<close>: the reranker of the code meets the law of the interface.\<close>

lemma into_elems_number: "into_elems into_float (Fin 0) js old = Some xs \<Longrightarrow> NaN \<notin> set old \<Longrightarrow> NaN \<notin> set xs"
proof (induction js arbitrary: old xs)
  case (Cons j js)
  then show ?case
    by (cases old) (auto simp: into_float_def number_float_def split: option.splits json.splits f64.splits)
qed auto

lemma field_scores_number:
  "field ''scores'' (into_list into_float (Fin 0)) a fs = Some xs \<Longrightarrow> NaN \<notin> set a \<Longrightarrow> NaN \<notin> set xs"
proof (induction fs arbitrary: a)
  case (Cons p fs)
  have "NaN \<notin> set b" if "into_list into_float (Fin 0) (snd p) a = Some b" for b
    using that Cons.prems(2) into_elems_number by (auto simp: into_list_def split: json.splits)
  with Cons show ?case by (cases p) (auto split: if_splits option.splits)
qed auto

lemma rerank_reply_numbers: "json_numbers (rerank_reply bad)"
  using field_scores_number [of "[]"]
  by (auto simp: json_numbers_def rerank_reply_def bind_eq_Some_conv split: option.splits)

section \<open>The exchange\<close>

lemma embed_texts_sidecar:
  assumes "\<And>t. length (vec t) = 384 \<and> list_all (\<lambda>n. num_ok n \<and> number_f32 n = Some (f n)) (vec t)"
  shows "embed_texts (embed_endpoint refuse vec name 384) bad texts = Inr (map (\<lambda>t. map f (vec (clean t))) texts)"
proof -
  have "list_all (list_all (\<lambda>n. num_ok n \<and> number_f32 n = Some (f n))) (map (\<lambda>t. vec (clean t)) texts)"
    using assms by (simp add: list_all_iff)
  from embed_reply_reads [OF this, of 384 bad name]
  have "embed_reply bad (json_marshal (jobj [(''embeddings'', JArr (map (\<lambda>t. JArr (map JNum (vec (clean t)))) texts)),
      (''model'', jstr name), (''dim'', jint (int 384))])) = Inr \<lparr>embeddings = map (\<lambda>t. map f (vec (clean t))) texts, resp_model = clean name, resp_dim = 384\<rparr>"
    by (simp add: comp_def)
  then show ?thesis
    using assms by (simp add: embed_texts_def client_embed_Inr embed_endpoint_reads dim_def full_vector_def list_all_iff)
qed

lemma batched_sidecar:
  assumes "\<And>t. length (vec t) = 384 \<and> list_all (\<lambda>n. num_ok n \<and> number_f32 n = Some (f n)) (vec t)"
  shows "embed_batched (embed_texts (embed_endpoint refuse vec name 384) bad) b ts = Inr (map (\<lambda>t. map f (vec (clean t))) ts)"
  by (subst embed_batched_pointwise) (rule embed_texts_sidecar, rule assms)+

text \<open>The client and the sidecar understand each other: with \<open>/embed\<close> of a sidecar of dimension 384 behind the
  client, whatever its vectors (numbers in the range of \<open>float32\<close>) and whatever the batch size, \<open>embedBatched\<close>
  returns, in the order of the texts, the vector the sidecar has for each text (U+FFFD for what is not
  UTF-8 in it), every number rounded to \<open>float32\<close>.\<close>

theorem sidecar_embeds:
  assumes "\<And>t. length (vec t) = 384 \<and> list_all (\<lambda>n. num_ok n \<and> number_f32 n = Some (f n)) (vec t)"
  shows "embed_batched (embed_texts (embed_endpoint refuse vec name 384) bad) b texts = Inr (map (\<lambda>t. map f (vec (clean t))) texts)"
  using assms by (rule batched_sidecar)

text \<open>C22. The reranker and the sidecar understand each other: with \<open>/rerank\<close> behind it the cross-encoder reranker
  always answers, with the best of the candidates by the scores the sidecar gives to the query and each
  snippet (U+FFFD for what is not UTF-8 in them); equal scores stay in the prior order.\<close>

theorem sidecar_reranks:
  assumes "cs \<noteq> []" "\<And>p s. num_ok (score p s) \<and> number_float (score p s) = Some (f (score p s))"
  shows "\<exists>out rest. rerank_passages (rerank_endpoint refuse score name) bad q cs n = Inr out
    \<and> mset (out @ rest) = mset (map (\<lambda>c. \<lparr>cand = c, rerank_score = f (score (clean q) (clean (snippet c)))\<rparr>) cs)
    \<and> sorted_wrt (\<lambda>a b. \<not> scored_less b a) (out @ rest) \<and> length out = limit n (length cs)"
proof -
  define scores where "scores = map (\<lambda>c. f (score (clean q) (clean (snippet c)))) cs"
  define send where "send q ps = rerank_endpoint refuse score name (json_marshal (rerank_request q ps))" for q ps
  have "list_all (\<lambda>n. num_ok n \<and> number_float n = Some (f n)) (map (\<lambda>c. score (clean q) (clean (snippet c))) cs)"
    using assms(2) by (simp add: list_all_iff)
  from rerank_reply_reads [OF this, of bad name]
  obtain body where b: "send q (map snippet cs) = Response 200 body" "rerank_reply bad body = Inr scores"
    by (simp add: send_def rerank_endpoint_reads scores_def comp_def)
  have l: "length scores = length cs" by (simp add: scores_def)
  have e: "rerank_passages (rerank_endpoint refuse score name) bad q cs n = cross_rerank send (rerank_reply bad) q cs n"
    by (simp add: rerank_passages_def send_def [abs_def])
  have m: "map2 (\<lambda>c x. \<lparr>cand = c, rerank_score = x\<rparr>) cs scores
      = map (\<lambda>c. \<lparr>cand = c, rerank_score = f (score (clean q) (clean (snippet c)))\<rparr>) cs"
    by (simp add: scores_def zip_map2 zip_same_conv_map)
  note a = cross_rerank_answers [OF assms(1) rerank_reply_numbers [of bad], where send = send and q = q and n = n]
  then show ?thesis
  proof (cases "cross_rerank send (rerank_reply bad) q cs n")
    case (Inl err)
    with a b l show ?thesis by auto
  next
    case (Inr out)
    with a b obtain rest where "mset (out @ rest) = mset (map2 (\<lambda>c x. \<lparr>cand = c, rerank_score = x\<rparr>) cs scores)"
      "sorted_wrt (\<lambda>a b. \<not> scored_less b a) (out @ rest)" "length out = limit n (length cs)" by auto
    then show ?thesis unfolding e Inr m by blast
  qed
qed

lemma ex_number_one: "num_ok (int_number 1)" "number_f32 (int_number 1) = Some (Fin 1)" "number_float (int_number 1) = Some (Fin 1)"
  by code_simp+

theorem sidecar_embeds_witness:
  "embed_batched (embed_texts (embed_endpoint (\<lambda>b. []) (\<lambda>t. replicate 384 (int_number 1)) [] 384) (\<lambda>b. ErrNoRows)) 1 [[97], [98]]
     = Inr [replicate 384 (Fin 1), replicate 384 (Fin 1)]"
  using sidecar_embeds [of "\<lambda>t. replicate 384 (int_number 1)" "\<lambda>n. Fin 1" "\<lambda>b. []" "[]" "\<lambda>b. ErrNoRows" 1 "[[97], [98]]"]
  by (simp add: ex_number_one list_all_iff)

theorem sidecar_reranks_witness:
  "\<exists>out. rerank_passages (rerank_endpoint (\<lambda>b. []) (\<lambda>q p. int_number 1) []) (\<lambda>b. ErrNoRows) (str ''q'') [ex_cand 0 ''b''] 3 = Inr out
    \<and> length out = 1"
  using sidecar_reranks [of "[ex_cand 0 ''b'']" "\<lambda>q p. int_number 1" "\<lambda>n. Fin 1" "\<lambda>b. []" "[]" "\<lambda>b. ErrNoRows" "str ''q''" 3]
  by (auto simp: ex_number_one limit_def)

text \<open>The health probe of the client reads the sidecar's \<open>/healthz\<close>.\<close>

lemma sidecar_healthz:
  "client_healthz (health_endpoint name) (health_reply bad) = Inr \<lparr>h_model = clean name, h_ready = True\<rparr>"
proof -
  have "json_decode (json_marshal (jobj [(''model'', jstr name), (''ready'', JBool True)])) = Some (jobj [(''model'', jstr name), (''ready'', JBool True)])"
    by (rule decode_alone [OF _ jobj_shallow]) simp_all
  then show ?thesis by (simp add: health_endpoint_def client_healthz_def status_ok_def health_reply_def fold_rune_def)
qed

end
