(* ===== verification/Sha256.thy ===== *)
theory Sha256
  imports Prelude
begin

unbundle bit_operations_syntax

text \<open>
  \<open>crypto/sha256\<close>, whose \<open>Sum256\<close> of a body is its identity in the store: SHA-256 as FIPS 180-4 describes it, on
  32-bit words, executable. The lemmas say that a digest has 32 bytes and that padding gives whole blocks.
\<close>

type_synonym w32 = "32 word"

section \<open>Constants\<close>

text \<open>
  The standard defines its two tables by what they are: the first 32 bits of the fractional parts of the square roots
  of the first 8 primes, and of the cube roots of the first 64. They are computed so, by an integer root that settles
  one bit at a time from the top; 35 bits hold the root of every prime used, shifted by 32.
\<close>

fun root_bits :: "nat \<Rightarrow> int \<Rightarrow> nat \<Rightarrow> int \<Rightarrow> int" where
  "root_bits k n 0 r = r"
| "root_bits k n (Suc b) r = root_bits k n b (let r' = r + 2 ^ b in if r' ^ k \<le> n then r' else r)"

definition frac_root :: "nat \<Rightarrow> int \<Rightarrow> w32" where
  "frac_root k p = of_int (root_bits k (p * 2 ^ (32 * k)) 35 0)"

definition primes_below :: "int \<Rightarrow> int list" where
  "primes_below n = filter (\<lambda>p. list_all (\<lambda>d. p mod d \<noteq> 0) [2..p - 1]) [2..n - 1]"

definition sha_h0 :: "w32 list" where
  "sha_h0 = map (frac_root 2) (primes_below 20)"

definition sha_k :: "w32 list" where
  "sha_k = map (frac_root 3) (primes_below 312)"

text \<open>What settling the low \<open>b\<close> bits leaves: the root within the interval the bits already settled give.\<close>

lemma root_bits_floor:
  assumes "r ^ k \<le> n" "n < (r + 2 ^ b) ^ k"
  shows "root_bits k n b r ^ k \<le> n \<and> n < (root_bits k n b r + 1) ^ k"
  using assms
proof (induction b arbitrary: r)
  case (Suc b)
  have "r + 2 ^ Suc b = r + 2 ^ b + 2 ^ b" by simp
  with Suc.prems Suc.IH [of "r + 2 ^ b"] Suc.IH [of r] show ?case by (simp add: Let_def add.assoc)
qed simp

lemma frac_root_floor:
  assumes "0 < k" "0 \<le> p" "p < 8 ^ k"
  obtains r where "frac_root k p = of_int r" "r ^ k \<le> p * (2 ^ 32) ^ k" "p * (2 ^ 32) ^ k < (r + 1) ^ k"
proof
  let ?n = "p * 2 ^ (32 * k)"
  have "?n < 8 ^ k * 2 ^ (32 * k)" using assms(3) by simp
  also have "\<dots> = (0 + 2 ^ 35) ^ k"
    by (simp only: power_mult power_mult_distrib [symmetric]) simp
  finally have "?n < (0 + 2 ^ 35) ^ k" .
  moreover have "0 ^ k \<le> ?n" using assms(1,2) by (simp add: zero_power)
  ultimately have "root_bits k ?n 35 0 ^ k \<le> ?n \<and> ?n < (root_bits k ?n 35 0 + 1) ^ k"
    by (rule root_bits_floor [rotated])
  then show "root_bits k ?n 35 0 ^ k \<le> p * (2 ^ 32) ^ k" "p * (2 ^ 32) ^ k < (root_bits k ?n 35 0 + 1) ^ k"
    by (simp_all only: power_mult)
  show "frac_root k p = of_int (root_bits k ?n 35 0)" by (rule frac_root_def)
qed

lemma sha_h0_values: "hd sha_h0 = 0x6a09e667 \<and> last sha_h0 = 0x5be0cd19 \<and> length sha_h0 = 8"
  by code_simp

section \<open>The hash\<close>

definition rotr :: "nat \<Rightarrow> w32 \<Rightarrow> w32" where
  "rotr n x = drop_bit n x OR push_bit (32 - n) x"

text \<open>The message with a one bit, zeros, and its length in bits as eight bytes.\<close>

definition sha_pad :: "gostring \<Rightarrow> gostring" where
  "sha_pad s =
     (let n = length s
      in s @ [0x80] @ replicate ((55 + 64 - n mod 64) mod 64) 0
         @ map (\<lambda>i. of_nat (8 * n div 256 ^ (7 - i))) [0..<8])"

fun words_of :: "gostring \<Rightarrow> w32 list" where
  "words_of (a # b # c # d # r) =
     (push_bit 24 (ucast a) OR push_bit 16 (ucast b) OR push_bit 8 (ucast c) OR ucast d) # words_of r"
| "words_of _ = []"

text \<open>The message schedule, and one round of the compression.\<close>

fun schedule :: "nat \<Rightarrow> w32 list \<Rightarrow> w32 list" where
  "schedule 0 w = w"
| "schedule (Suc k) w =
     (let t = length w; w15 = w ! (t - 15); w2 = w ! (t - 2);
          s0 = rotr 7 w15 XOR rotr 18 w15 XOR drop_bit 3 w15;
          s1 = rotr 17 w2 XOR rotr 19 w2 XOR drop_bit 10 w2
      in schedule k (w @ [w ! (t - 16) + s0 + w ! (t - 7) + s1]))"

fun sha_round :: "w32 list \<Rightarrow> w32 \<times> w32 \<Rightarrow> w32 list" where
  "sha_round [a, b, c, d, e, f, g, h] (k, w) =
     (let t1 = h + (rotr 6 e XOR rotr 11 e XOR rotr 25 e) + ((e AND f) XOR (NOT e AND g)) + k + w;
          t2 = (rotr 2 a XOR rotr 13 a XOR rotr 22 a) + ((a AND b) XOR (a AND c) XOR (b AND c))
      in [t1 + t2, a, b, c, d + t1, e, f, g])"
| "sha_round v kw = v"

definition sha_block :: "w32 list \<Rightarrow> gostring \<Rightarrow> w32 list" where
  "sha_block h s = map2 (+) h (foldl sha_round h (zip sha_k (schedule 48 (words_of s))))"

fun sha_blocks :: "nat \<Rightarrow> gostring \<Rightarrow> w32 list \<Rightarrow> w32 list" where
  "sha_blocks 0 s h = h"
| "sha_blocks (Suc n) s h = sha_blocks n (drop 64 s) (sha_block h (take 64 s))"

definition bytes_of :: "w32 \<Rightarrow> gostring" where
  "bytes_of w = [ucast (drop_bit 24 w), ucast (drop_bit 16 w), ucast (drop_bit 8 w), ucast w]"

definition sum256 :: "gostring \<Rightarrow> gostring" where
  "sum256 s = concat (map bytes_of (sha_blocks (length (sha_pad s) div 64) (sha_pad s) sha_h0))"

section \<open>Sizes\<close>

lemma sha_pad_blocks: "64 dvd length (sha_pad s)"
proof -
  define r where "r = length s mod 64"
  have r: "r < 64" "length s = length s div 64 * 64 + r" by (simp_all add: r_def)
  have "(r + 1 + (55 + 64 - r) mod 64 + 8) mod 64 = 0"
  proof (cases "r \<le> 55")
    case True
    then have "(119 - r) mod 64 = 55 - r"
      using mod_add_self2 [of "55 - r" 64] by (simp add: algebra_simps)
    with True show ?thesis by simp
  next
    case False
    with r(1) show ?thesis by simp
  qed
  then have "64 dvd length s div 64 * 64 + (r + 1 + (55 + 64 - r) mod 64 + 8)" by (simp add: dvd_eq_mod_eq_0)
  moreover have "length (sha_pad s) = length s div 64 * 64 + (r + 1 + (55 + 64 - r) mod 64 + 8)"
    using r(2) by (simp add: sha_pad_def Let_def r_def)
  ultimately show ?thesis by simp
qed

lemma sha_round_length: "length v = 8 \<Longrightarrow> length (sha_round v kw) = 8"
  by (cases "(v, kw)" rule: sha_round.cases) (simp_all add: Let_def)

lemma sha_block_length: "length h = 8 \<Longrightarrow> length (sha_block h s) = 8"
proof -
  have "length h = 8 \<Longrightarrow> length (foldl sha_round h kws) = 8" for kws
    by (induction kws arbitrary: h) (simp_all add: sha_round_length)
  then show "length h = 8 \<Longrightarrow> length (sha_block h s) = 8" by (simp add: sha_block_def)
qed

lemma length_sum256 [simp]: "length (sum256 s) = 32"
proof -
  have "length h = 8 \<Longrightarrow> length (sha_blocks n t h) = 8" for n t h
    by (induction n arbitrary: t h) (simp_all add: sha_block_length)
  moreover have "length (concat (map bytes_of ws)) = 4 * length ws" for ws
    by (induction ws) (simp_all add: bytes_of_def)
  ultimately show ?thesis using sha_h0_values by (simp add: sum256_def)
qed

end
