(* ===== verification/Blake2b.thy ===== *)
theory Blake2b
  imports Sha256
begin

unbundle bit_operations_syntax

text \<open>
  \<open>hashlib.blake2b\<close>, by which the sidecar's hash embedder places a token in its vector: BLAKE2b without a key, as
  RFC 7693 describes it, on 64-bit words, executable. The lemma says how long a digest is.
\<close>

type_synonym w64 = "64 word"

section \<open>Constants\<close>

text \<open>The first 64 bits of the fractional parts of the square roots of the first 8 primes; 67 bits hold the roots.\<close>

definition blake_iv :: "w64 list" where
  "blake_iv = map (\<lambda>p. of_int (root_bits 2 (p * 2 ^ 128) 67 0)) (primes_below 20)"

text \<open>The order in which each round takes the 16 words of the message, one hexadecimal digit a word.\<close>

definition sigma :: "string list" where
  "sigma = [''0123456789abcdef'', ''ea489fd61c02b753'', ''b8c052fdae367194'', ''7931dcbe265a40f8'', ''905724afe1bc683d'',
            ''2c6a0b834d75fe19'', ''c51fed4a0763928b'', ''db7ec13950f4862a'', ''6fe9b308c2d714a5'', ''a2847615fb9e3cd0'']"

definition hex_digit_value :: "char \<Rightarrow> nat" where
  "hex_digit_value c = (let n = of_char c in if n < 58 then n - 48 else n - 87)"

section \<open>The hash\<close>

definition rotr64 :: "nat \<Rightarrow> w64 \<Rightarrow> w64" where
  "rotr64 n x = drop_bit n x OR push_bit (64 - n) x"

text \<open>The mixing of two message words into four words of the state, at the places \<open>a\<close>, \<open>b\<close>, \<open>c\<close> and \<open>d\<close>.\<close>

definition mix :: "w64 list \<Rightarrow> (nat \<times> nat \<times> nat \<times> nat) \<times> w64 \<times> w64 \<Rightarrow> w64 list" where
  "mix v arg =
     (case arg of ((a, b, c, d), x, y) \<Rightarrow>
        let v = v[a := v ! a + v ! b + x]; v = v[d := rotr64 32 (v ! d XOR v ! a)];
            v = v[c := v ! c + v ! d]; v = v[b := rotr64 24 (v ! b XOR v ! c)];
            v = v[a := v ! a + v ! b + y]; v = v[d := rotr64 16 (v ! d XOR v ! a)];
            v = v[c := v ! c + v ! d]
        in v[b := rotr64 63 (v ! b XOR v ! c)])"

text \<open>First the columns of the 4 by 4 state, then its diagonals.\<close>

definition quads :: "(nat \<times> nat \<times> nat \<times> nat) list" where
  "quads = map (\<lambda>i. (i, i + 4, i + 8, i + 12)) [0..<4]
         @ map (\<lambda>i. (i, (i + 1) mod 4 + 4, (i + 2) mod 4 + 8, (i + 3) mod 4 + 12)) [0..<4]"

fun pairs_of :: "'a list \<Rightarrow> ('a \<times> 'a) list" where
  "pairs_of (x # y # r) = (x, y) # pairs_of r"
| "pairs_of _ = []"

definition blake_round :: "w64 list \<Rightarrow> w64 list \<Rightarrow> string \<Rightarrow> w64 list" where
  "blake_round m v s = foldl mix v (zip quads (pairs_of (map (\<lambda>c. m ! hex_digit_value c) s)))"

text \<open>Words and offsets are little-endian.\<close>

definition le_nat :: "gostring \<Rightarrow> nat" where
  "le_nat s = foldr (\<lambda>b n. unat b + 256 * n) s 0"

fun blake_words :: "nat \<Rightarrow> gostring \<Rightarrow> w64 list" where
  "blake_words 0 s = []"
| "blake_words (Suc n) s = of_nat (le_nat (take 8 s)) # blake_words n (drop 8 s)"

definition blake_bytes :: "w64 \<Rightarrow> gostring" where
  "blake_bytes w = map (\<lambda>i. ucast (drop_bit (8 * i) w)) [0..<8]"

text \<open>\<open>t\<close> counts the bytes up to the end of the block; the last block flips a word.\<close>

definition blake_block :: "nat \<Rightarrow> bool \<Rightarrow> w64 list \<Rightarrow> gostring \<Rightarrow> w64 list" where
  "blake_block t final h s =
     (let v = h @ blake_iv;
          v = v[12 := v ! 12 XOR of_nat t]; v = v[13 := v ! 13 XOR of_nat (t div 2 ^ 64)];
          v = (if final then v[14 := NOT (v ! 14)] else v);
          v = foldl (blake_round (blake_words 16 s)) v (sigma @ take 2 sigma)
      in map (\<lambda>i. h ! i XOR v ! i XOR v ! (i + 8)) [0..<8])"

text \<open>A block is whole only if more follows: the last one, with the zeros behind it, has from 0 to 128 bytes.\<close>

fun blake_blocks :: "nat \<Rightarrow> nat \<Rightarrow> gostring \<Rightarrow> w64 list \<Rightarrow> w64 list" where
  "blake_blocks 0 t s h = blake_block (t + length s) True h (s @ replicate (128 - length s) 0)"
| "blake_blocks (Suc n) t s h = blake_blocks n (t + 128) (drop 128 s) (blake_block (t + 128) False h (take 128 s))"

definition blake2b :: "nat \<Rightarrow> gostring \<Rightarrow> gostring" where
  "blake2b outlen s =
     (let h = blake_iv[0 := blake_iv ! 0 XOR 0x01010000 XOR of_nat outlen]
      in take outlen (concat (map blake_bytes (blake_blocks ((length s - 1) div 128) 0 s h))))"

lemma length_blake2b [simp]: "outlen \<le> 64 \<Longrightarrow> length (blake2b outlen s) = outlen"
proof -
  have "length (blake_blocks n t s h) = 8" for n t h
    by (induction n arbitrary: t s h) (simp_all add: blake_block_def Let_def)
  moreover have "length (concat (map blake_bytes ws)) = 8 * length ws" for ws
    by (induction ws) (simp_all add: blake_bytes_def)
  ultimately show "outlen \<le> 64 \<Longrightarrow> length (blake2b outlen s) = outlen" by (simp add: blake2b_def Let_def)
qed

end
