(* ===== verification/Hash_Models.thy ===== *)
theory Hash_Models
  imports Sidecar Blake2b
begin

text \<open>
  \<open>services/embed-sidecar/app/settings.py\<close>, \<open>embedder.py\<close> and \<open>reranker.py\<close>: the settings, the hash embedder and the
  heuristic reranker that the sidecar runs when \<open>EMBEDDER_KIND\<close> is \<open>hash\<close>, the choice between them and the models of
  \<open>sentence_transformers\<close>, and the app they are put behind. Those models, the norm of \<open>numpy\<close> and the digits a
  \<open>float\<close> is printed with are parameters; so are the Unicode tables of Python. The lemmas: the vectors have
  length one and reach the Go side as they are, and the scores are those of the Go reranker.
\<close>

section \<open>Strings of Python\<close>

text \<open>What Python's tables say of a character, and \<open>str.lower\<close>; a string is its code points.\<close>

record python =
  py_alnum :: "rune \<Rightarrow> bool"
  py_lower :: "rune list \<Rightarrow> rune list"

text \<open>The white space of \<open>str.split\<close> and \<open>str.strip\<close>.\<close>

definition py_space :: "rune \<Rightarrow> bool" where
  "py_space r \<longleftrightarrow> 9 \<le> r \<and> r \<le> 13 \<or> 28 \<le> r \<and> r \<le> 32 \<or> r \<in> {0x85, 0xa0, 0x1680} \<or> 0x2000 \<le> r \<and> r \<le> 0x200a
     \<or> r \<in> {0x2028, 0x2029, 0x202f, 0x205f, 0x3000}"

text \<open>The longest runs of characters with a property: the words of \<open>str.split\<close>, the matches of a pattern \<open>[...]+\<close>.\<close>

fun runs :: "('a \<Rightarrow> bool) \<Rightarrow> 'a list \<Rightarrow> 'a list \<Rightarrow> 'a list list" where
  "runs P [] acc = (if acc = [] then [] else [acc])"
| "runs P (x # xs) acc =
     (if P x then runs P xs (acc @ [x]) else if acc = [] then runs P xs [] else acc # runs P xs [])"

section \<open>Settings\<close>

record settings =
  st_kind :: gostring
  st_model :: gostring
  st_dim :: nat

text \<open>\<open>from_env\<close>: \<open>environ\<close> has no value for a variable that is not set; \<open>ValueError\<close> with the kind that is not known.\<close>

definition settings_from_env :: "python \<Rightarrow> (gostring \<Rightarrow> gostring option) \<Rightarrow> gostring + settings" where
  "settings_from_env p environ =
     (let get = (\<lambda>k d. case environ (str k) of None \<Rightarrow> str d | Some v \<Rightarrow> v);
          kind = of_runes (py_lower p (trim py_space (runes (get ''EMBEDDER_KIND'' ''hash''))))
      in if kind \<notin> {str ''hf'', str ''hash''} then Inl kind
         else Inr \<lparr>st_kind = kind, st_model = get ''EMBEDDER_MODEL'' ''sentence-transformers/all-MiniLM-L6-v2'', st_dim = 384\<rparr>)"

section \<open>Embedders\<close>

record embedder =
  eb_name :: gostring
  eb_dim :: nat
  eb_vector :: "gostring \<Rightarrow> rat list"

text \<open>One token: the first four bytes of its digest say where, the lowest bit of the fifth says which sign.\<close>

definition hash_add :: "nat \<Rightarrow> rat list \<Rightarrow> gostring \<Rightarrow> rat list" where
  "hash_add d vec tok =
     (let digest = blake2b 8 tok; idx = le_nat (take 4 digest) mod d; sign = (if odd (unat (digest ! 4)) then 1 else -1)
      in vec[idx := rnd32 (vec ! idx + sign)])"

text \<open>\<open>_embed_one\<close>; the numbers are values of \<open>float32\<close>, \<open>vec_norm\<close> is \<open>numpy.linalg.norm\<close>.\<close>

definition embed_one :: "python \<Rightarrow> (rat list \<Rightarrow> rat) \<Rightarrow> nat \<Rightarrow> gostring \<Rightarrow> rat list" where
  "embed_one p vec_norm d text =
     (let vec = replicate d 0; tokens = map of_runes (runs (Not \<circ> py_space) (py_lower p (runes text)) [])
      in if tokens = [] then vec[0 := 1]
         else let vec = foldl (hash_add d) vec tokens; n = vec_norm vec
              in if n = 0 then vec[0 := 1] else map (\<lambda>x. rnd32 (x / n)) vec)"

definition hash_embedder :: "python \<Rightarrow> (rat list \<Rightarrow> rat) \<Rightarrow> nat \<Rightarrow> embedder" where
  "hash_embedder p vec_norm d = \<lparr>eb_name = str ''hash-bag-'' @ dec_nat d, eb_dim = d, eb_vector = embed_one p vec_norm d\<rparr>"

text \<open>\<open>SentenceTransformersEmbedder\<close>: a model of another dimension is a \<open>ValueError\<close>. \<open>load\<close> gives the dimension and
  the encoder of a model, which treats each text of a batch by itself, or nothing when building the model fails.\<close>

definition sentence_transformers_embedder :: "(gostring \<Rightarrow> (nat \<times> (gostring \<Rightarrow> rat list)) option) \<Rightarrow> gostring \<Rightarrow> embedder option" where
  "sentence_transformers_embedder load model =
     (case load model of
        None \<Rightarrow> None
      | Some (out_dim, encode) \<Rightarrow>
          if out_dim \<noteq> 384 then None
          else Some \<lparr>eb_name = model, eb_dim = out_dim, eb_vector = (\<lambda>t. map rnd32 (encode t))\<rparr>)"

definition build_embedder ::
  "python \<Rightarrow> (rat list \<Rightarrow> rat) \<Rightarrow> (gostring \<Rightarrow> (nat \<times> (gostring \<Rightarrow> rat list)) option) \<Rightarrow> settings \<Rightarrow> embedder option" where
  "build_embedder p vec_norm load st =
     (if st_kind st = str ''hash'' then Some (hash_embedder p vec_norm (st_dim st))
      else sentence_transformers_embedder load (st_model st))"

section \<open>Rerankers\<close>

record scorer =
  sc_name :: gostring
  sc_score :: "gostring \<Rightarrow> gostring \<Rightarrow> f64"

text \<open>\<open>_tokens\<close>: the matches of \<open>[^\W_]+\<close> in lower case, a set. A word character but the underscore is an alphanumeric one.\<close>

definition py_tokens :: "python \<Rightarrow> gostring \<Rightarrow> gostring list" where
  "py_tokens p s = (if s = [] then [] else remdups (map (of_runes \<circ> py_lower p) (runs (py_alnum p) (runes s) [])))"

text \<open>\<open>HeuristicReranker\<close>, the score of one passage; \<open>/\<close> of two integers is their quotient, rounded once.\<close>

definition py_score :: "python \<Rightarrow> int \<Rightarrow> gostring \<Rightarrow> gostring \<Rightarrow> f64" where
  "py_score p target_snippet_tokens query passage =
     (let target = max 1 target_snippet_tokens; q = py_tokens p query; s = py_tokens p passage;
          overlap = length (filter (\<lambda>t. t \<in> set s) q);
          denom = (if q \<noteq> [] \<and> s \<noteq> [] then f64_sqrt_nat (length q * length s) else Fin 1);
          base = f64_div (f64_of_int (int overlap)) denom;
          excess = max 0 (int (length s) - target);
          penalty = f64_div (Fin 1) (f64_add (Fin 1) (f64_of_rat (of_int excess / of_int target)))
      in f64_mul base penalty)"

definition heuristic_scorer :: "python \<Rightarrow> scorer" where
  "heuristic_scorer p = \<lparr>sc_name = str ''heuristic-overlap'', sc_score = py_score p 60\<rparr>"

text \<open>\<open>build_reranker\<close>; \<open>predict\<close> is the model of the name it is given, or nothing when building it fails.\<close>

definition build_reranker :: "python \<Rightarrow> (gostring \<Rightarrow> (gostring \<Rightarrow> gostring \<Rightarrow> f64) option) \<Rightarrow> settings \<Rightarrow> scorer option" where
  "build_reranker p predict st =
     (if st_kind st = str ''hash'' then Some (heuristic_scorer p)
      else let name = str ''cross-encoder/ms-marco-MiniLM-L-6-v2''
           in map_option (\<lambda>score. \<lparr>sc_name = name, sc_score = score\<rparr>) (predict name))"

section \<open>The app\<close>

text \<open>
  The endpoints of \<open>create_app\<close> over the models the settings choose. A model is built for the first request that is
  well formed; an exception is a 500, and so is a number that is not finite, which the encoder refuses. \<open>pr\<close> is the number a
  \<open>float\<close> is printed as.
\<close>

definition server_error :: reply where
  "server_error = Response 500 (str ''Internal Server Error'')"

definition app_embed :: "(gostring \<Rightarrow> gostring) \<Rightarrow> (f64 \<Rightarrow> number) \<Rightarrow> embedder option \<Rightarrow> gostring \<Rightarrow> reply" where
  "app_embed refuse pr built b =
     (if embed_body b = None then Response 422 (refuse b)
      else case built of
          None \<Rightarrow> server_error
        | Some e \<Rightarrow> embed_endpoint refuse (\<lambda>t. map (pr \<circ> Fin) (eb_vector e t)) (eb_name e) (eb_dim e) b)"

definition app_rerank :: "(gostring \<Rightarrow> gostring) \<Rightarrow> (f64 \<Rightarrow> number) \<Rightarrow> scorer option \<Rightarrow> gostring \<Rightarrow> reply" where
  "app_rerank refuse pr built b =
     (case rerank_body b of
        None \<Rightarrow> Response 422 (refuse b)
      | Some (q, ps) \<Rightarrow>
          (case built of
             None \<Rightarrow> server_error
           | Some r \<Rightarrow>
               if list_all (is_finite \<circ> sc_score r q) ps
               then rerank_endpoint refuse (\<lambda>q p. pr (sc_score r q p)) (sc_name r) b
               else server_error))"

definition app_health :: "embedder option \<Rightarrow> reply" where
  "app_health built = (case built of None \<Rightarrow> server_error | Some e \<Rightarrow> health_endpoint (eb_name e))"

section \<open>Words\<close>

text \<open>The tokens of both languages are the runs of the same characters, each in lower case.\<close>

lemma set_runs: "set (runs P xs acc) \<subseteq> {ys. ys \<noteq> [] \<and> set ys \<subseteq> set acc \<union> set xs}"
  by (induction P xs acc rule: runs.induct) (auto split: if_splits)

lemma set_flush: "set (flush b out) = set out \<union> (if b = [] then {} else {b})"
  by (auto simp: flush_def)

lemma set_token_loop:
  "set (token_loop u rs (of_runes (map (to_lower u) acc)) out)
     = set out \<union> (of_runes \<circ> map (to_lower u)) ` set (runs (\<lambda>r. is_letter u r \<or> is_digit u r) rs acc)"
proof (induction rs arbitrary: acc out)
  case Nil
  then show ?case by (simp add: set_flush)
next
  case (Cons r rs)
  from Cons [of "acc @ [r]" out] Cons [of "[]" "flush (of_runes (map (to_lower u) acc)) out"]
  show ?case by (auto simp: set_flush)
qed

text \<open>Where the tables of the two languages say the same of every character of a text.\<close>

definition agree :: "python \<Rightarrow> unicode \<Rightarrow> gostring \<Rightarrow> bool" where
  "agree p u s \<longleftrightarrow> (\<forall>r\<in>set (runes s). py_alnum p r \<longleftrightarrow> is_letter u r \<or> is_digit u r)
     \<and> (\<forall>rs. set rs \<subseteq> set (runes s) \<longrightarrow> py_lower p rs = map (to_lower u) rs)"

lemma runs_cong: "(\<And>x. x \<in> set xs \<Longrightarrow> P x \<longleftrightarrow> Q x) \<Longrightarrow> runs P xs acc = runs Q xs acc"
  by (induction xs arbitrary: acc) simp_all

lemma runes_clean [simp]: "runes (clean s) = runes s"
  by (simp add: clean_def runes_of_runes [OF runes_valid])

lemma clean_Nil_iff [simp]: "clean s = [] \<longleftrightarrow> s = []"
  by (simp add: clean_def)

lemma py_tokens_agree:
  assumes "agree p u s"
  shows "set (py_tokens p (clean s)) = set (token_set u s) \<and> length (py_tokens p (clean s)) = length (token_set u s)"
proof -
  let ?runs = "runs (\<lambda>r. is_letter u r \<or> is_digit u r) (runes s) []"
  have "py_lower p t = map (to_lower u) t" if "t \<in> set ?runs" for t
  proof -
    have "set t \<subseteq> set (runes s)"
      using subsetD [OF set_runs that] by simp
    with assms show ?thesis by (simp add: agree_def)
  qed
  then have "(of_runes \<circ> py_lower p) ` set ?runs = (of_runes \<circ> map (to_lower u)) ` set ?runs" by (intro image_cong) simp_all
  moreover have "runs (py_alnum p) (runes s) [] = ?runs" using assms by (intro runs_cong) (simp add: agree_def)
  ultimately have "set (py_tokens p (clean s)) = set (token_set u s)"
    using set_token_loop [of u "runes s" "[]" "[]"] by (simp add: py_tokens_def token_set_def)
  moreover have "distinct (py_tokens p (clean s))" by (simp add: py_tokens_def)
  ultimately show ?thesis using distinct_card [OF distinct_token_set [of u s]] distinct_card by metis
qed

section \<open>The scores are those of the Go reranker\<close>

text \<open>The quotient of two integers is the quotient of the floats they are, where they are exact.\<close>

lemma int_quotient: "0 \<le> a \<Longrightarrow> a \<le> 2 ^ 53 \<Longrightarrow> 0 < b \<Longrightarrow> b \<le> 2 ^ 53 \<Longrightarrow>
  f64_of_rat (of_int a / of_int b) = f64_div (f64_of_int a) (f64_of_int b)"
  using f64_of_int_exact [of a] f64_of_int_exact [of b] by simp

lemma py_penalty:
  assumes "n \<le> 2 ^ 26"
  shows "f64_div (Fin 1) (f64_add (Fin 1) (f64_of_rat (of_int (max 0 (int n - 60)) / of_int 60))) = length_penalty 60 n"
proof -
  have "int n - 60 \<le> 2 ^ 53" using assms by simp
  then have "f64_of_rat (of_int (max 0 (int n - 60)) / of_int 60) = f64_div (f64_of_int (max 0 (int n - 60))) (f64_of_int 60)"
    by (intro int_quotient) simp_all
  moreover have "max 0 (int n - 60) = (if int n - 60 < 0 then 0 else int n - 60)" by simp
  ultimately show ?thesis by (simp only: length_penalty_def Let_def)
qed

lemma py_score_agree:
  assumes "agree p u q" "agree p u s" "small s"
  shows "py_score p 60 (clean q) (clean s) = heuristic_score u (norm_target 60) (token_set u q) s"
proof -
  let ?q = "py_tokens p (clean q)" and ?s = "py_tokens p (clean s)"
  note q = py_tokens_agree [OF assms(1)] and s = py_tokens_agree [OF assms(2)]
  have overlap: "length (filter (\<lambda>t. t \<in> set (token_set u s)) ?q) = token_overlap (token_set u q) (token_set u s)"
    using q s overlap_card [of ?q ?s] overlap_card [of "token_set u q" "token_set u s"]
    by (simp add: token_overlap_def) (simp add: py_tokens_def)
  have nonempty: "?q \<noteq> [] \<longleftrightarrow> 0 < length (token_set u q)" "?s \<noteq> [] \<longleftrightarrow> 0 < length (token_set u s)"
    using q s by (metis length_greater_0_conv)+
  have "length (token_set u s) \<le> 2 ^ 26" using assms(3) length_token_set [of u s] by (simp add: small_def)
  note penalty = py_penalty [OF this]
  have "max 1 60 = (60 :: int)" "norm_target 60 = 60" by (simp_all add: norm_target_def)
  then show ?thesis
    by (simp only: py_score_def heuristic_score_def base_score_def Let_def overlap nonempty q s penalty)
qed

section \<open>The vectors have length one\<close>

text \<open>The sum of the squares, and what the norm of a vector of integers keeps to: the norm of \<open>numpy\<close> does in
  any order of its additions, each of which loses at most \<open>2 ^ -24\<close>.\<close>

definition sum_squares :: "rat list \<Rightarrow> rat" where
  "sum_squares v = sum_list (map (\<lambda>x. x * x) v)"

definition whole :: "rat list \<Rightarrow> bool" where
  "whole v \<longleftrightarrow> list_all (\<lambda>x. \<exists>n. x = of_int n \<and> \<bar>n\<bar> \<le> 2 ^ 24) v"

definition norm_law :: "(rat list \<Rightarrow> rat) \<Rightarrow> bool" where
  "norm_law vec_norm \<longleftrightarrow>
     (\<forall>v. whole v \<and> length v \<le> 2 ^ 10 \<longrightarrow> 0 \<le> vec_norm v \<and> \<bar>vec_norm v * vec_norm v - sum_squares v\<bar> \<le> sum_squares v / 2 ^ 13)"

lemma rnd32_add_sign:
  assumes "\<bar>n\<bar> \<le> 2 ^ 24" "s = 1 \<or> s = - 1"
  shows "\<exists>m. rnd32 (of_int n + of_int s) = of_int m \<and> \<bar>m\<bar> \<le> 2 ^ 24"
proof (cases "\<bar>n + s\<bar> \<le> 2 ^ 24")
  case True
  with rnd32_of_int [OF True] show ?thesis by (intro exI [of _ "n + s"]) simp
next
  case False
  with assms have "n + s = 2 ^ 24 + 1 \<or> n + s = - (2 ^ 24 + 1)" by auto
  moreover have "rnd32 (of_int (2 ^ 24 + 1)) = of_int (2 ^ 24)" using rnd32_saturates by simp
  moreover from this have "rnd32 (of_int (- (2 ^ 24 + 1))) = of_int (- (2 ^ 24))"
    by (simp only: of_int_minus rnd32_minus)
  ultimately have "rnd32 (of_int (n + s)) = of_int (2 ^ 24) \<or> rnd32 (of_int (n + s)) = of_int (- (2 ^ 24))"
    by (elim disjE) (simp_all only: simp_thms)
  then show ?thesis by (metis abs_minus_cancel abs_of_nonneg of_int_add order.refl zero_le_numeral zero_le_power)
qed

lemma hash_add_whole: "whole v \<Longrightarrow> 0 < d \<Longrightarrow> d \<le> length v \<Longrightarrow> whole (hash_add d v tok) \<and> length (hash_add d v tok) = length v"
proof -
  assume v: "whole v" "0 < d" "d \<le> length v"
  define i where "i = le_nat (take 4 (blake2b 8 tok)) mod d"
  define s :: int where "s = (if odd (unat (blake2b 8 tok ! 4)) then 1 else - 1)"
  have "i < length v" using mod_less_divisor [OF v(2)] v(3) unfolding i_def by (rule less_le_trans)
  with v(1) obtain n where n: "v ! i = of_int n" "\<bar>n\<bar> \<le> 2 ^ 24" by (auto simp: whole_def list_all_length)
  have "s = 1 \<or> s = - 1" by (simp add: s_def)
  from rnd32_add_sign [OF n(2) this] obtain m where "rnd32 (of_int n + of_int s) = of_int m" "\<bar>m\<bar> \<le> 2 ^ 24"
    by blast
  moreover have "hash_add d v tok = v[i := rnd32 (of_int n + of_int s)]"
    by (simp add: hash_add_def Let_def i_def s_def n(1) [symmetric] del: of_int_add)
  ultimately show ?thesis
    using v(1) set_update_subset_insert [of v i "of_int m"] by (auto simp: whole_def list_all_iff)
qed

lemma hash_counts:
  assumes "0 < d"
  shows "whole (foldl (hash_add d) (replicate d 0) toks) \<and> length (foldl (hash_add d) (replicate d 0) toks) = d"
proof -
  have "whole v \<Longrightarrow> length v = d \<Longrightarrow> whole (foldl (hash_add d) v toks) \<and> length (foldl (hash_add d) v toks) = d" for v
    using assms by (induction toks arbitrary: v) (auto simp: hash_add_whole)
  moreover have "whole (replicate d 0)" by (auto simp: whole_def list_all_iff intro!: exI [of _ 0])
  ultimately show ?thesis by simp
qed

text \<open>Dividing by the norm: each entry has a small relative error, so the squares add up to one but for a little.\<close>

lemma sum_squares_nonneg [simp]: "0 \<le> sum_squares v"
  by (induction v) (simp_all add: sum_squares_def)

lemma square_le_sum: "x \<in> set v \<Longrightarrow> x * x \<le> sum_squares v"
proof (induction v)
  case (Cons y v)
  then show ?case
    using sum_squares_nonneg [of v] zero_le_square [of y]
    by (auto simp: sum_squares_def simp del: sum_squares_nonneg zero_le_square intro: add_increasing)
qed simp

lemma sum_squares_close:
  assumes "\<And>x. x \<in> set v \<Longrightarrow> \<bar>f x * f x - x * x * c\<bar> \<le> x * x * d"
  shows "\<bar>sum_squares (map f v) - sum_squares v * c\<bar> \<le> sum_squares v * d"
  using assms
proof (induction v)
  case (Cons x v)
  from Cons.prems [of x] Cons.IH Cons.prems show ?case
    by (simp add: sum_squares_def algebra_simps)
qed (simp add: sum_squares_def)

lemma square_error:
  fixes y z e :: rat
  assumes "\<bar>y - z\<bar> \<le> \<bar>z\<bar> * e" "0 \<le> e" "e \<le> 1"
  shows "\<bar>y * y - z * z\<bar> \<le> z * z * (3 * e)"
proof -
  have "\<bar>z\<bar> * e \<le> \<bar>z\<bar>" using assms(3) mult_left_mono [of e 1 "\<bar>z\<bar>"] by simp
  with assms(1) have "\<bar>y + z\<bar> \<le> 3 * \<bar>z\<bar>" by linarith
  with assms(1,2) have "\<bar>y - z\<bar> * \<bar>y + z\<bar> \<le> \<bar>z\<bar> * e * (3 * \<bar>z\<bar>)" by (intro mult_mono) simp_all
  moreover have "\<bar>z\<bar> * e * (3 * \<bar>z\<bar>) = \<bar>z\<bar> * \<bar>z\<bar> * (3 * e)" by (simp only: ac_simps)
  moreover have "\<bar>z\<bar> * \<bar>z\<bar> = z * z" by (simp flip: abs_mult)
  moreover have "y * y - z * z = (y - z) * (y + z)" by (simp add: algebra_simps)
  ultimately show ?thesis by (simp only: abs_mult)
qed

text \<open>A vector the sidecar may answer with: \<open>d\<close> values of \<open>float32\<close>, of length one but for the roundings.\<close>

definition unit_vector :: "nat \<Rightarrow> rat list \<Rightarrow> bool" where
  "unit_vector d v \<longleftrightarrow> length v = d \<and> list_all f32_normal v \<and> \<bar>sum_squares v - 1\<bar> \<le> 1 / 2 ^ 11"

lemma unit_vector_first: "0 < d \<Longrightarrow> unit_vector d ((replicate d 0)[0 := 1])"
proof -
  have "f32_normal 1" using f32_normalI [of "2 ^ 23" 0 1] by (simp add: power_int_minus)
  moreover have "sum_squares (replicate k 0) = 0" for k by (induction k) (simp_all add: sum_squares_def)
  ultimately show "0 < d \<Longrightarrow> ?thesis"
    by (cases d) (auto simp: unit_vector_def sum_squares_def list_all_iff f32_normal_def)
qed

lemma sum_squares_whole: "whole v \<Longrightarrow> sum_squares v \<le> of_nat (length v) * 2 ^ 48"
proof (induction v)
  case (Cons x v)
  then obtain n where n: "x = of_int n" "\<bar>n\<bar> \<le> 2 ^ 24" by (auto simp: whole_def)
  then have "\<bar>n\<bar> * \<bar>n\<bar> \<le> 2 ^ 24 * 2 ^ 24" by (intro mult_mono) simp_all
  then have "n * n \<le> 2 ^ 48" by (simp flip: abs_mult)
  then have "(of_int (n * n) :: rat) \<le> of_int (2 ^ 48)" by (simp only: of_int_le_iff)
  with n(1) Cons show ?case by (simp add: sum_squares_def whole_def algebra_simps)
qed (simp add: sum_squares_def)

lemma whole_zero: "whole v \<Longrightarrow> sum_squares v = 0 \<Longrightarrow> v = replicate (length v) 0"
proof -
  assume v: "sum_squares v = 0"
  have "x = 0" if "x \<in> set v" for x
    using square_le_sum [OF that] v zero_le_square [of x] by (simp add: order_antisym)
  then show ?thesis by (simp add: replicate_length_same)
qed

text \<open>How far an entry over the norm is from zero and from one, and what rounding it does.\<close>

lemma quotient_bounds:
  fixes x n s :: rat
  assumes "0 < n" "n * n \<le> 2 * s" "s \<le> 2 * (n * n)" "s \<le> 2 ^ 58" "x * x \<le> s" "x = of_int m" "m \<noteq> 0"
  shows "pw (-125) \<le> \<bar>x / n\<bar>" "\<bar>x / n\<bar> \<le> 2 ^ 100"
proof -
  have "n * n \<le> 2 * 2 ^ 58" using assms(2,4) by linarith
  also have "\<dots> \<le> (2 ^ 30) ^ 2" by simp
  finally have "n ^ 2 \<le> (2 ^ 30) ^ 2" by (simp only: power2_eq_square)
  then have "n \<le> 2 ^ 30" by (rule power2_le_imp_le) simp
  moreover have "(of_int 1 :: rat) \<le> of_int \<bar>m\<bar>" using assms(7) by (simp only: of_int_le_iff)
  then have "1 \<le> \<bar>x\<bar>" using assms(6) by simp
  ultimately have "1 / 2 ^ 30 \<le> \<bar>x\<bar> / n" using assms(1) by (intro frac_le) simp_all
  moreover have "pw (-125) \<le> pw (-30)" by (rule pw_mono) simp
  moreover have "pw (-30) = 1 / 2 ^ 30" by (simp add: power_int_minus)
  moreover have z: "\<bar>x / n\<bar> = \<bar>x\<bar> / n" using assms(1) by simp
  ultimately show "pw (-125) \<le> \<bar>x / n\<bar>" by (simp only: z)
  have "x * x \<le> 4 * (n * n)" using assms(1,3,5) zero_le_square [of n] by linarith
  then have "\<bar>x\<bar> ^ 2 \<le> (2 * n) ^ 2" by (simp add: power2_eq_square)
  then have "\<bar>x\<bar> \<le> 2 * n" by (rule power2_le_imp_le) (use assms(1) in simp)
  then have "\<bar>x\<bar> / n \<le> 2" using assms(1) by (simp add: pos_divide_le_eq)
  then show "\<bar>x / n\<bar> \<le> 2 ^ 100" unfolding z by simp
qed

lemma near_one:
  fixes t r :: rat
  assumes "\<bar>t - r\<bar> \<le> s * (c * (3 * pw (-24)))" "\<bar>1 - r\<bar> \<le> r / 2 ^ 13" "r \<le> 2" "r = s * c"
  shows "\<bar>t - 1\<bar> \<le> 1 / 2 ^ 11"
proof -
  have "s * (c * (3 * pw (-24))) = r * (3 / 2 ^ 24)" proof -
    have "3 * pw (-24) = 3 / 2 ^ 24" by (simp add: power_int_minus)
    then show ?thesis by (simp only: assms(4) mult.assoc)
  qed
  also have "\<dots> \<le> 2 * (3 / 2 ^ 24)" using assms(3) by (rule mult_right_mono) simp
  finally have "\<bar>t - r\<bar> \<le> 2 * (3 / 2 ^ 24)" using assms(1) by (rule order.trans [rotated])
  moreover have "r / 2 ^ 13 \<le> 2 / 2 ^ 13" using assms(3) by (rule divide_right_mono) simp
  with assms(2) have "\<bar>1 - r\<bar> \<le> 2 / 2 ^ 13" by (rule order.trans)
  moreover have "2 * (3 / 2 ^ 24) + 2 / 2 ^ 13 \<le> (1 / 2 ^ 11 :: rat)" by simp
  ultimately show ?thesis by linarith
qed

text \<open>The whole step: a vector of integers, not all zero, over its norm.\<close>

lemma unit_vector_quotient:
  assumes "whole v" "length v \<le> 2 ^ 10" "0 < n" "\<bar>n * n - sum_squares v\<bar> \<le> sum_squares v / 2 ^ 13"
  shows "unit_vector (length v) (map (\<lambda>x. rnd32 (x / n)) v)"
proof -
  let ?s = "sum_squares v" and ?c = "1 / (n * n)" and ?e = "pw (-24)"
  have nn: "0 < n * n" using assms(3) by simp
  have "?s / 2 ^ 13 \<le> ?s / 2" by (simp add: divide_left_mono)
  with assms(4) have close: "n * n \<le> 2 * ?s" "?s \<le> 2 * (n * n)" by linarith+
  have "(of_nat (length v) :: rat) \<le> of_nat (2 ^ 10)" using assms(2) by (simp only: of_nat_le_iff)
  then have "of_nat (length v) * 2 ^ 48 \<le> (2 ^ 58 :: rat)" by simp
  with sum_squares_whole [OF assms(1)] have s: "?s \<le> 2 ^ 58" by (rule order.trans)
  have each: "f32_normal (rnd32 (x / n)) \<and> \<bar>rnd32 (x / n) - x / n\<bar> \<le> \<bar>x / n\<bar> * ?e" if "x \<in> set v" for x
  proof (rule rnd32_normal)
    obtain m where m: "x = of_int m" using assms(1) \<open>x \<in> set v\<close> by (auto simp: whole_def list_all_iff)
    note b = quotient_bounds [OF assms(3) close s square_le_sum [OF that] m]
    show "x / n = 0 \<or> pw (-125) \<le> \<bar>x / n\<bar>" using b(1) m by (cases "m = 0") simp_all
    show "\<bar>x / n\<bar> \<le> 2 ^ 100" using b(2) m by (cases "m = 0") simp_all
  qed
  have "\<bar>rnd32 (x / n) * rnd32 (x / n) - x * x * ?c\<bar> \<le> x * x * (?c * (3 * ?e))" if "x \<in> set v" for x
    using square_error [of "rnd32 (x / n)" "x / n" ?e] each [OF that] by (simp add: power_int_minus)
  then have "\<bar>sum_squares (map (\<lambda>x. rnd32 (x / n)) v) - ?s * ?c\<bar> \<le> ?s * (?c * (3 * ?e))"
    by (rule sum_squares_close)
  moreover have "\<bar>1 - ?s * ?c\<bar> \<le> ?s * ?c / 2 ^ 13"
  proof -
    have "1 - ?s * ?c = (n * n - ?s) / (n * n)" using assms(3) by (simp add: diff_divide_distrib)
    then have "\<bar>1 - ?s * ?c\<bar> = \<bar>n * n - ?s\<bar> / (n * n)" using nn by (simp only: abs_divide abs_of_pos)
    also have "\<dots> \<le> ?s / 2 ^ 13 / (n * n)" using assms(4) nn by (intro divide_right_mono) simp_all
    finally show ?thesis by simp
  qed
  moreover have "?s * ?c \<le> 2" using close(2) nn by (simp add: pos_divide_le_eq)
  ultimately have "\<bar>sum_squares (map (\<lambda>x. rnd32 (x / n)) v) - 1\<bar> \<le> 1 / 2 ^ 11"
    by (rule near_one) simp
  then show ?thesis using each by (simp add: unit_vector_def list_all_iff)
qed

lemma embed_one_unit:
  assumes "norm_law vec_norm" "0 < d" "d \<le> 2 ^ 10"
  shows "unit_vector d (embed_one p vec_norm d text)"
proof -
  define tokens where "tokens = map of_runes (runs (Not \<circ> py_space) (py_lower p (runes text)) [])"
  define v where "v = foldl (hash_add d) (replicate d 0) tokens"
  have v: "whole v" "length v = d" using hash_counts [OF assms(2)] by (simp_all add: v_def)
  then have n: "0 \<le> vec_norm v" "\<bar>vec_norm v * vec_norm v - sum_squares v\<bar> \<le> sum_squares v / 2 ^ 13"
    using assms(1,3) by (simp_all add: norm_law_def)
  have one: "embed_one p vec_norm d text =
      (if tokens = [] then (replicate d 0)[0 := 1]
       else if vec_norm v = 0 then v[0 := 1] else map (\<lambda>x. rnd32 (x / vec_norm v)) v)"
    by (simp add: embed_one_def Let_def tokens_def v_def)
  have "v = replicate d 0" if "vec_norm v = 0"
  proof -
    have "sum_squares v = 0" using n(2) that sum_squares_nonneg [of v] by simp
    with whole_zero [OF v(1)] v(2) show ?thesis by simp
  qed
  with one show ?thesis
    using unit_vector_first [OF assms(2)] unit_vector_quotient [OF v(1), of "vec_norm v"] v(2) n assms(3) by auto
qed

section \<open>The Go side of the exchange\<close>

text \<open>A printed number reads back as the \<open>float\<close> it is.\<close>

definition prints :: "(f64 \<Rightarrow> number) \<Rightarrow> bool" where
  "prints pr \<longleftrightarrow> (\<forall>q. is_f64 (Fin q) \<longrightarrow> num_ok (pr (Fin q)) \<and> number_float (pr (Fin q)) = Some (Fin q))"

lemma f32_normal_bounds:
  assumes "f32_normal q"
  shows "is_f64 (Fin q)" "q \<noteq> 0 \<Longrightarrow> expo q < 128"
proof -
  have "is_f64 (Fin q) \<and> \<bar>q\<bar> < pw 128"
  proof (cases "q = 0")
    case False
    with assms obtain n e where n: "\<bar>n\<bar> < 2 ^ 24" "-125 \<le> e" "e \<le> 127" "q = of_int n * pw (e - 23)"
      unfolding f32_normal_def by blast
    have "(of_int \<bar>n\<bar> :: rat) < of_int (2 ^ 24)" using n(1) by (simp only: of_int_less_iff)
    then have "\<bar>q\<bar> < 2 ^ 24 * pw (e - 23)" by (simp add: n(4) abs_mult)
    also have "\<dots> = pw (e + 1)" using pw_split [of "e - 23" "e + 1"] by simp
    also have "\<dots> \<le> pw 128" using n(3) by (intro pw_mono) simp
    finally have q: "\<bar>q\<bar> < pw 128" .
    have "rnd q = q" unfolding n(4) using n(1,2) by (intro rnd_representable) simp_all
    moreover have "\<bar>q\<bar> \<le> 2 ^ 1000" using q pw_nat [of 128] pw_nat [of 1000] pw_mono [of 128 1000] by simp
    ultimately show ?thesis using q f64_of_rat_Fin [of q] by (simp add: is_f64_def)
  qed (simp add: is_f64_def)
  then show "is_f64 (Fin q)" "q \<noteq> 0 \<Longrightarrow> expo q < 128"
    using expo_bounds(1) [of q] pw_less_cancel [of "expo q" 128] by auto
qed

lemma printed_f32:
  assumes "prints pr" "f32_normal q"
  shows "num_ok (pr (Fin q)) \<and> number_f32 (pr (Fin q)) = Some (Fin q)"
proof -
  have pr: "num_ok (pr (Fin q))" "number_float (pr (Fin q)) = Some (Fin q)"
    using assms(1) f32_normal_bounds(1) [OF assms(2)] by (simp_all add: prints_def)
  then have "f64_of_rat (num_value (pr (Fin q))) = Fin q" by (auto simp: number_float_def split: f64.splits)
  then have "rnd (num_value (pr (Fin q))) = q" by (rule f64_fin_rnd [symmetric])
  with rnd32_rnd assms(2) have "rnd32 (num_value (pr (Fin q))) = q" by metis
  with pr(1) f32_normal_bounds(2) [OF assms(2)] show ?thesis by (auto simp: number_f32_def Let_def)
qed

section \<open>The two sides together\<close>

lemma from_env_dim: "settings_from_env p environ = Inr st \<Longrightarrow> st_dim st = 384"
  by (auto simp: settings_from_env_def Let_def split: if_splits)

text \<open>C30. The hash embedder gives unit vectors and the client gets them bit for bit: with a sidecar started under
  \<open>EMBEDDER_KIND=hash\<close>, whatever the texts and the batch size, \<open>embedBatched\<close> of the Go client returns for each text
  exactly the vector \<open>HashEmbedder\<close> computes for it, in order: 384 values of \<open>float32\<close> whose squares add up to
  one within \<open>2 ^ -11\<close>, so that cosine similarity is their inner product.\<close>

theorem hash_sidecar_embeds:
  assumes "settings_from_env p environ = Inr st" "st_kind st = str ''hash''" "norm_law vec_norm" "prints pr"
  shows "\<exists>vs. embed_batched (embed_texts (app_embed refuse pr (build_embedder p vec_norm load st)) bad) b texts = Inr (map (map Fin) vs)
    \<and> vs = map (\<lambda>t. embed_one p vec_norm 384 (clean t)) texts \<and> list_all (unit_vector 384) vs"
proof -
  let ?vec = "embed_one p vec_norm 384" and ?f = "\<lambda>n. the (number_f32 n)"
  have unit: "unit_vector 384 (?vec t)" for t using embed_one_unit [OF assms(3)] by simp
  then have read: "length (?vec t) = 384" "list_all (\<lambda>q. num_ok (pr (Fin q)) \<and> number_f32 (pr (Fin q)) = Some (Fin q)) (?vec t)" for t
    using printed_f32 [OF assms(4)] by (simp_all add: unit_vector_def list_all_iff)
  then have same: "map ?f (map (pr \<circ> Fin) (?vec t)) = map Fin (?vec t)" for t by (simp add: list_all_iff)
  define http where "http = embed_endpoint refuse (\<lambda>t. map (pr \<circ> Fin) (?vec t)) (str ''hash-bag-'' @ dec_nat 384) 384"
  have "embed_batched (embed_texts http bad) b texts = Inr (map (\<lambda>t. map ?f (map (pr \<circ> Fin) (?vec (clean t)))) texts)"
    unfolding http_def by (rule batched_sidecar) (use read in \<open>auto simp: list_all_iff\<close>)
  moreover have "embed_texts (app_embed refuse pr (build_embedder p vec_norm load st)) bad = embed_texts http bad"
    using assms(2) from_env_dim [OF assms(1)]
    by (simp add: fun_eq_iff embed_texts_def client_embed_def app_embed_def embed_body_request build_embedder_def
        hash_embedder_def http_def)
  ultimately have "embed_batched (embed_texts (app_embed refuse pr (build_embedder p vec_norm load st)) bad) b texts
      = Inr (map (map Fin) (map (\<lambda>t. ?vec (clean t)) texts))"
    unfolding same by (simp add: comp_def)
  then show ?thesis using unit by (intro exI conjI) (auto simp: list_all_iff comp_def)
qed

lemma is_f64_mul: "is_f64 (f64_mul x y)"
proof (cases "(x, y)" rule: f64_mul.cases)
  case (1 x y)
  then show ?thesis using is_f64_of_rat [of "x * y"] by simp
qed (simp_all add: is_f64_def f64_inf_def)

text \<open>The cross-encoder reranker over a sidecar in hash mode is the heuristic reranker: through HTTP and JSON to the
  Python scorer and from there the scores come bit for bit, for texts of which the two languages say the same.\<close>

lemma sidecar_scores_same:
  assumes "st_kind st = str ''hash''" "prints pr" "agree p u q" "list_all (agree p u \<circ> snippet) cs"
    and "small q" "list_all (small \<circ> snippet) cs"
  shows "rerank_passages (app_rerank refuse pr (build_reranker p predict st)) bad q cs n = heuristic_rerank u 60 q cs n"
proof (cases "cs = []")
  case True
  then show ?thesis by (simp add: rerank_passages_def cross_rerank_def heuristic_rerank_eq score_all_def cut_def)
next
  case False
  let ?py = "\<lambda>c. py_score p 60 (clean q) (clean (snippet c))"
  let ?body = "json_marshal (rerank_request q (map snippet cs))"
  have score: "?py c = heuristic_score u (norm_target 60) (token_set u q) (snippet c)" if "c \<in> set cs" for c
    using assms that by (intro py_score_agree) (simp_all add: list_all_iff)
  have unit: "unit_score (?py c)" if "c \<in> set cs" for c
    unfolding score [OF that] using assms that by (intro heuristic_score_unit) (simp_all add: list_all_iff)
  have fin: "is_f64 (?py c)" "\<exists>x. ?py c = Fin x" if "c \<in> set cs" for c
    using unit [OF that] is_f64_mul by (auto simp: unit_score_def py_score_def Let_def)
  have "num_ok (pr (?py c)) \<and> number_float (pr (?py c)) = Some (?py c)" if "c \<in> set cs" for c
    using fin [OF that] assms(2) by (auto simp: prints_def)
  then have read: "list_all (\<lambda>n. num_ok n \<and> number_float n = Some (the (number_float n))) (map (pr \<circ> ?py) cs)"
    "map (\<lambda>n. the (number_float n)) (map (pr \<circ> ?py) cs) = map ?py cs" by (simp_all add: list_all_iff)
  have "list_all (is_finite \<circ> py_score p 60 (clean q)) (map (clean \<circ> snippet) cs)"
    using fin(2) by (fastforce simp: list_all_iff)
  then obtain body where body: "app_rerank refuse pr (build_reranker p predict st) ?body = Response 200 body"
    "rerank_reply bad body = Inr (map ?py cs)"
    using rerank_reply_reads [OF read(1)] read(2) assms(1)
    by (simp add: app_rerank_def rerank_body_request build_reranker_def heuristic_scorer_def rerank_endpoint_reads comp_def)
  have "map2 (\<lambda>c x. \<lparr>cand = c, rerank_score = x\<rparr>) cs (map ?py cs) = score_all u 60 q cs"
    using score by (simp add: score_all_def zip_map2 zip_same_conv_map)
  with False body show ?thesis
    by (simp add: rerank_passages_def cross_rerank_def Let_def heuristic_rerank_eq read_reply_def status_ok_def)
qed

section \<open>A concrete sidecar\<close>

text \<open>Tables, a norm and a printer with which the hypotheses hold.\<close>

definition ascii_python :: python where
  "ascii_python = \<lparr>py_alnum = (\<lambda>r. is_letter ascii_tables r \<or> is_digit ascii_tables r), py_lower = map (to_lower ascii_tables)\<rparr>"

lemma ascii_agree [simp]: "agree ascii_python ascii_tables s"
  by (simp add: agree_def ascii_python_def)

definition root_norm :: "rat list \<Rightarrow> rat" where
  "root_norm v = of_nat (isqrt (nat \<lfloor>sum_squares v\<rfloor> * 2 ^ 64)) / 2 ^ 32"

definition print_float :: "f64 \<Rightarrow> number" where
  "print_float x = (case x of Fin q \<Rightarrow> float_number q | _ \<Rightarrow> int_number 0)"

lemma print_float_prints: "prints print_float"
  by (simp add: prints_def print_float_def number_float_number)

lemma sum_squares_int: "whole v \<Longrightarrow> \<exists>n. sum_squares v = of_nat n"
proof (induction v)
  case (Cons x v)
  then obtain m n where "x = of_int m" "sum_squares v = of_nat n" by (auto simp: whole_def)
  then have "sum_squares (x # v) = of_nat (nat (m * m) + n)" by (simp add: sum_squares_def)
  then show ?case by blast
qed (auto simp: sum_squares_def intro: exI [of _ 0])

lemma root_norm_law: "norm_law root_norm"
  unfolding norm_law_def
proof (intro allI impI)
  fix v
  assume "whole v \<and> length v \<le> 2 ^ 10"
  then obtain n where n: "sum_squares v = of_nat n" using sum_squares_int by blast
  let ?r = "isqrt (n * 2 ^ 64)"
  have r: "?r * ?r \<le> n * 2 ^ 64" "n * 2 ^ 64 < (?r + 1) * (?r + 1)" using isqrt_bounds by blast+
  have "n * 2 ^ 64 \<le> (n * 2 ^ 32) * (n * 2 ^ 32)" by simp
  with r(1) have "?r ^ 2 \<le> (n * 2 ^ 32) ^ 2" unfolding power2_eq_square by (rule order.trans)
  then have "?r \<le> n * 2 ^ 32" by (rule power2_le_imp_le) simp
  then have "n * 2 ^ 64 \<le> ?r * ?r + 2 * (n * 2 ^ 32)" using r(2) by (simp add: algebra_simps)
  then have up: "(of_nat (n * 2 ^ 64) :: rat) \<le> of_nat (?r * ?r + 2 * (n * 2 ^ 32))" by (simp only: of_nat_le_iff)
  have lo: "(of_nat (?r * ?r) :: rat) \<le> of_nat (n * 2 ^ 64)" using r(1) by (simp only: of_nat_le_iff)
  have v: "root_norm v = of_nat ?r / 2 ^ 32" by (simp add: root_norm_def n)
  have "root_norm v * root_norm v = of_nat (?r * ?r) / 2 ^ 64" unfolding v by simp
  moreover have "of_nat (?r * ?r) / 2 ^ 64 \<le> (of_nat n :: rat)" using lo by (simp add: pos_divide_le_eq)
  moreover have "(of_nat n :: rat) \<le> of_nat (?r * ?r) / 2 ^ 64 + of_nat n / 2 ^ 31" using up by (simp add: field_simps)
  moreover have "(of_nat n :: rat) / 2 ^ 31 \<le> of_nat n / 2 ^ 13" by (rule divide_left_mono) simp_all
  ultimately show "0 \<le> root_norm v \<and> \<bar>root_norm v * root_norm v - sum_squares v\<bar> \<le> sum_squares v / 2 ^ 13"
    using v n by (simp only: n) (simp add: abs_le_iff)
qed

definition default_settings :: settings where
  "default_settings = \<lparr>st_kind = str ''hash'', st_model = str ''sentence-transformers/all-MiniLM-L6-v2'', st_dim = 384\<rparr>"

lemma ascii_env: "settings_from_env ascii_python (\<lambda>k. None) = Inr default_settings"
proof -
  have "runes (str ''hash'') = [104, 97, 115, 104]" using runes_ascii [of "str ''hash''"] runes_of_runes [of "map unat (str ''hash'')"] by simp
  then have "of_runes (py_lower ascii_python (trim py_space (runes (str ''hash'')))) = str ''hash''"
    by (simp add: trim_def py_space_def ascii_python_def ascii_tables_def encode_rune_def)
  then show ?thesis by (simp add: settings_from_env_def default_settings_def Let_def del: str_Cons)
qed

theorem hash_sidecar_embeds_witness:
  "\<exists>vs. embed_batched (embed_texts (app_embed (\<lambda>b. []) print_float
       (build_embedder ascii_python root_norm (\<lambda>m. None) default_settings)) (\<lambda>b. ErrNoRows)) 1 [str ''go'', []]
     = Inr (map (map Fin) vs) \<and> length vs = 2 \<and> list_all (unit_vector 384) vs"
proof -
  have "st_kind default_settings = str ''hash''" by (simp add: default_settings_def)
  from hash_sidecar_embeds [OF ascii_env this root_norm_law print_float_prints, where refuse = "\<lambda>b. []" and
      load = "\<lambda>m. None" and bad = "\<lambda>b. ErrNoRows" and b = 1 and texts = "[str ''go'', []]"]
  show ?thesis by (elim exE conjE) (intro exI conjI, assumption, simp_all del: str_Cons)
qed

end
