(* ===== verification/Deployment.thy ===== *)
theory Deployment
  imports Server Hash_Models
begin

text \<open>
  The server and the sidecar put together: the clients \<open>cmd/server/main.go\<close> makes for the address of the sidecar
  (\<open>embed.New\<close> of \<open>pkg/embed/client.go\<close>, \<open>NewCrossEncoderReranker\<close> of \<open>internal/rerank/cross_encoder.go\<close>) and the whole
  command over a network, which is a function from a timeout, an address and a body to a reply.
\<close>

section \<open>The clients at an address\<close>

text \<open>Times are in nanoseconds.\<close>

record rpc_client =
  rc_base :: gostring
  rc_timeout :: int

definition new_embed_client :: "gostring \<Rightarrow> rpc_client" where
  "new_embed_client base = \<lparr>rc_base = base, rc_timeout = 30 * 1000000000\<rparr>"

definition new_cross_client :: "gostring \<Rightarrow> rpc_client" where
  "new_cross_client base = \<lparr>rc_base = base, rc_timeout = 10 * 1000000000\<rparr>"

type_synonym network = "int \<Rightarrow> gostring \<Rightarrow> gostring \<Rightarrow> reply"

definition post :: "network \<Rightarrow> rpc_client \<Rightarrow> string \<Rightarrow> gostring \<Rightarrow> reply" where
  "post net c path body = net (rc_timeout c) (rc_base c @ str path) body"

definition embed_rpc :: "network \<Rightarrow> (gostring \<Rightarrow> go_error) \<Rightarrow> rpc_client \<Rightarrow> gostring list \<Rightarrow> go_error + f64 list list" where
  "embed_rpc net bad c = Sidecar.embed_texts (post net c ''/embed'') bad"

definition rerank_rpc :: "network \<Rightarrow> (gostring \<Rightarrow> go_error) \<Rightarrow> rpc_client \<Rightarrow> reranker_fun" where
  "rerank_rpc net bad c = rerank_passages (post net c ''/rerank'') bad"

text \<open>Whatever the network answers, they keep the interfaces their callers rely on.\<close>

interpretation rpc: embedder "embed_rpc net bad c" full_vector
  for net :: network and bad :: "gostring \<Rightarrow> go_error" and c :: rpc_client
  unfolding embed_rpc_def Sidecar.embed_texts_def by (rule client.embedder_axioms)

interpretation rpc_rank: reranker "rerank_rpc net bad c" "\<lambda>q cs. True"
  for net :: network and bad :: "gostring \<Rightarrow> go_error" and c :: rpc_client
  using cross.reranker_axioms [of _ "rerank_reply bad"] rerank_reply_numbers [of bad] by (simp add: rerank_rpc_def rerank_passages_def)

text \<open>The command, with both clients at \<open>EMBED_URL\<close>.\<close>

definition server_program ::
  "env \<Rightarrow> pg \<Rightarrow> network \<Rightarrow> (gostring \<Rightarrow> go_error) \<Rightarrow> (gostring \<Rightarrow> gostring) \<Rightarrow> unicode \<Rightarrow> (gostring \<Rightarrow> go_error option) \<Rightarrow> ending
     \<Rightarrow> http_server option \<times> nat \<times> gostring" where
  "server_program en g net bad getenv u open_store e =
     server_main en g (\<lambda>url. embed_rpc net bad (new_embed_client url)) getenv u
       (\<lambda>url. rerank_rpc net bad (new_cross_client url)) open_store e"

section \<open>Rerankers that agree on what the engine asks them\<close>

text \<open>The snippets the engine hands to a reranker are texts of chunks a client can see.\<close>

lemma candidate_snippet:
  assumes "info_ok visible us info" "c \<in> set (candidates info fs)"
  shows "snippet c = [] \<or> (\<exists>x d. visible x d (snippet c))"
proof (cases "chunk_id c \<in> dom info")
  case True
  from info_visible [OF assms(1) this] in_candidates [OF assms(2)] show ?thesis by metis
next
  case False
  with in_candidates [OF assms(2)] show ?thesis by (auto simp: snippet_of_def split: option.split)
qed

lemma same_reranker:
  assumes "db_ok db" "scans g" "numeric g" "inj us"
    and "\<And>cs k. list_all (\<lambda>c. snippet c = [] \<or> snippet c \<in> c_text ` set (chunks db)) cs \<Longrightarrow> f q cs k = f' q cs k"
  shows "fst (engine_query ord sh (store_deps g f0 f1 db emb us) (with_reranker f new_engine) q k m)
       = fst (engine_query ord sh (store_deps g f0 f1 db emb us) (with_reranker f' new_engine) q k m)"
proof -
  let ?d = "store_deps g f0 f1 db emb us" and ?e = "\<lambda>f. norm_engine (with_reranker f new_engine)"
  have e: "per_list_limit (?e f) = 50" "rerank_input_n (?e f) = 20" "e_reranker (?e f) = Some f" for f
    by (simp_all add: norm_engine_def with_reranker_def new_engine_def)
  have "finish ord sh (?e f) q k' m pr = finish ord sh (?e f') q k' m pr" if "retrieve ?d 50 q m = Inr pr" for pr k'
  proof -
    have "retrieved (chunk_visible db) us 50 pr"
      using sb.retrieve_retrieved [of db g us 50 ?d f0 f1 q m pr] that assms(1-4) by (simp add: store_deps_def)
    then have info: "info_ok (chunk_visible db) us (snd pr)" by (simp add: retrieved_def)
    have "snippet c = [] \<or> snippet c \<in> c_text ` set (chunks db)" if "c \<in> set (candidates (snd pr) fs)" for c fs
      using candidate_snippet [OF info that] unfolding chunk_visible_def list_ex_iff by (metis image_eqI)
    then have "f q (candidates (snd pr) fs) k' = f' q (candidates (snd pr) fs) k'" for fs
      by (intro assms(5)) (simp add: list_all_iff)
    then show ?thesis by (simp add: finish_def reranks_def e Let_def)
  qed
  then show ?thesis by (cases "retrieve ?d 50 q m") (simp_all add: engine_query_def Let_def e)
qed

text \<open>C23. A deployment with the sidecar in hash mode reranks as a server without a sidecar does: with
  \<open>RERANKER_KIND=cross-encoder\<close> and, at \<open>EMBED_URL\<close>, a sidecar of kind \<open>hash\<close>, the server answers every query in
  every mode exactly as with the heuristic reranker in the process, scores bit for bit, provided the Unicode
  tables of Go and Python say the same of the query and of the stored chunks (each of up to 64 MB).\<close>

theorem rerank_over_sidecar:
  assumes "reranker_kind getenv = str ''cross-encoder''"
    and "\<And>t b. net t (cf_embed_url (server_settings getenv) @ str ''/rerank'') b = app_rerank refuse pr (build_reranker p predict st) b"
    and "st_kind st = str ''hash''" "prints pr" "agree p u q" "small q"
    and "list_all (\<lambda>c. agree p u (c_text c) \<and> small (c_text c)) (chunks db)"
    and "db_ok db" "scans g" "numeric g" "inj (uuid_text en)"
  shows "sv_search (new_server en g emb (select_reranker getenv u (\<lambda>url. rerank_rpc net bad (new_cross_client url))) io) q k m db
       = sv_search (new_server en g emb (Some (new_heuristic_reranker u)) io) q k m db"
proof -
  let ?url = "cf_embed_url (server_settings getenv)"
  have "str ''cross-encoder'' \<noteq> str ''off''" by simp
  then have select: "select_reranker getenv u (\<lambda>url. rerank_rpc net bad (new_cross_client url))
      = Some (rerank_rpc net bad (new_cross_client ?url))" by (simp add: select_reranker_def assms(1) del: str_Cons)
  have "post net (new_cross_client ?url) ''/rerank'' = app_rerank refuse pr (build_reranker p predict st)"
    by (simp add: fun_eq_iff post_def new_cross_client_def assms(2) del: str_Cons)
  then have rpc: "rerank_rpc net bad (new_cross_client ?url) = rerank_passages (app_rerank refuse pr (build_reranker p predict st)) bad"
    by (simp add: rerank_rpc_def)
  have empty: "agree p u [] \<and> small []" using assms(5) by (simp add: agree_def small_def)
  have "rerank_rpc net bad (new_cross_client ?url) q cs n = new_heuristic_reranker u q cs n"
    if "list_all (\<lambda>c. snippet c = [] \<or> snippet c \<in> c_text ` set (chunks db)) cs" for cs n
    unfolding rpc new_heuristic_reranker_def
    by (rule sidecar_scores_same) (use assms(3-7) that empty in \<open>auto simp: list_all_iff\<close>)
  from same_reranker [where f = "rerank_rpc net bad (new_cross_client ?url)" and f' = "new_heuristic_reranker u", OF assms(8-11) this]
  show ?thesis by (simp add: new_server_def select engine_for_def)
qed

theorem rerank_over_sidecar_witness:
  "sv_search (new_server ex_env ex_pg ex_emb (select_reranker
       (\<lambda>k. if k = str ''RERANKER_KIND'' then str ''cross-encoder'' else []) ascii_tables
       (\<lambda>url. rerank_rpc (\<lambda>t a. app_rerank (\<lambda>b. []) print_float (build_reranker ascii_python (\<lambda>m. None) default_settings))
          (\<lambda>b. ErrNoRows) (new_cross_client url))) ex_io) (str ''b'') 3 ModeHybridRerank ex_db
   = sv_search (new_server ex_env ex_pg ex_emb (Some (new_heuristic_reranker ascii_tables)) ex_io) (str ''b'') 3 ModeHybridRerank ex_db"
proof (rule rerank_over_sidecar [OF _ refl])
  show "reranker_kind (\<lambda>k. if k = str ''RERANKER_KIND'' then str ''cross-encoder'' else []) = str ''cross-encoder''"
    by (simp add: reranker_kind_def getenv_or_def)
  show "list_all (\<lambda>c. agree ascii_python ascii_tables (c_text c) \<and> small (c_text c)) (chunks ex_db)"
    by (simp add: small_def ex_db_def with_doc_def chunk_rows_def ex_chunks_def empty_db_def)
qed (use ex_db_ok env_ok_inj [OF ex_env_ok] in \<open>simp_all add: default_settings_def print_float_prints small_def\<close>)

section \<open>Without the sidecar\<close>

lemma batched_fails:
  assumes "\<And>ts. ts \<noteq> [] \<Longrightarrow> emb ts = Inl e" "texts \<noteq> []"
  shows "embed_batched emb b texts = Inl e"
proof -
  have "emb (take (norm_batch b) texts) = Inl e" "emb texts = Inl e" using assms by simp_all
  then show ?thesis using assms(2) by (simp add: embed_batched_def batch_loop.simps Let_def)
qed

lemma embed_rpc_offline:
  assumes "\<And>t a b. net t a b = Transport_failed err" "texts \<noteq> []"
  shows "embed_rpc net bad c texts = Inl (Wrapped (str ''embed: transport'') err)"
  using assms by (simp add: embed_rpc_def Sidecar.embed_texts_def client_embed_def post_def read_reply_def)

lemma keyword_without_embedder:
  "engine_query ord sh (store_deps g f0 f1 db emb us) e q k ModeKeyword
     = engine_query ord sh (store_deps g f0 f1 db emb' us) e q k ModeKeyword"
proof -
  have "vector_part (store_deps g f0 f1 db emb us) pl q ModeKeyword = vector_part (store_deps g f0 f1 db emb' us) pl q ModeKeyword" for pl
    by (simp add: fun_eq_iff vector_part_def uses_vector_def)
  moreover have "bm25_part (store_deps g f0 f1 db emb us) pl q m = bm25_part (store_deps g f0 f1 db emb' us) pl q m" for pl m
    by (simp add: bm25_part_def store_deps_def)
  ultimately show ?thesis by (simp only: engine_query_def retrieve_def Let_def)
qed

lemma vector_query_fails:
  assumes "emb [q] = Inl err" "uses_vector m"
  shows "isl (fst (engine_query ord sh (store_deps g f0 f1 db emb us) e q k m))"
proof -
  have "\<exists>x. retrieve (store_deps g f0 f1 db emb us) pl q m = Inl x" for pl
    using assms by (cases "bm25_part (store_deps g f0 f1 db emb us) pl q m")
      (simp_all add: retrieve_def vector_part_def store_deps_def)
  then obtain x where "retrieve (store_deps g f0 f1 db emb us) (per_list_limit (norm_engine e)) q m = Inl x" by blast
  then show ?thesis by (simp add: engine_query_def Let_def)
qed

text \<open>An index request is refused, one way or the other, before the tables are touched.\<close>

lemma index_without_embedder:
  assumes "\<And>ts. ts \<noteq> [] \<Longrightarrow> sv_embed sv ts = Inl e" "w_sent w = None"
  shows "\<exists>w' st h. handle_index en sv rq w s = Returned w' s \<and> w_sent w' = Some (st, h) \<and> st \<in> {400, 503}"
proof -
  have sent: "\<exists>h. w_sent (fail rq a w) = Some (ae_status a, h)" for a
    using assms(2) by (simp add: fail_def write_error_def Let_def)
  show ?thesis
  proof (cases "dec_index en (rq_body rq)")
    case None
    with sent show ?thesis by (fastforce simp: handle_index_def)
  next
    case (Some req)
    show ?thesis
    proof (cases "trim_space (ir_source req) = [] \<or> trim_space (ir_title req) = [] \<or> trim_space (ir_body req) = []")
      case True
      with Some sent show ?thesis by (fastforce simp: handle_index_def Let_def)
    next
      case False
      obtain c cs where cs: "split_chunks (ir_body req) zero_opts = Some (c # cs)" using split_chunks_some by blast
      have "embed_batched (sv_embed sv) (sv_batch sv) (map ck_text (c # cs)) = Inl e"
        by (rule batched_fails) (simp_all add: assms(1))
      with Some False cs have "handle_index en sv rq w s = Returned (fail rq (unavailable (str ''embed_failed'') (err_text e)) w) s"
        by (simp add: handle_index_def Let_def)
      with sent show ?thesis by fastforce
    qed
  qed
qed

lemma query_leaves_tables: "\<exists>w'. handle_query en sv rq w s = Returned w' s"
  by (auto simp: handle_query_def Let_def split: option.split sum.split)

text \<open>Only two handlers look past the store.\<close>

lemma dispatch_without_embedder:
  "e \<noteq> Index_E \<Longrightarrow> e \<noteq> Query_E \<Longrightarrow> dispatch en (new_server en g emb r io) e v = dispatch en (new_server en g emb' r io) e v"
  unfolding fun_eq_iff dispatch_def handle_get_doc_def handle_delete_doc_def handle_list_docs_def handle_compact_def new_server_sel
  by (cases e) simp_all

lemma serve_without_embedder:
  assumes "\<And>v. find_route (rq_method rq) (rq_path rq) \<noteq> Some (Index_E, v)" "\<And>v. find_route (rq_method rq) (rq_path rq) \<noteq> Some (Query_E, v)"
  shows "serve en (new_server en g emb r io) rand8 rq fresh_writer db = serve en (new_server en g emb' r io) rand8 rq fresh_writer db"
proof (cases "find_route (rq_method rq) (rq_path rq)")
  case (Some ev)
  then obtain e v where ev: "find_route (rq_method rq) (rq_path rq) = Some (e, v)" by (cases ev) simp
  with assms have "e \<noteq> Index_E" "e \<noteq> Query_E" by auto
  then have "dispatch en (new_server en g emb r io) e v = dispatch en (new_server en g emb' r io) e v"
    by (rule dispatch_without_embedder)
  with ev show ?thesis by (simp add: serve_mux mux_def del: new_server_sel)
qed (simp add: serve_mux mux_def)

lemma search_without_sidecar:
  assumes "\<And>ts. ts \<noteq> [] \<Longrightarrow> emb ts = Inl e"
  shows "if m = ModeKeyword then sv_search (new_server en g emb r io) q k m db = sv_search (new_server en g emb' r io) q k m db
    else isl (sv_search (new_server en g emb r io) q k m db)"
proof (cases "m = ModeKeyword")
  case True
  then show ?thesis by (simp add: keyword_without_embedder [of _ _ _ _ _ _ emb _ _ _ _ emb'])
next
  case False
  then have "uses_vector m" by (cases m) (simp_all add: uses_vector_def)
  from vector_query_fails [OF assms this] False show ?thesis by simp
qed

text \<open>C19. The service outlives its sidecar: while the network answers no request to it, keyword queries are answered
  as before and every other query is an error; \<open>POST /v1/index\<close> is refused with 400 or 503 and leaves the tables
  alone; and every other request (lookups, listings, deletions, compaction, what has no route) is served exactly
  as with a sidecar.\<close>

theorem sidecar_offline:
  assumes "\<And>t a b. net t a b = Transport_failed err"
  shows "let off = new_server en g (embed_rpc net bad (new_embed_client url)) r io; on = new_server en g emb r io in
      (if m = ModeKeyword then sv_search off q k m db = sv_search on q k m db else isl (sv_search off q k m db))
    \<and> (case find_route (rq_method rq) (rq_path rq) of
         Some (Index_E, v) \<Rightarrow> \<exists>w st h. serve en off rand8 rq fresh_writer db = Returned w db \<and> w_sent w = Some (st, h) \<and> st \<in> {400, 503}
       | Some (Query_E, v) \<Rightarrow> \<exists>w. serve en off rand8 rq fresh_writer db = Returned w db
       | _ \<Rightarrow> serve en off rand8 rq fresh_writer db = serve en on rand8 rq fresh_writer db)"
proof -
  let ?emb = "embed_rpc net bad (new_embed_client url)"
  let ?off = "new_server en g ?emb r io"
  have fails: "?emb ts = Inl (Wrapped (str ''embed: transport'') err)" if "ts \<noteq> []" for ts
    using assms that by (rule embed_rpc_offline)
  have "\<exists>w st h. serve en ?off rand8 rq fresh_writer db = Returned w db \<and> w_sent w = Some (st, h) \<and> st \<in> {400, 503}"
    if "find_route (rq_method rq) (rq_path rq) = Some (Index_E, v)" for v
  proof -
    obtain w st h where w: "handle_index en ?off (tagged rand8 rq) (opened rand8 rq) db = Returned w db"
      "w_sent w = Some (st, h)" "st \<in> {400, 503}"
      using index_without_embedder [of ?off "Wrapped (str ''embed: transport'') err" "opened rand8 rq" en "tagged rand8 rq" db] fails by auto
    from w(1) have "serve en ?off rand8 rq fresh_writer db = Returned w db"
      by (intro serve_Returned [OF that]) (simp add: dispatch_def)
    with w show ?thesis by blast
  qed
  moreover have "\<exists>w. serve en ?off rand8 rq fresh_writer db = Returned w db"
    if "find_route (rq_method rq) (rq_path rq) = Some (Query_E, v)" for v
  proof -
    obtain w where "handle_query en ?off (tagged rand8 rq) (opened rand8 rq) db = Returned w db"
      using query_leaves_tables [of en ?off "tagged rand8 rq" "opened rand8 rq" db] by (elim exE)
    then have "serve en ?off rand8 rq fresh_writer db = Returned w db"
      by (intro serve_Returned [OF that]) (simp add: dispatch_def)
    then show ?thesis by blast
  qed
  ultimately show ?thesis
    using search_without_sidecar [where emb = ?emb and m = m and q = q and k = k and db = db, OF fails]
      serve_without_embedder [of rq en g ?emb r io rand8 db emb]
    unfolding Let_def by (intro conjI) (auto split: option.split prod.split endpoint.split simp del: new_server_sel)
qed

theorem sidecar_offline_witness:
  "let off = new_server ex_env ex_pg (embed_rpc (\<lambda>t a b. Transport_failed ErrNoRows) (\<lambda>b. ErrNoRows) (new_embed_client [])) None ex_io
   in isl (sv_search off (str ''b'') 3 ModeHybrid ex_db)
    \<and> (\<exists>w st h. serve ex_env off [1] (ex_request ''POST'' [v1, str ''index''] (str ''b'')) fresh_writer ex_db = Returned w ex_db
         \<and> w_sent w = Some (st, h) \<and> st \<in> {400, 503})"
  using sidecar_offline [where net = "\<lambda>t a b. Transport_failed ErrNoRows" and err = ErrNoRows and en = ex_env and g = ex_pg and
      bad = "\<lambda>b. ErrNoRows" and url = "[]" and r = None and io = ex_io and emb = ex_emb and m = ModeHybrid and q = "str ''b''" and k = 3 and
      db = ex_db and rq = "ex_request ''POST'' [v1, str ''index''] (str ''b'')" and ?rand8.0 = "[1]", OF refl]
  by (simp add: Let_def find_route_simps del: str_Cons new_server_sel)

end
