(* ===== verification/Store_Steps.thy ===== *)
theory Store_Steps
  imports Store_Laws
begin

text \<open>
  Several API servers and compactors on one database, as a step relation. Indexing and deletion are
  single transactions and step as one. A compactor does two things with anything in between: it scans
  for a tombstone outside a transaction, and later cleans up the tombstone it found, which another
  compactor may have done meanwhile. A server that stops between the two just never cleans.
\<close>

section \<open>States and steps\<close>

record sys =
  tables :: db
  scanned :: "nat \<Rightarrow> (uuid \<times> uuid) option"

inductive step :: "sys \<Rightarrow> sys \<Rightarrow> bool" where
  index: "upsert_doc f i is now d cs (tables s) = (r, db') \<Longrightarrow> step s (s\<lparr>tables := db'\<rparr>)"
| delete: "delete_doc f ti now i (tables s) = (r, db') \<Longrightarrow> step s (s\<lparr>tables := db'\<rparr>)"
| scan: "reorders sh \<Longrightarrow> next_tomb sh (tables s) = Inr (ti, i) \<Longrightarrow>
     step s (s\<lparr>scanned := (scanned s)(p \<mapsto> (ti, i))\<rparr>)"
| clean: "scanned s p = Some (ti, i) \<Longrightarrow> compact_one f now ti i (tables s) = (r, db') \<Longrightarrow>
     step s (s\<lparr>tables := db', scanned := (scanned s)(p := None)\<rparr>)"

inductive steps :: "sys \<Rightarrow> sys \<Rightarrow> bool" where
  refl: "steps s s"
| snoc: "steps s t \<Longrightarrow> step t u \<Longrightarrow> steps s u"

definition start :: sys where
  "start = \<lparr>tables = empty_db, scanned = Map.empty\<rparr>"

section \<open>The invariant\<close>

definition sys_ok :: "sys \<Rightarrow> bool" where
  "sys_ok s \<longleftrightarrow> db_ok (tables s)
     \<and> (\<forall>p ti i. scanned s p = Some (ti, i) \<longrightarrow> has_tomb (tables s) ti i)"

lemma start_ok [inv_intros]: "sys_ok start"
  by (simp add: sys_ok_def start_def)

lemma has_tomb_with_doc [simp]: "has_tomb (with_doc i is now d cs db) ti j = has_tomb db ti j"
  by (simp add: has_tomb_def with_doc_def)

lemma has_tomb_with_tomb: "has_tomb db ti j \<Longrightarrow> has_tomb (with_tomb tj now i db) ti j"
  by (simp add: has_tomb_def with_tomb_def)

lemma has_tomb_compacted [simp]: "has_tomb (compacted tj now i db) ti j = has_tomb db ti j"
proof -
  have "list_ex P (map f ts) = list_ex P ts" if "\<And>t. P (f t) = P t" for P f and ts :: "tomb list"
    using that by (induction ts) auto
  from this [of "\<lambda>t. t_id t = ti \<and> t_doc t = j"] show ?thesis by (simp add: has_tomb_def)
qed

lemma has_tomb_upsert: "has_tomb db ti j \<Longrightarrow> has_tomb (snd (upsert_doc f i is now d cs db)) ti j"
  using upsert_doc_db [of f i "is" now d cs db] by auto

lemma has_tomb_delete: "db_ok db \<Longrightarrow> has_tomb db ti j \<Longrightarrow> has_tomb (snd (delete_doc f tj now i db)) ti j"
  using delete_doc_db [of db f tj now i] has_tomb_with_tomb by auto

lemma compact_one_ok [inv_intros]: "db_ok db \<Longrightarrow> has_tomb db ti i \<Longrightarrow> db_ok (snd (compact_one f now ti i db))"
  using compact_one_db [of f now ti i db] compacted_ok by metis

lemma has_tomb_clean: "has_tomb db ti j \<Longrightarrow> has_tomb (snd (compact_one f now tj i db)) ti j"
  using compact_one_db [of f now tj i db] by auto

lemma step_ok [inv_intros]: "step s t \<Longrightarrow> sys_ok s \<Longrightarrow> sys_ok t"
proof (induction rule: step.induct)
  case (index f i "is" now d cs s r db')
  then have "db' = snd (upsert_doc f i is now d cs (tables s))" by simp
  with index show ?case using upsert_doc_ok has_tomb_upsert by (auto simp: sys_ok_def)
next
  case (delete f ti now i s r db')
  then have "db' = snd (delete_doc f ti now i (tables s))" by simp
  with delete show ?case using delete_doc_ok has_tomb_delete by (auto simp: sys_ok_def)
next
  case (scan sh s ti i p)
  have "has_tomb (tables s) ti i"
    by (rule next_tomb_cases [OF scan(1), of "tables s"]) (use scan(2) pending_has_tomb in auto)
  with scan show ?case by (auto simp: sys_ok_def)
next
  case (clean s p ti i f now r db')
  then have "db' = snd (compact_one f now ti i (tables s))" by simp
  with clean show ?case using compact_one_ok has_tomb_clean by (auto simp: sys_ok_def)
qed

lemma steps_ok [inv_intros]: "steps s t \<Longrightarrow> sys_ok s \<Longrightarrow> sys_ok t"
  by (induction rule: steps.induct) (auto intro: step_ok)

section \<open>What a step does to the documents\<close>

lemma has_tomb_deleted: "db_ok db \<Longrightarrow> has_tomb db ti i \<Longrightarrow> is_deleted db i"
  using db_okD(7) by (auto simp: has_tomb_def list_ex_iff)

lemma view_compacted: "is_deleted db i \<Longrightarrow> view (compacted ti now i db) = view db"
  by (rule view_compacts [where D = "{i}"]) auto

lemma is_deleted_with_doc:
  "i \<notin> d_id ` set (docs db) \<Longrightarrow> is_deleted db j \<Longrightarrow> is_deleted (with_doc i is now d cs db) j"
  using doc_by_id_None [of db i] by (auto simp: is_deleted_def doc_by_id_with_doc split: option.splits)

lemma is_deleted_with_tomb: "is_deleted db j \<Longrightarrow> is_deleted (with_tomb ti now i db) j"
  by (auto simp: is_deleted_def doc_by_id_with_tomb doc_by_id_mark_deleted split: option.splits)

lemma deleted_with_tomb: "doc_by_id db i = Some d \<Longrightarrow> is_deleted (with_tomb ti now i db) i"
  by (simp add: is_deleted_def doc_by_id_with_tomb doc_by_id_mark_deleted)

lemma known_with_doc: "i \<notin> d_id ` set (docs db) \<Longrightarrow> view db i = None \<and> \<not> is_deleted db i"
  using doc_by_id_None [of db i] by (auto simp: view_def is_deleted_def)

text \<open>A step adds one unknown document, removes one, or leaves the visible documents alone.\<close>

lemma step_view:
  assumes "step s t" "sys_ok s"
  shows "view (tables t) = view (tables s)
     \<or> (\<exists>i x. view (tables s) i = None \<and> \<not> is_deleted (tables s) i \<and> view (tables t) = (view (tables s))(i \<mapsto> x))
     \<or> (\<exists>i. is_deleted (tables t) i \<and> view (tables t) = (view (tables s))(i := None))"
  using assms
proof (induction rule: step.induct)
  case (index f i "is" now d cs s r db')
  then have "db_ok (tables s)" by (simp add: sys_ok_def)
  with index have "db' = tables s \<or> i \<notin> d_id ` set (docs (tables s))
      \<and> view db' = (view (tables s))(i \<mapsto> (new_row i now d, chunk_rows is i cs))"
    using upsert_doc_db [of f i "is" now d cs "tables s"] view_with_doc [of "tables s" i] by auto
  then show ?case using known_with_doc [of i "tables s"] by (metis (no_types) select_convs(1) surjective update_convs(1))
next
  case (delete f ti now i s r db')
  then have "db_ok (tables s)" by (simp add: sys_ok_def)
  with delete have "db' = tables s \<or> is_deleted db' i \<and> view db' = (view (tables s))(i := None)"
    using delete_doc_db [of "tables s" f ti now i] view_with_tomb deleted_with_tomb by auto
  then show ?case by (metis (no_types) select_convs(1) surjective update_convs(1))
next
  case (clean s p ti i f now r db')
  then have "is_deleted (tables s) i" using has_tomb_deleted unfolding sys_ok_def by blast
  with clean show ?case
    using compact_one_db [of f now ti i "tables s"] view_compacted by auto
qed simp

lemma step_deleted:
  assumes "step s t" "sys_ok s" "is_deleted (tables s) j"
  shows "is_deleted (tables t) j"
  using assms
proof (induction rule: step.induct)
  case (index f i "is" now d cs s r db')
  then show ?case
    using upsert_doc_db [of f i "is" now d cs "tables s"] is_deleted_with_doc by auto
next
  case (delete f ti now i s r db')
  then have "db_ok (tables s)" by (simp add: sys_ok_def)
  with delete show ?case
    using delete_doc_db [of "tables s" f ti now i] is_deleted_with_tomb by auto
next
  case (clean s p ti i f now r db')
  then show ?case using compact_one_db [of f now ti i "tables s"] by auto
qed simp

lemma view_not_deleted: "is_deleted db i \<Longrightarrow> view db i = None"
  by (auto simp: is_deleted_def view_def live_def split: option.splits)

section \<open>Properties\<close>

text \<open>C9. In every state that servers and compactors can reach together from the empty database, with any
  interleaving and any failing round trips, the invariant of the tables holds.\<close>

theorem reachable_ok:
  assumes "steps start s"
  shows "db_ok (tables s)"
  using steps_ok [OF assms start_ok] by (simp add: sys_ok_def)

lemma ex_steps: "steps start (start\<lparr>tables := ex_db\<rparr>)"
proof (rule snoc [OF refl])
  show "step start (start\<lparr>tables := ex_db\<rparr>)"
    by (rule step.index [of no_faults 7 "[8]" 100 ex_doc ex_chunks]) (simp add: start_def ex_upsert)
qed

theorem reachable_ok_witness: "db_ok (tables (start\<lparr>tables := ex_db\<rparr>))"
  by (rule reachable_ok [OF ex_steps])

text \<open>C15. Compaction is invisible to clients at any time: no interleaving of scans and clean-ups of any
  number of compactors with indexing and deletion lets a clean-up step change a document, or a chunk
  of a document, that a client can see.\<close>

theorem clean_invisible:
  assumes "steps start s" "scanned s p = Some (ti, i)"
  shows "view (snd (compact_one f now ti i (tables s))) = view (tables s)"
proof -
  have ok: "sys_ok s" by (rule steps_ok [OF assms(1) start_ok])
  then have "is_deleted (tables s) i" using assms(2) has_tomb_deleted unfolding sys_ok_def by blast
  then show ?thesis using compact_one_db [of f now ti i "tables s"] view_compacted by metis
qed

lemma ex_steps_deleted: "steps start (start\<lparr>tables := with_tomb 3 200 7 ex_db\<rparr>)"
proof (rule snoc [OF ex_steps])
  have "step (start\<lparr>tables := ex_db\<rparr>) ((start\<lparr>tables := ex_db\<rparr>)\<lparr>tables := with_tomb 3 200 7 ex_db\<rparr>)"
    by (rule step.delete [of no_faults 3 200 7]) (simp add: ex_delete)
  then show "step (start\<lparr>tables := ex_db\<rparr>) (start\<lparr>tables := with_tomb 3 200 7 ex_db\<rparr>)" by simp
qed

lemma ex_steps_scanned:
  "steps start (start\<lparr>tables := with_tomb 3 200 7 ex_db, scanned := [0 \<mapsto> (3, 7)]\<rparr>)"
proof (rule snoc [OF ex_steps_deleted])
  let ?s = "start\<lparr>tables := with_tomb 3 200 7 ex_db\<rparr>"
  have "next_tomb (\<lambda>ts. ts) (tables ?s) = Inr (3, 7)"
    by (simp add: next_tomb_def pending_def with_tomb_def mark_deleted_def ex_db_def with_doc_def empty_db_def
        new_row_def is_deleted_def doc_by_id_def)
  from step.scan [OF reorders_id(1) this, of 0]
  show "step ?s (start\<lparr>tables := with_tomb 3 200 7 ex_db, scanned := [0 \<mapsto> (3, 7)]\<rparr>)"
    by (simp add: start_def)
qed

theorem clean_invisible_witness:
  "view (snd (compact_one no_faults 300 3 7 (with_tomb 3 200 7 ex_db))) = view (with_tomb 3 200 7 ex_db)"
  using clean_invisible [OF ex_steps_scanned, of 0 3 7 no_faults 300] by simp

text \<open>A deletion is final: once a document is deleted, no later step of any server or compactor makes
  it, or a part of it, visible again.\<close>

theorem deletion_final:
  assumes "steps start s" "is_deleted (tables s) i" "steps s t"
  shows "is_deleted (tables t) i \<and> view (tables t) i = None"
proof -
  have "sys_ok t \<and> is_deleted (tables t) i"
    using assms(3,2) steps_ok [OF assms(1) start_ok]
    by (induction rule: steps.induct) (auto intro: step_ok step_deleted)
  then show ?thesis using view_not_deleted by blast
qed

theorem deletion_final_witness: "view (tables (start\<lparr>tables := with_tomb 3 200 7 ex_db, scanned := [0 \<mapsto> (3, 7)]\<rparr>)) 7 = None"
proof -
  have "is_deleted (tables (start\<lparr>tables := with_tomb 3 200 7 ex_db, scanned := [0 \<mapsto> (3, 7)]\<rparr>)) 7"
    by (simp add: with_tomb_def mark_deleted_def ex_db_def with_doc_def empty_db_def new_row_def is_deleted_def doc_by_id_def)
  from deletion_final [OF ex_steps_scanned this steps.refl] show ?thesis by blast
qed

text \<open>A document is indexed whole and never changes: between any two moments at which a client can
  see it, its row and its chunks are the same.\<close>

theorem visible_unchanged:
  assumes "steps start s" "steps s t" "view (tables s) i = Some x" "view (tables t) i = Some y"
  shows "y = x"
proof -
  have "sys_ok t \<and> (view (tables t) i = Some x \<or> (view (tables t) i = None \<and> is_deleted (tables t) i))"
    using assms(2,3) steps_ok [OF assms(1) start_ok]
  proof (induction rule: steps.induct)
    case (snoc s t u)
    then have ok: "sys_ok t" and v: "view (tables t) i = Some x \<or> view (tables t) i = None \<and> is_deleted (tables t) i"
      by auto
    have "sys_ok u" by (rule step_ok [OF snoc(2) ok])
    moreover from v have "view (tables u) i = Some x \<or> (view (tables u) i = None \<and> is_deleted (tables u) i)"
    proof
      assume "view (tables t) i = None \<and> is_deleted (tables t) i"
      then show ?thesis using step_deleted [OF snoc(2) ok] view_not_deleted by blast
    next
      assume vt: "view (tables t) i = Some x"
      show ?thesis using step_view [OF snoc(2) ok] vt by (auto simp: fun_upd_apply split: if_splits)
    qed
    ultimately show ?case by blast
  qed simp
  then show ?thesis using assms(4) by auto
qed

theorem visible_unchanged_witness:
  "\<exists>x. view (tables (start\<lparr>tables := ex_db\<rparr>)) 7 = Some x
     \<and> (case view (tables (start\<lparr>tables := ex_db\<rparr>)) 7 of None \<Rightarrow> False | Some y \<Rightarrow> y = x)"
proof -
  obtain x where x: "view (tables (start\<lparr>tables := ex_db\<rparr>)) 7 = Some x"
    by (simp add: view_def ex_db_def with_doc_def empty_db_def new_row_def doc_by_id_def live_def)
  from visible_unchanged [OF ex_steps steps.refl x x] x show ?thesis by simp
qed

end
