(* ===== verification/Api_Sessions.thy ===== *)
theory Api_Sessions
  imports Api_Flows Store_Steps
begin

text \<open>
  Sessions: any number of requests to the service, one after another, each with failures of its own. The
  abstract service is a catalogue of the documents that are shown and of those that are gone. Every request
  refines one step of the catalogue, and what a session promises its clients follows from the steps.
\<close>

section \<open>The catalogue\<close>

record catalog =
  ct_shown :: "uuid \<Rightarrow> doc option"
  ct_gone :: "uuid \<Rightarrow> bool"

definition catalog_of :: "db \<Rightarrow> catalog" where
  "catalog_of db = \<lparr>ct_shown = shown_docs db, ct_gone = is_deleted db\<rparr>"

definition add_doc :: "uuid \<Rightarrow> doc \<Rightarrow> catalog \<Rightarrow> catalog" where
  "add_doc i x c = c\<lparr>ct_shown := (ct_shown c)(i \<mapsto> x)\<rparr>"

definition drop_doc :: "uuid \<Rightarrow> catalog \<Rightarrow> catalog" where
  "drop_doc i c = \<lparr>ct_shown = (ct_shown c)(i := None), ct_gone = (ct_gone c)(i := True)\<rparr>"

text \<open>What a request may do to the catalogue: indexing may add one document that is not known yet, a deletion
  may drop the document it names, and nothing else changes anything.\<close>

inductive effect :: "(endpoint \<times> uuid option) option \<Rightarrow> catalog \<Rightarrow> catalog \<Rightarrow> bool" where
  keep: "effect r c c"
| add: "ct_shown c i = None \<Longrightarrow> \<not> ct_gone c i \<Longrightarrow> d_id x = i \<Longrightarrow> effect (Some (Index_E, v)) c (add_doc i x c)"
| drop: "ct_shown c i \<noteq> None \<Longrightarrow> effect (Some (Delete_E, Some i)) c (drop_doc i c)"

inductive_cases effect_cases: "effect r c c'"

definition target :: "env \<Rightarrow> request \<Rightarrow> (endpoint \<times> uuid option) option" where
  "target en rq = map_option (\<lambda>(e, v). (e, parse_uuid en v)) (find_route (rq_method rq) (rq_path rq))"

lemma effect_gone: "effect r c c' \<Longrightarrow> ct_gone c i \<Longrightarrow> ct_gone c' i"
  by (auto elim!: effect_cases simp: add_doc_def drop_doc_def)

lemma effect_shown: "effect r c c' \<Longrightarrow> ct_shown c i = Some x \<Longrightarrow> r \<noteq> Some (Delete_E, Some i) \<Longrightarrow> ct_shown c' i = Some x"
  by (auto elim!: effect_cases simp: add_doc_def drop_doc_def split: if_splits)

section \<open>What the handlers do to the tables\<close>

lemma with_doc_effect:
  assumes "db_ok db" "i \<notin> d_id ` set (docs db)"
  shows "effect (Some (Index_E, v)) (catalog_of db) (catalog_of (with_doc i is now d cs db))"
proof -
  have shown: "shown_docs (with_doc i is now d cs db) = (shown_docs db)(i \<mapsto> new_row i now d)"
    by (auto simp: shown_docs_def view_with_doc [OF assms])
  have gone: "is_deleted (with_doc i is now d cs db) = is_deleted db"
    using doc_by_id_None [of db i] assms(2)
    by (auto simp: fun_eq_iff is_deleted_def doc_by_id_with_doc [OF assms(2)] new_row_def split: option.split)
  have "catalog_of (with_doc i is now d cs db) = add_doc i (new_row i now d) (catalog_of db)"
    by (simp add: catalog_of_def add_doc_def shown gone)
  moreover have "effect (Some (Index_E, v)) (catalog_of db) (add_doc i (new_row i now d) (catalog_of db))"
    by (rule effect.add) (use known_with_doc [OF assms(2)] in \<open>simp_all add: catalog_of_def shown_docs_def new_row_def\<close>)
  ultimately show ?thesis by simp
qed

lemma with_tomb_effect:
  assumes "doc_by_id db i = Some d" "live d"
  shows "effect (Some (Delete_E, Some i)) (catalog_of db) (catalog_of (with_tomb ti now i db))"
proof -
  have shown: "shown_docs (with_tomb ti now i db) = (shown_docs db)(i := None)"
    by (auto simp: shown_docs_def view_with_tomb)
  have gone: "is_deleted (with_tomb ti now i db) = (is_deleted db)(i := True)"
    using assms by (auto simp: fun_eq_iff is_deleted_def doc_by_id_with_tomb doc_by_id_mark_deleted split: option.split)
  have "catalog_of (with_tomb ti now i db) = drop_doc i (catalog_of db)"
    by (simp add: catalog_of_def drop_doc_def shown gone)
  moreover have "effect (Some (Delete_E, Some i)) (catalog_of db) (drop_doc i (catalog_of db))"
    by (rule effect.drop) (use assms in \<open>simp add: catalog_of_def shown_docs_def view_def\<close>)
  ultimately show ?thesis by simp
qed

lemma compacts_catalog: "compacts_to res db r e db' \<Longrightarrow> catalog_of db' = catalog_of db"
  using view_compacts [of db' db]
  by (auto simp: compacts_to_def catalog_of_def shown_docs_def is_deleted_def doc_by_id_def fun_eq_iff)

text \<open>The state a handler leaves, whether it returns or panics.\<close>

definition leaves :: "('p, 's) outcome \<Rightarrow> 's \<Rightarrow> bool" where
  "leaves out s \<longleftrightarrow> (case out of Returned w s' \<Rightarrow> s' = s | Panicked w s' \<Rightarrow> s' = s | Hangs \<Rightarrow> False)"

lemma index_leaves:
  "leaves (handle_index en sv rq w s) s' \<Longrightarrow> s' = s \<or> (\<exists>d cs. s' = snd (ds_upsert (sv_store sv) d cs s))"
  by (auto simp: leaves_def handle_index_def Let_def split: option.splits sum.splits prod.splits if_splits)
    (metis snd_conv)+

lemma delete_leaves:
  "leaves (handle_delete_doc en sv v rq w s) s' \<Longrightarrow>
     s' = s \<or> (\<exists>i. parse_uuid en v = Some i \<and> s' = snd (ds_delete (sv_store sv) i s))"
  by (auto simp: leaves_def handle_delete_doc_def split: option.splits prod.splits if_splits)

lemma read_leaves:
  "e \<in> {Get_E, List_E, Query_E, Health_E} \<Longrightarrow> leaves (dispatch en sv e v rq w s) s' \<Longrightarrow> s' = s"
  by (auto simp: leaves_def dispatch_def handle_get_doc_def handle_list_docs_def handle_query_def handle_health_def Let_def
      split: option.splits sum.splits if_splits)

lemma dispatch_effect:
  assumes "db_ok db" "sane io" "leaves (dispatch en (new_server en g emb r io) e v rq w db) db'"
  shows "effect (Some (e, parse_uuid en v)) (catalog_of db) (catalog_of db')"
proof (cases e)
  case Index_E
  with assms(3) index_leaves obtain d cs where
    "db' = db \<or> db' = snd (upsert_doc (io_fault io) (io_id io) (io_ids io) (io_now io) d cs db)"
    by (force simp: dispatch_def)
  with upsert_doc_db [of "io_fault io" "io_id io" "io_ids io" "io_now io" d cs db] with_doc_effect [OF assms(1)] Index_E
  show ?thesis by (auto intro: effect.keep)
next
  case Delete_E
  with assms(3) delete_leaves consider "db' = db" | i where "parse_uuid en v = Some i"
    "db' = snd (delete_doc (io_fault io) (io_tomb io) (io_now io) i db)"
    by (force simp: dispatch_def)
  then show ?thesis
  proof cases
    case (2 i)
    with delete_doc_db [OF assms(1), of "io_fault io" "io_tomb io" "io_now io" i] with_tomb_effect Delete_E
    show ?thesis by (auto intro: effect.keep)
  qed (auto intro: effect.keep)
next
  case Compact_E
  have s: "reorders (io_scan io)" "honest (io_pass io)" using assms(2) by (simp_all add: sane_def)
  from compact_loop_spec [OF s assms(1), of "io_now io" 0 "\<lparr>res_tombs = 0, res_chunks = 0\<rparr>"]
  obtain res err db1 where c: "compact (io_scan io) (io_pass io) (io_now io) 0 db = Some (res, err, db1)"
    "compacts_to \<lparr>res_tombs = 0, res_chunks = 0\<rparr> db res err db1" unfolding compact_def by blast
  then have "db' = db1"
    using assms(3) Compact_E by (cases err) (auto simp: leaves_def dispatch_def handle_compact_def pg_store_def)
  with compacts_catalog [OF c(2)] show ?thesis by (simp add: effect.keep)
qed (use read_leaves [OF _ assms(3)] in \<open>auto intro: effect.keep\<close>)

lemma serve_leaves:
  "serve en sv rand8 rq fresh_writer s = Returned w s' \<Longrightarrow> find_route (rq_method rq) (rq_path rq) = Some (e, v) \<Longrightarrow>
     leaves (dispatch en sv e v (tagged rand8 rq) (opened rand8 rq) s) s'"
  by (auto simp: serve_mux mux_def leaves_def split: outcome.splits)

lemma serve_effect:
  assumes "db_ok db" "sane io" "serve en (new_server en g emb r io) rand8 rq fresh_writer db = Returned w db'"
  shows "effect (target en rq) (catalog_of db) (catalog_of db')"
proof (cases "find_route (rq_method rq) (rq_path rq)")
  case None
  with assms(3) show ?thesis by (auto simp: serve_mux mux_def intro: effect.keep)
next
  case (Some p)
  then obtain e v where ev: "find_route (rq_method rq) (rq_path rq) = Some (e, v)" by (cases p) auto
  from dispatch_effect [OF assms(1,2) serve_leaves [OF assms(3) ev]] ev show ?thesis by (simp add: target_def)
qed

section \<open>What a reply shows\<close>

fun shows_doc :: "gostring \<Rightarrow> payload \<Rightarrow> bool" where
  "shows_doc t (Doc_Resp i src ti b h created) = (i = t)"
| "shows_doc t (Query_Resp rs) = list_ex (\<lambda>r. r_doc r = t) rs"
| "shows_doc t (List_Resp items tok) = list_ex (\<lambda>x. li_id x = t) items"
| "shows_doc t _ = False"

definition exhibits :: "gostring \<Rightarrow> payload writer \<Rightarrow> bool" where
  "exhibits t w \<longleftrightarrow> list_ex (\<lambda>b. case b of Payload p \<Rightarrow> shows_doc t p | _ \<Rightarrow> False) (w_body w)"

lemma exhibits_simps [simp]:
  "exhibits t (fail rq e w) = exhibits t w" "exhibits t (write_error rid err w) = exhibits t w" "\<not> exhibits t (opened rand8 rq)"
  "exhibits t (reply_ok en p w) = (exhibits t w \<or> (encodable (time_ok en) p \<and> shows_doc t p))"
  "exhibits t (no_route path w) = exhibits t w"
  by (auto simp: exhibits_def write_error_def Let_def no_route_def http_error_def)

lemma deleted_not_live: "db_ok db \<Longrightarrow> is_deleted db i \<Longrightarrow> x \<in> set (docs db) \<Longrightarrow> live x \<Longrightarrow> d_id x \<noteq> i"
  using doc_by_id_iff [of db i x] by (auto simp: is_deleted_def live_def)

lemma list_docs_live: "list_docs f t j n db = Inr ds \<Longrightarrow> x \<in> set ds \<Longrightarrow> x \<in> set (docs db) \<and> live x"
  by (auto simp: list_docs_def call_def Let_def split: fault.splits if_splits dest!: in_set_takeD)

definition wild :: "io \<Rightarrow> bool" where
  "wild io \<longleftrightarrow> sane io \<and> reorders (io_lists io) \<and> reorders (io_scores io)"

lemma get_quiet:
  assumes "db_ok db" "env_ok en" "is_deleted db i" "\<not> exhibits (uuid_text en i) w"
    and "handle_get_doc en (new_server en g emb r io) v rq w db = Returned w' db'"
  shows "\<not> exhibits (uuid_text en i) w'"
proof -
  have "d_id d \<noteq> i" if "get_doc f j db = Inr d" for f j d
  proof -
    from that have "doc_by_id db j = Some d" "live d"
      by (auto simp: get_doc_def call_def live_def split: fault.splits option.splits if_splits)
    then show ?thesis using deleted_not_live [OF assms(1,3)] doc_by_id_iff [OF assms(1)] by blast
  qed
  then show ?thesis
    using assms(4,5) env_ok_inj [OF assms(2)] by (auto simp: handle_get_doc_def inj_eq split: option.splits sum.splits if_splits)
qed

lemma list_quiet:
  assumes "db_ok db" "env_ok en" "is_deleted db i" "\<not> exhibits (uuid_text en i) w"
    and "handle_list_docs en (new_server en g emb r io) rq w db = Returned w' db'"
  shows "\<not> exhibits (uuid_text en i) w'"
proof -
  have "\<not> list_ex (\<lambda>x. li_id x = uuid_text en i) (map (item_of en) ds)" if "list_docs f t j n db = Inr ds" for f t j n ds
    using list_docs_live [OF that] deleted_not_live [OF assms(1,3)] env_ok_inj [OF assms(2)]
    by (auto simp: list_ex_iff item_of_def inj_eq)
  then show ?thesis using assms(4,5) by (auto simp: handle_list_docs_def split: option.splits sum.splits)
qed

lemma query_quiet:
  assumes "db_ok db" "env_ok en" "scans g" "numeric g" "sound_reranker (engine_for r)" "wild io" "is_deleted db i"
    and "handle_query en (new_server en g emb r io) (tagged rand8 rq) (opened rand8 rq) db = Returned w' db'"
  shows "\<not> exhibits (uuid_text en i) w'"
proof
  assume "exhibits (uuid_text en i) w'"
  with assms(8) obtain rs where rs: "w_body w' = [Payload (Query_Resp rs)]" "list_ex (\<lambda>x. r_doc x = uuid_text en i) rs"
    by (auto simp: handle_query_def Let_def split: option.splits sum.splits if_splits)
  have "answers_visible (chunk_visible db) (uuid_text en) 100 rs"
    using query_shows_visible [OF assms(1-5) _ _ assms(8) _ rs(1)] assms(6) by (simp add: wild_def)
  moreover from rs(2) obtain x where x: "x \<in> set rs" "r_doc x = uuid_text en i" by (auto simp: list_ex_iff)
  ultimately obtain c d t where v: "r_doc x = uuid_text en d" "chunk_visible db c d t"
    unfolding answers_visible_def list_all_iff by blast
  from v(1) x(2) have "d = i" using env_ok_inj [OF assms(2)] by (simp add: inj_eq)
  with v(2) show False using view_not_deleted [OF assms(7)] by (simp add: chunk_visible_def list_ex_iff)
qed

lemma serve_quiet:
  assumes "db_ok db" "env_ok en" "scans g" "numeric g" "sound_reranker (engine_for r)" "wild io" "is_deleted db i"
    and "serve en (new_server en g emb r io) rand8 rq fresh_writer db = Returned w db'"
  shows "\<not> exhibits (uuid_text en i) w"
proof (cases "find_route (rq_method rq) (rq_path rq)")
  case None
  with assms(8) show ?thesis by (auto simp: serve_mux mux_def)
next
  case (Some p)
  then obtain e v where ev: "find_route (rq_method rq) (rq_path rq) = Some (e, v)" by (cases p) auto
  let ?o = "dispatch en (new_server en g emb r io) e v (tagged rand8 rq) (opened rand8 rq) db"
  have "\<not> exhibits (uuid_text en i) w'" if o: "?o = Returned w' s' \<or> ?o = Panicked w' s'" for w' s'
  proof (cases e)
    case Index_E
    with o show ?thesis
      by (auto simp: dispatch_def handle_index_def Let_def split: option.splits sum.splits prod.splits if_splits)
  next
    case Query_E
    with o have "handle_query en (new_server en g emb r io) (tagged rand8 rq) (opened rand8 rq) db = Returned w' s'"
      by (simp add: dispatch_def handle_query_no_panic)
    from query_quiet [OF assms(1-7) this] show ?thesis .
  next
    case Get_E
    with o have "handle_get_doc en (new_server en g emb r io) v (tagged rand8 rq) (opened rand8 rq) db = Returned w' s'"
      by (auto simp: dispatch_def handle_get_doc_def split: option.splits sum.splits if_splits)
    from get_quiet [OF assms(1,2,7) _ this] show ?thesis by simp
  next
    case List_E
    with o have "handle_list_docs en (new_server en g emb r io) (tagged rand8 rq) (opened rand8 rq) db = Returned w' s'"
      by (auto simp: dispatch_def handle_list_docs_def split: option.splits sum.splits if_splits)
    from list_quiet [OF assms(1,2,7) _ this] show ?thesis by simp
  next
    case Delete_E
    with o show ?thesis by (auto simp: dispatch_def handle_delete_doc_def split: option.splits prod.splits if_splits)
  next
    case Compact_E
    with o show ?thesis by (auto simp: dispatch_def handle_compact_def split: option.splits prod.splits)
  next
    case Health_E
    with o show ?thesis by (auto simp: dispatch_def handle_health_def)
  qed
  then show ?thesis using assms(8) ev by (auto simp: serve_mux mux_def split: outcome.splits)
qed

section \<open>Sessions\<close>

text \<open>Requests one after another, each with what the database, the clock and the maps decide while it runs and
  with the random bytes of its id.\<close>

fun serve_all :: "env \<Rightarrow> (io \<Rightarrow> 's server) \<Rightarrow> (io \<times> gostring \<times> request) list \<Rightarrow> 's \<Rightarrow> (payload writer list \<times> 's) option" where
  "serve_all en sv [] s = Some ([], s)"
| "serve_all en sv ((io, rand8, rq) # rest) s =
     (case serve en (sv io) rand8 rq fresh_writer s of
        Returned w s' \<Rightarrow> map_option (\<lambda>(ws, s''). (w # ws, s'')) (serve_all en sv rest s')
      | _ \<Rightarrow> None)"

definition wild_session :: "(io \<times> gostring \<times> request) list \<Rightarrow> bool" where
  "wild_session reqs \<longleftrightarrow> list_all (\<lambda>(io, rand8, rq). wild io \<and> rand8 \<noteq> []) reqs"

lemma serve_ok:
  assumes "db_ok db" "sane io" "serve en (new_server en g emb r io) rand8 rq fresh_writer db = Returned w db'"
  shows "db_ok db'"
proof (cases "find_route (rq_method rq) (rq_path rq)")
  case None
  with assms show ?thesis by (auto simp: serve_mux mux_def)
next
  case (Some p)
  then obtain e v where ev: "find_route (rq_method rq) (rq_path rq) = Some (e, v)" by (cases p) auto
  note l = serve_leaves [OF assms(3) ev]
  consider "e = Index_E" | "e = Delete_E" | "e = Compact_E" | "e \<in> {Get_E, List_E, Query_E, Health_E}" by (cases e) auto
  then show ?thesis
  proof cases
    case 1
    with l index_leaves have "db' = db \<or> (\<exists>d cs. db' = snd (upsert_doc (io_fault io) (io_id io) (io_ids io) (io_now io) d cs db))"
      by (force simp: dispatch_def)
    with upsert_doc_ok [OF assms(1)] assms(1) show ?thesis by blast
  next
    case 2
    with l delete_leaves have "db' = db \<or> (\<exists>i. db' = snd (delete_doc (io_fault io) (io_tomb io) (io_now io) i db))"
      by (force simp: dispatch_def)
    with delete_doc_ok [OF assms(1)] assms(1) show ?thesis by blast
  next
    case 3
    have s: "reorders (io_scan io)" "honest (io_pass io)" using assms(2) by (simp_all add: sane_def)
    from compact_loop_spec [OF s assms(1), of "io_now io" 0 "\<lparr>res_tombs = 0, res_chunks = 0\<rparr>"]
    obtain res err db1 where c: "compact (io_scan io) (io_pass io) (io_now io) 0 db = Some (res, err, db1)" "db_ok db1"
      unfolding compact_def compacts_to_def by blast
    with l 3 show ?thesis by (cases err) (auto simp: leaves_def dispatch_def handle_compact_def pg_store_def)
  qed (use read_leaves [OF _ l] assms(1) in blast)
qed

text \<open>C1. Every session is answered request by request: from well-formed tables, whatever fails on the way, no
  request of any sequence hangs or goes without a reply. To a route of the service exactly one status line
  is sent, with the JSON content type and the request's id (the client's own or a new one), and under an
  error status the body is one envelope with that id, retryable exactly for 503; any other path or method
  gets the plain 404 or 405 of the standard library. The tables are well formed after the last request.\<close>

theorem session_replies:
  assumes "db_ok db" "wild_session reqs"
  shows "\<exists>ws db'. serve_all en (new_server en g (client_embed send decode) r) reqs db = Some (ws, db') \<and> db_ok db'
    \<and> list_all2 (\<lambda>(io, rand8, rq) w.
        case find_route (rq_method rq) (rq_path rq) of
          None \<Rightarrow> w = no_route (rq_path rq) (opened rand8 rq)
        | Some _ \<Rightarrow> replied (rid_of rand8 rq) w) reqs ws"
  using assms
proof (induction reqs arbitrary: db)
  case (Cons q reqs)
  obtain io rand8 rq where q: "q = (io, rand8, rq)" by (cases q)
  with Cons.prems have s: "sane io" "rand8 \<noteq> []" by (simp_all add: wild_session_def wild_def)
  from serve_replies [OF Cons.prems(1) s] obtain w db1 where
    "serve en (new_server en g (client_embed send decode) r io) rand8 rq fresh_writer db = Returned w db1" "db_ok db1"
    "case find_route (rq_method rq) (rq_path rq) of
       None \<Rightarrow> w = no_route (rq_path rq) (opened rand8 rq) \<and> db1 = db | Some _ \<Rightarrow> replied (rid_of rand8 rq) w" by blast
  moreover from Cons.IH [OF this(2)] Cons.prems(2) obtain ws db2 where
    "serve_all en (new_server en g (client_embed send decode) r) reqs db1 = Some (ws, db2)" "db_ok db2"
    "list_all2 (\<lambda>(io, rand8, rq) w.
        case find_route (rq_method rq) (rq_path rq) of
          None \<Rightarrow> w = no_route (rq_path rq) (opened rand8 rq)
        | Some _ \<Rightarrow> replied (rid_of rand8 rq) w) reqs ws" by (auto simp: wild_session_def)
  ultimately show ?case using q by (auto split: option.splits)
qed simp

text \<open>C3. The service refines the catalogue: whatever request is answered, and whatever fails meanwhile, the
  documents shown and gone after it are those before it, but for one document not known before that
  \<open>POST /v1/index\<close> may have added, or the one a \<open>DELETE\<close> names and dropped.\<close>

theorem serve_refines_catalog:
  assumes "db_ok db" "sane io"
    and "serve en (new_server en g emb r io) rand8 rq fresh_writer db = Returned w db'"
  shows "effect (target en rq) (catalog_of db) (catalog_of db')"
  using serve_effect [OF assms] .

lemma session_gone:
  assumes "db_ok db" "env_ok en" "scans g" "numeric g" "sound_reranker (engine_for r)" "wild_session reqs"
    and "serve_all en (new_server en g emb r) reqs db = Some (ws, db')" "is_deleted db i"
  shows "list_all (\<lambda>w. \<not> exhibits (uuid_text en i) w) ws \<and> is_deleted db' i"
  using assms(1,6-8)
proof (induction reqs arbitrary: db ws)
  case (Cons q reqs)
  obtain io rand8 rq where q: "q = (io, rand8, rq)" by (cases q)
  with Cons.prems have s: "wild io" "wild_session reqs" by (simp_all add: wild_session_def)
  then have sane: "sane io" by (simp add: wild_def)
  from Cons.prems(3) q obtain w db1 ws1 where step: "serve en (new_server en g emb r io) rand8 rq fresh_writer db = Returned w db1"
    and rest: "serve_all en (new_server en g emb r) reqs db1 = Some (ws1, db')" "ws = w # ws1"
    by (auto split: outcome.splits)
  have "is_deleted db1 i"
    using effect_gone [OF serve_effect [OF Cons.prems(1) sane step], of i] Cons.prems(4) by (simp add: catalog_of_def)
  from Cons.IH [OF serve_ok [OF Cons.prems(1) sane step] s(2) rest(1) this]
    serve_quiet [OF Cons.prems(1) assms(2-5) s(1) Cons.prems(4) step] rest(2) show ?case by simp
qed simp

lemma session_keeps:
  assumes "db_ok db" "wild_session reqs"
    and "list_all (\<lambda>(io, rand8, rq). target en rq \<noteq> Some (Delete_E, Some i)) reqs"
    and "serve_all en (new_server en g emb r) reqs db = Some (ws, db')" "shown_docs db i = Some x"
  shows "shown_docs db' i = Some x"
  using assms
proof (induction reqs arbitrary: db ws)
  case (Cons q reqs)
  obtain io rand8 rq where q: "q = (io, rand8, rq)" by (cases q)
  with Cons.prems have s: "sane io" "wild_session reqs" "target en rq \<noteq> Some (Delete_E, Some i)"
    by (simp_all add: wild_session_def wild_def)
  from Cons.prems(4) q obtain w db1 ws1 where step: "serve en (new_server en g emb r io) rand8 rq fresh_writer db = Returned w db1"
    and rest: "serve_all en (new_server en g emb r) reqs db1 = Some (ws1, db')"
    by (auto split: outcome.splits)
  have "shown_docs db1 i = Some x"
    using effect_shown [OF serve_effect [OF Cons.prems(1) s(1) step] _ s(3)] Cons.prems(5) by (simp add: catalog_of_def)
  with Cons.IH [OF serve_ok [OF Cons.prems(1) s(1) step] s(2) _ rest] Cons.prems(3) show ?case by simp
qed simp

lemma delete_answered:
  assumes "db_ok db" "env_ok en" "sane io"
    and "rq_method rq = str ''DELETE''" "rq_path rq = [v1, str ''docs'', uuid_text en i]"
    and "serve en (new_server en g emb r io) rand8 rq fresh_writer db = Returned w db'" "w_body w = [Payload p]"
  shows "db_ok db' \<and> is_deleted db' i"
proof -
  note ne = env_okD(2) [OF assms(2), of i]
  from assms(6) handle_delete_ok [of en "new_server en g emb r io" "uuid_text en i" "tagged rand8 rq" "opened rand8 rq" db w db' p]
  have "delete_doc (io_fault io) (io_tomb io) (io_now io) i db = (None, db')"
    using assms(7) env_okD(1) [OF assms(2), of i] by (auto simp: serve_delete [OF ne assms(4,5)])
  from delete_doc_None [OF assms(1) this] have s: "shown_docs db i \<noteq> None" "shown_docs db' i = None" by auto
  have "ct_gone (catalog_of db') i"
    using serve_effect [OF assms(1,3,6)] s by (auto elim!: effect_cases simp: add_doc_def drop_doc_def catalog_of_def fun_eq_iff split: if_splits)
  with serve_ok [OF assms(1,3,6)] show ?thesis by (simp add: catalog_of_def)
qed

text \<open>C2. A deleted document never comes back: once a \<open>DELETE\<close> has been answered with "deleted", no reply to any
  later request of a session (lookups, listings, queries in any mode and with any reranker, among requests
  that index, delete and compact) shows the document.\<close>

theorem deleted_never_shown:
  assumes "db_ok db" "env_ok en" "scans g" "numeric g" "sound_reranker (engine_for r)" "sane io"
    and "rq_method rq = str ''DELETE''" "rq_path rq = [v1, str ''docs'', uuid_text en i]"
    and "serve en (new_server en g emb r io) rand8 rq fresh_writer db = Returned w db1" "w_body w = [Payload p]"
    and "wild_session reqs" "serve_all en (new_server en g emb r) reqs db1 = Some (ws, db2)"
  shows "list_all (\<lambda>w. \<not> exhibits (uuid_text en i) w) ws"
  using session_gone [OF _ assms(2-5,11,12)] delete_answered [OF assms(1,2,6-10)] by blast

text \<open>What was indexed stays until it is deleted: after an answer to \<open>POST /v1/index\<close> that names a new
  document, and any session without a \<open>DELETE\<close> of its id, a lookup of the id in the answer returns the trimmed
  source and title, the body as it was sent, its hash and the time of the insert.\<close>

lemma indexed_stays:
  assumes "db_ok db" "env_ok en" "sane io"
    and "rq_method rq = str ''POST''" "rq_path rq = [v1, str ''index'']"
    and "serve en (new_server en g emb r io) rand8 rq fresh_writer db = Returned w db1"
    and "w_body w = [Payload (Index_Resp (uuid_text en i) n False)]"
    and "wild_session reqs" "list_all (\<lambda>(io, rand8, rq). target en rq \<noteq> Some (Delete_E, Some i)) reqs"
    and "serve_all en (new_server en g emb r) reqs db1 = Some (ws, db2)"
    and "rq_method rq' = str ''GET''" "rq_path rq' = [v1, str ''docs'', uuid_text en i]" "io_fault io' 0 = NoFault"
  shows "\<exists>req. dec_index en (rq_body rq) = Some req
    \<and> serve en (new_server en g emb r io') rand8' rq' fresh_writer db2 = Returned
        (reply_ok en (Doc_Resp (uuid_text en i) (trim_space (ir_source req)) (trim_space (ir_title req)) (ir_body req)
                        (hex_encode (sha256 en (ir_body req))) (io_now io)) (opened rand8' rq')) db2"
proof -
  from index_created [OF assms(1,4-7)] obtain req j where c: "dec_index en (rq_body rq) = Some req"
    "uuid_text en i = uuid_text en j" "db_ok db1" "shown_docs db1 j = Some (new_row j (io_now io)
        (store_doc en (trim_space (ir_source req)) (trim_space (ir_title req)) (ir_body req)))" by blast
  then have "j = i" using env_ok_inj [OF assms(2)] by (simp add: inj_eq)
  from session_keeps [OF c(3) assms(8,9,10)] c(4) this
  have "shown_docs db2 i = Some (new_row i (io_now io)
      (store_doc en (trim_space (ir_source req)) (trim_space (ir_title req)) (ir_body req)))" by simp
  then show ?thesis
    using c(1) serve_get_doc [OF assms(2,11-13), of g emb r rand8' db2] by (auto simp: new_row_def store_doc_def)
qed

section \<open>Concrete sessions\<close>

lemma ex_io_wild [simp]: "wild ex_io" "io_fault ex_io 0 = NoFault"
  by (simp_all add: wild_def) (simp_all add: ex_io_def)

abbreviation ex_get :: "uuid \<Rightarrow> request" where
  "ex_get i \<equiv> ex_request ''GET'' [v1, str ''docs'', uuid_text ex_env i] []"

abbreviation ex_query_b :: request where
  "ex_query_b \<equiv> ex_request ''POST'' [v1, str ''query''] (str ''b'')"

lemma ex_get_target: "target ex_env (ex_get i) = Some (Get_E, Some i)"
  using env_okD(1,2) [OF ex_env_ok, of i] by (simp add: target_def find_route_simps del: str_Cons)

theorem session_replies_witness:
  "\<exists>ws db'. serve_all ex_env (new_server ex_env ex_pg (client_embed (\<lambda>ts. Response 500 []) (\<lambda>b. Inl ErrNoRows)) None)
      [(ex_io, [1], ex_post), (ex_io, [2], ex_get 7)] ex_db = Some (ws, db') \<and> length ws = 2"
proof -
  have "wild_session [(ex_io, [1], ex_post), (ex_io, [2], ex_get 7)]" by (simp add: wild_session_def)
  from session_replies [OF ex_db_ok this, of ex_env ex_pg "\<lambda>ts. Response 500 []" "\<lambda>b. Inl ErrNoRows" None]
  obtain ws :: "payload writer list" and db' where "serve_all ex_env (new_server ex_env ex_pg (client_embed (\<lambda>ts. Response 500 []) (\<lambda>b. Inl ErrNoRows)) None)
      [(ex_io, [1], ex_post), (ex_io, [2], ex_get 7)] ex_db = Some (ws, db')" "length ws = 2"
    by (auto dest: list_all2_lengthD)
  then show ?thesis by blast
qed

theorem serve_refines_catalog_witness:
  "effect (Some (Delete_E, Some 7)) (catalog_of ex_db) (catalog_of (with_tomb 3 500 7 ex_db))"
proof -
  have "target ex_env (ex_request ''DELETE'' [v1, str ''docs'', uuid_text ex_env 7] []) = Some (Delete_E, Some 7)"
    using env_okD(1,2) [OF ex_env_ok, of 7] by (simp add: target_def find_route_simps del: str_Cons)
  with serve_refines_catalog [OF ex_db_ok ex_io_sane ex_served_delete] show ?thesis by simp
qed

lemma ex_deleted_session:
  "\<exists>ws. serve_all ex_env (new_server ex_env ex_pg ex_emb None) [(ex_io, [1], ex_query_b), (ex_io, [2], ex_get 7)]
     (with_tomb 3 500 7 ex_db) = Some (ws, with_tomb 3 500 7 ex_db)"
  using serve_get_doc [OF ex_env_ok, of "ex_get 7" 7 ex_io ex_pg ex_emb None "[2]" "with_tomb 3 500 7 ex_db"] ex_served_query
  by simp

theorem deleted_never_shown_witness:
  "\<exists>ws. serve_all ex_env (new_server ex_env ex_pg ex_emb None) [(ex_io, [1], ex_query_b), (ex_io, [2], ex_get 7)]
     (with_tomb 3 500 7 ex_db) = Some (ws, with_tomb 3 500 7 ex_db) \<and> list_all (\<lambda>w. \<not> exhibits (uuid_text ex_env 7) w) ws"
proof -
  obtain ws where ws: "serve_all ex_env (new_server ex_env ex_pg ex_emb None) [(ex_io, [1], ex_query_b), (ex_io, [2], ex_get 7)]
     (with_tomb 3 500 7 ex_db) = Some (ws, with_tomb 3 500 7 ex_db)" using ex_deleted_session by blast
  have s: "sound_reranker (engine_for None)" by (simp add: sound_reranker_def engine_for_def new_engine_def)
  have m: "rq_method (ex_request ''DELETE'' [v1, str ''docs'', uuid_text ex_env 7] []) = str ''DELETE''"
    "rq_path (ex_request ''DELETE'' [v1, str ''docs'', uuid_text ex_env 7] []) = [v1, str ''docs'', uuid_text ex_env 7]" by simp_all
  have b: "w_body (reply_ok ex_env (Deleted_Resp (uuid_text ex_env 7) True)
      (opened [1] (ex_request ''DELETE'' [v1, str ''docs'', uuid_text ex_env 7] []))) = [Payload (Deleted_Resp (uuid_text ex_env 7) True)]"
    by simp
  have w: "wild_session [(ex_io, [1], ex_query_b), (ex_io, [2], ex_get 7)]" by (simp add: wild_session_def)
  from deleted_never_shown [OF ex_db_ok ex_env_ok ex_pg_ok s ex_io_sane m ex_served_delete b w ws] ws show ?thesis by blast
qed

end
