(* ===== verification/Api_Json.thy ===== *)
theory Api_Json
  imports Api Sha256
begin

text \<open>
  The bytes on the wire of \<open>internal/api\<close>: the JSON of every request and reply type, from the field tags of
  \<open>errors.go\<close> and \<open>handlers.go\<close>, and \<open>go_env\<close>, the environment of the handlers made of Go's standard library (JSON,
  SHA-256, times). Left open are the local zone, the text of a uuid (\<open>google/uuid\<close>) and which runes are
  printable. The lemmas: a client reads every envelope and every document back as they were, and
  nothing that is not UTF-8 comes out of a request body.
\<close>

section \<open>Requests\<close>

text \<open>\<open>json.NewDecoder(r.Body).Decode(&req)\<close>.\<close>

definition decode_index :: "gostring \<Rightarrow> index_req option" where
  "decode_index b = do {
     j \<leftarrow> json_decode b;
     fs \<leftarrow> members j;
     s \<leftarrow> field ''source'' into_string [] fs;
     t \<leftarrow> field ''title'' into_string [] fs;
     x \<leftarrow> field ''body'' into_string [] fs;
     Some \<lparr>ir_source = s, ir_title = t, ir_body = x\<rparr>
   }"

definition decode_query :: "gostring \<Rightarrow> query_req option" where
  "decode_query b = do {
     j \<leftarrow> json_decode b;
     fs \<leftarrow> members j;
     q \<leftarrow> field ''q'' into_string [] fs;
     k \<leftarrow> field ''k'' into_int 0 fs;
     m \<leftarrow> field ''mode'' into_string [] fs;
     Some \<lparr>qr_q = q, qr_k = k, qr_mode = m\<rparr>
   }"

definition index_json :: "index_req \<Rightarrow> json" where
  "index_json r = jobj [(''source'', jstr (ir_source r)), (''title'', jstr (ir_title r)), (''body'', jstr (ir_body r))]"

definition query_json :: "query_req \<Rightarrow> json" where
  "query_json r = jobj [(''q'', jstr (qr_q r)), (''k'', jint (qr_k r)), (''mode'', jstr (qr_mode r))]"

section \<open>Replies\<close>

definition envelope_json :: "envelope \<Rightarrow> json" where
  "envelope_json e = jobj [(''code'', jstr (env_code e)), (''message'', jstr (env_message e)),
     (''retryable'', JBool (env_retryable e)), (''request_id'', jstr (env_request_id e))]"

text \<open>A \<open>map[string]float64\<close> is written with its keys in order.\<close>

definition signal_order :: "string list" where
  "signal_order = [''bm25'', ''rerank'', ''rrf'', ''vector'']"

definition signals_json :: "(gostring \<rightharpoonup> f64) \<Rightarrow> json option" where
  "signals_json m =
     map_option jobj (all_or_none (map (\<lambda>k. map_option (Pair k) (jfloat (the (m (str k)))))
       (filter (\<lambda>k. m (str k) \<noteq> None) signal_order)))"

definition result_json :: "result \<Rightarrow> json option" where
  "result_json r = do {
     x \<leftarrow> jfloat (r_score r);
     s \<leftarrow> signals_json (r_signals r);
     Some (jobj [(''doc_id'', jstr (r_doc r)), (''chunk_id'', jstr (r_chunk r)), (''score'', x),
                 (''snippet'', jstr (r_snippet r)), (''signals'', s)])
   }"

definition item_json :: "list_item \<Rightarrow> json" where
  "item_json i = jobj [(''id'', jstr (li_id i)), (''source'', jstr (li_source i)), (''title'', jstr (li_title i)),
     (''created_at'', jstr (li_created i))]"

text \<open>The payloads the handlers give to \<open>WriteJSON\<close>; \<open>None\<close> is a payload the encoder refuses. A \<open>map[string]any\<close>
  is written with its keys in order, and \<open>next_cursor\<close> has \<open>omitempty\<close>.\<close>

fun payload_json :: "(time \<Rightarrow> int) \<Rightarrow> payload \<Rightarrow> json option" where
  "payload_json zone (Index_Resp i n b) =
     Some (jobj [(''doc_id'', jstr i), (''chunk_count'', jint (int n)), (''already_exists'', JBool b)])"
| "payload_json zone (Query_Resp rs) = map_option (\<lambda>js. jobj [(''results'', JArr js)]) (all_or_none (map result_json rs))"
| "payload_json zone (Doc_Resp i src t b h created) =
     (if time_encodable zone created
      then Some (jobj [(''body'', jstr b), (''content_hash'', jstr h), (''created_at'', jtime zone created), (''id'', jstr i),
                       (''source'', jstr src), (''title'', jstr t)])
      else None)"
| "payload_json zone (List_Resp is next) =
     Some (jobj ((''items'', JArr (map item_json is)) # (if next = [] then [] else [(''next_cursor'', jstr next)])))"
| "payload_json zone (Health_Resp s) = Some (jobj [(''status'', jstr s)])"
| "payload_json zone (Deleted_Resp i b) = Some (jobj [(''deleted'', JBool b), (''id'', jstr i)])"
| "payload_json zone (Compact_Resp n m) =
     Some (jobj [(''tombstones_processed'', jint (int n)), (''chunks_deleted'', jint (int m))])"

text \<open>The bytes a response writer has sent.\<close>

definition body_text :: "(time \<Rightarrow> int) \<Rightarrow> payload body \<Rightarrow> gostring" where
  "body_text zone b =
     (case b of
        Envelope e \<Rightarrow> json_encode (envelope_json e)
      | Payload p \<Rightarrow> (case payload_json zone p of None \<Rightarrow> [] | Some j \<Rightarrow> json_encode j)
      | Plain_text s \<Rightarrow> s)"

definition reply_text :: "(time \<Rightarrow> int) \<Rightarrow> payload writer \<Rightarrow> gostring" where
  "reply_text zone w = concat (map (body_text zone) (w_body w))"

section \<open>The environment\<close>

text \<open>\<open>strconv.Quote\<close>, which the verb \<open>%q\<close> uses.\<close>

definition x_escape :: "nat \<Rightarrow> gostring" where
  "x_escape n = [92, 120, hex_digit (n div 16 mod 16), hex_digit (n mod 16)]"

definition quote_go_rune :: "(rune \<Rightarrow> bool) \<Rightarrow> rune \<times> gostring \<Rightarrow> gostring" where
  "quote_go_rune printable x =
     (case x of (r, bs) \<Rightarrow>
        if r = rune_error \<and> length bs = 1 then x_escape (unat (hd bs))
        else if r = 0x22 \<or> r = 0x5C then [92, of_nat r]
        else if (if r < 0x80 then 0x20 \<le> r \<and> r < 0x7F else printable r) then bs
        else if r = 7 then [92, 97] else if r = 8 then [92, 98] else if r = 12 then [92, 102]
        else if r = 10 then [92, 110] else if r = 13 then [92, 114] else if r = 9 then [92, 116] else if r = 11 then [92, 118]
        else if r < 0x20 \<or> r = 0x7F then x_escape r
        else if r < 0x10000 then u_escape r
        else [92, 85] @ drop 2 (u_escape (r div 65536)) @ drop 2 (u_escape (r mod 65536)))"

definition quote_go :: "(rune \<Rightarrow> bool) \<Rightarrow> gostring \<Rightarrow> gostring" where
  "quote_go printable s = 34 # concat (map (quote_go_rune printable) (segs s)) @ [34]"

text \<open>\<open>CreatedAt.UTC().Format("2006-01-02T15:04:05.000Z")\<close>.\<close>

definition created_text :: "time \<Rightarrow> gostring" where
  "created_text t =
     (let c = clock_of 0 t in date_text c @ [84] @ time_text c @ [46] @ pad_int 3 (ck_nano c div 1000000) @ [90])"

definition go_env ::
  "(time \<Rightarrow> int) \<Rightarrow> (gostring \<Rightarrow> uuid option) \<Rightarrow> (uuid \<Rightarrow> gostring) \<Rightarrow> (rune \<Rightarrow> bool) \<Rightarrow> env" where
  "go_env zone parse text printable =
     \<lparr>sha256 = sum256, parse_uuid = parse, uuid_text = text, fmt_created = created_text, time_ok = time_encodable zone,
      dec_index = decode_index, dec_query = decode_query, marshal_cursor = cursor_to_json zone,
      unmarshal_cursor = cursor_of_json, quote_str = quote_go printable\<rparr>"

lemma go_env_sel [simp]:
  "sha256 (go_env z p u q) = sum256" "parse_uuid (go_env z p u q) = p" "uuid_text (go_env z p u q) = u"
  "fmt_created (go_env z p u q) = created_text" "time_ok (go_env z p u q) = time_encodable z"
  "dec_index (go_env z p u q) = decode_index" "dec_query (go_env z p u q) = decode_query"
  "marshal_cursor (go_env z p u q) = cursor_to_json z" "unmarshal_cursor (go_env z p u q) = cursor_of_json"
  by (simp_all add: go_env_def)

text \<open>What \<open>google/uuid\<close> documents: \<open>Parse\<close> takes what \<open>String\<close> gives, which is plain text.\<close>

definition uuid_codec :: "(gostring \<Rightarrow> uuid option) \<Rightarrow> (uuid \<Rightarrow> gostring) \<Rightarrow> bool" where
  "uuid_codec parse text \<longleftrightarrow> (\<forall>i. parse (text i) = Some i \<and> text i \<noteq> [] \<and> valid_utf8 (text i))"

section \<open>Requests are read as they were written\<close>

lemma jobj_flat_depth: "list_all (\<lambda>(k, v). json_depth v = 0) fs \<Longrightarrow> json_depth (jobj fs) \<le> 10000"
proof -
  assume "list_all (\<lambda>(k, v). json_depth v = 0) fs"
  then have "json_depth (jobj fs) \<le> Suc 0" unfolding jobj_depth by (auto simp: list_all_iff)
  then show ?thesis by simp
qed

lemma decode_index_text:
  "num_end t \<Longrightarrow> decode_index (json_marshal (index_json r) @ t)
     = Some \<lparr>ir_source = clean (ir_source r), ir_title = clean (ir_title r), ir_body = clean (ir_body r)\<rparr>"
proof -
  assume t: "num_end t"
  have "json_decode (json_marshal (index_json r) @ t) = Some (index_json r)"
    unfolding index_json_def by (rule decode_marshal [OF _ jobj_flat_depth t]) simp_all
  then show ?thesis by (simp add: decode_index_def index_json_def fold_rune_def)
qed

lemma decode_query_text:
  assumes "num_end t" "- (2 ^ 63) \<le> qr_k r" "qr_k r < 2 ^ 63"
  shows "decode_query (json_marshal (query_json r) @ t)
     = Some \<lparr>qr_q = clean (qr_q r), qr_k = qr_k r, qr_mode = clean (qr_mode r)\<rparr>"
proof -
  have "json_decode (json_marshal (query_json r) @ t) = Some (query_json r)"
    unfolding query_json_def by (rule decode_marshal [OF _ jobj_flat_depth assms(1)]) simp_all
  then show ?thesis using assms(2,3) by (simp add: decode_query_def query_json_def fold_rune_def)
qed

text \<open>Whatever the bytes of a request, the strings that come out of it are well-formed UTF-8.\<close>

lemma decode_index_valid:
  "decode_index b = Some r \<Longrightarrow> valid_utf8 (ir_source r) \<and> valid_utf8 (ir_title r) \<and> valid_utf8 (ir_body r)"
proof -
  have nil: "valid_utf8 []" by (simp add: valid_utf8_def)
  assume "decode_index b = Some r"
  then show ?thesis
    by (auto simp: decode_index_def bind_eq_Some_conv dest!: field_string_valid [OF _ nil])
qed

lemma decode_query_valid: "decode_query b = Some r \<Longrightarrow> valid_utf8 (qr_q r) \<and> valid_utf8 (qr_mode r)"
proof -
  have nil: "valid_utf8 []" by (simp add: valid_utf8_def)
  assume "decode_query b = Some r"
  then show ?thesis
    by (auto simp: decode_query_def bind_eq_Some_conv dest!: field_string_valid [OF _ nil])
qed

section \<open>Replies are read as they were written\<close>

text \<open>What a client in Go would decode a reply into.\<close>

definition decode_envelope :: "gostring \<Rightarrow> envelope option" where
  "decode_envelope b = do {
     j \<leftarrow> json_decode b;
     fs \<leftarrow> members j;
     c \<leftarrow> field ''code'' into_string [] fs;
     m \<leftarrow> field ''message'' into_string [] fs;
     r \<leftarrow> field ''retryable'' into_bool False fs;
     i \<leftarrow> field ''request_id'' into_string [] fs;
     Some \<lparr>env_code = c, env_message = m, env_retryable = r, env_request_id = i\<rparr>
   }"

record doc_view =
  dv_id :: gostring
  dv_source :: gostring
  dv_title :: gostring
  dv_body :: gostring
  dv_hash :: gostring
  dv_created :: time

definition decode_doc :: "gostring \<Rightarrow> doc_view option" where
  "decode_doc b = do {
     j \<leftarrow> json_decode b;
     fs \<leftarrow> members j;
     i \<leftarrow> field ''id'' into_string [] fs;
     s \<leftarrow> field ''source'' into_string [] fs;
     t \<leftarrow> field ''title'' into_string [] fs;
     x \<leftarrow> field ''body'' into_string [] fs;
     h \<leftarrow> field ''content_hash'' into_string [] fs;
     c \<leftarrow> field ''created_at'' into_time 0 fs;
     Some \<lparr>dv_id = i, dv_source = s, dv_title = t, dv_body = x, dv_hash = h, dv_created = c\<rparr>
   }"

lemma decode_envelope_text:
  "decode_envelope (body_text zone (Envelope e))
     = Some \<lparr>env_code = clean (env_code e), env_message = clean (env_message e), env_retryable = env_retryable e,
             env_request_id = clean (env_request_id e)\<rparr>"
proof -
  have "json_decode (json_encode (envelope_json e) @ []) = Some (envelope_json e)"
    unfolding envelope_json_def by (rule decode_encode_json [OF _ jobj_flat_depth]) simp_all
  then show ?thesis by (simp add: body_text_def decode_envelope_def envelope_json_def fold_rune_def)
qed

lemma decode_doc_text:
  assumes "time_encodable zone created"
  shows "decode_doc (body_text zone (Payload (Doc_Resp i s t b h created)))
     = Some \<lparr>dv_id = clean i, dv_source = clean s, dv_title = clean t, dv_body = clean b, dv_hash = clean h, dv_created = created\<rparr>"
proof -
  obtain j where j: "payload_json zone (Doc_Resp i s t b h created) = Some j" using assms by simp
  then have "json_decode (json_encode j @ []) = Some j"
    using assms by (auto intro!: decode_encode_json [OF _ jobj_flat_depth, of _ "[]", simplified])
  then show ?thesis using j assms
    by (auto simp: body_text_def decode_doc_def fold_rune_def into_time_jtime)
qed

section \<open>Every payload is JSON\<close>

lemma jfloat_None: "jfloat x = None \<longleftrightarrow> \<not> is_finite x"
  by (cases x) (simp_all add: jfloat_def)

lemma signals_json_None:
  "signals_json m = None \<longleftrightarrow> (\<exists>k \<in> set signal_order. \<exists>x. m (str k) = Some x \<and> \<not> is_finite x)"
proof -
  have "signals_json m = None \<longleftrightarrow> (\<exists>k \<in> set signal_order. m (str k) \<noteq> None \<and> jfloat (the (m (str k))) = None)"
    by (auto simp: signals_json_def all_or_none_None image_iff)
  then show ?thesis by (simp add: jfloat_None) (metis option.sel)
qed

lemma result_json_None: "result_json r = None \<longleftrightarrow> \<not> result_finite r"
proof -
  have "set signal_names = str ` set signal_order" by (auto simp: signal_names_def signal_order_def simp del: str_Cons)
  then have "list_all (\<lambda>s. case r_signals r s of None \<Rightarrow> True | Some x \<Rightarrow> is_finite x) signal_names
      \<longleftrightarrow> signals_json (r_signals r) \<noteq> None"
    unfolding signals_json_None by (auto simp: list_all_iff split: option.splits)
  then show ?thesis using jfloat_None [of "r_score r"]
    by (cases "jfloat (r_score r)"; cases "signals_json (r_signals r)") (simp_all add: result_json_def result_finite_def)
qed

text \<open>What the handlers take to be encodable is what the encoder accepts.\<close>

lemma encodable_iff: "encodable (time_encodable zone) p \<longleftrightarrow> payload_json zone p \<noteq> None"
proof (cases p)
  case (Query_Resp rs)
  have "(None \<in> result_json ` set rs) \<longleftrightarrow> (\<exists>r \<in> set rs. \<not> result_finite r)" by (metis imageE image_eqI result_json_None)
  then show ?thesis using Query_Resp by (auto simp: all_or_none_None list_all_iff)
qed simp_all

lemma signals_json_ok: "signals_json m = Some j \<Longrightarrow> json_ok j \<and> json_depth j \<le> 1"
proof -
  assume "signals_json m = Some j"
  then obtain fs where fs: "j = jobj fs" "map (\<lambda>k. map_option (Pair k) (jfloat (the (m (str k)))))
      (filter (\<lambda>k. m (str k) \<noteq> None) signal_order) = map Some fs"
    by (auto simp: signals_json_def all_or_none_Some)
  have "json_ok v \<and> json_depth v \<le> 0" if "(k, v) \<in> set fs" for k v
  proof -
    have "Some (k, v) \<in> set (map Some fs)" using that by simp
    then obtain y where "jfloat y = Some v" unfolding fs(2) [symmetric] by (auto simp: eq_commute [of "Some (k, v)"])
    then show ?thesis using jfloat_ok by simp
  qed
  then have "list_all (\<lambda>(k, v). json_ok v \<and> json_depth v \<le> 0) fs" by (auto simp: list_all_iff)
  from jobj_ok_depth [OF this] fs(1) show ?thesis by simp
qed

lemma result_json_ok: "result_json r = Some j \<Longrightarrow> json_ok j \<and> json_depth j \<le> 2"
proof -
  assume "result_json r = Some j"
  then obtain x s where xs: "jfloat (r_score r) = Some x" "signals_json (r_signals r) = Some s" and
    j: "j = jobj [(''doc_id'', jstr (r_doc r)), (''chunk_id'', jstr (r_chunk r)), (''score'', x),
                 (''snippet'', jstr (r_snippet r)), (''signals'', s)]"
    by (auto simp: result_json_def bind_eq_Some_conv)
  have "json_ok j \<and> json_depth j \<le> Suc 1"
    unfolding j by (rule jobj_ok_depth) (use jfloat_ok [OF xs(1)] signals_json_ok [OF xs(2)] in simp)
  then show ?thesis by simp
qed

lemma payload_json_ok: "payload_json zone p = Some j \<Longrightarrow> json_ok j \<and> json_depth j \<le> 4"
proof -
  assume p: "payload_json zone p = Some j"
  have flat: "json_ok (jobj fs) \<and> json_depth (jobj fs) \<le> 4" if "list_all (\<lambda>(k, v). json_ok v \<and> json_depth v \<le> 3) fs" for fs
    using jobj_ok_depth [OF that] by simp
  have arr: "json_ok (JArr js) \<and> json_depth (JArr js) \<le> 3" if "list_all (\<lambda>j. json_ok j \<and> json_depth j \<le> 2) js" for js
    using that json_depth_le(1) [of js 2] by (auto simp: list_all_iff)
  show ?thesis
  proof (cases p)
    case (Query_Resp rs)
    then obtain js where js: "map result_json rs = map Some js" "j = jobj [(''results'', JArr js)]"
      using p by (auto simp: all_or_none_Some)
    have "json_ok x \<and> json_depth x \<le> 2" if "x \<in> set js" for x
    proof -
      have "Some x \<in> set (map Some js)" using that by simp
      then show ?thesis unfolding js(1) [symmetric] using result_json_ok by auto
    qed
    then show ?thesis unfolding js(2) using arr [of js] by (intro flat) (auto simp: list_all_iff)
  next
    case (List_Resp xs tok)
    have "json_ok (item_json i) \<and> json_depth (item_json i) \<le> 2" for i
      using jobj_ok_depth [of 0 "[(''id'', jstr (li_id i)), (''source'', jstr (li_source i)), (''title'', jstr (li_title i)),
        (''created_at'', jstr (li_created i))]"] by (simp add: item_json_def)
    then have "json_ok (JArr (map item_json xs)) \<and> json_depth (JArr (map item_json xs)) \<le> 3"
      by (intro arr) (simp add: list_all_iff)
    moreover have "j = jobj ((''items'', JArr (map item_json xs)) # (if tok = [] then [] else [(''next_cursor'', jstr tok)]))"
      using p List_Resp by simp
    ultimately show ?thesis using flat [of "(''items'', JArr (map item_json xs)) # (if tok = [] then [] else [(''next_cursor'', jstr tok)])"]
      by (cases "tok = []") simp_all
  qed (use p in \<open>auto intro!: flat split: if_splits\<close>)
qed

lemma json_decode_body:
  "(case b of Envelope e \<Rightarrow> True | Payload p \<Rightarrow> payload_json zone p \<noteq> None | Plain_text s \<Rightarrow> False) \<Longrightarrow>
     json_decode (body_text zone b) \<noteq> None"
proof (cases b)
  case (Envelope e)
  have "json_decode (json_encode (envelope_json e) @ []) = Some (envelope_json e)"
    unfolding envelope_json_def by (rule decode_encode_json [OF _ jobj_flat_depth]) simp_all
  with Envelope show ?thesis by (simp add: body_text_def)
next
  case (Payload p)
  assume "case b of Envelope e \<Rightarrow> True | Payload p \<Rightarrow> payload_json zone p \<noteq> None | Plain_text s \<Rightarrow> False"
  with Payload obtain j where j: "payload_json zone p = Some j" by auto
  have "json_decode (json_encode j @ []) = Some j"
    using payload_json_ok [OF j] by (intro decode_encode_json) simp_all
  with j Payload show ?thesis by (simp add: body_text_def)
qed simp

end
