(* ===== verification/Api_Bytes.thy ===== *)
theory Api_Bytes
  imports Api_Sessions Api_Json
begin

text \<open>
  The service seen through its bytes: requests that are JSON texts, and replies as a client decodes them. The
  environment is \<open>go_env\<close>, so that nothing of the standard library is left open but the local zone and the
  tables of printable runes.
\<close>

lemma go_env_ok: "uuid_codec parse text \<Longrightarrow> env_ok (go_env zone parse text printable)"
  using cursor_json_roundtrip by (simp add: env_ok_def uuid_codec_def)

section \<open>Errors\<close>



section \<open>What reaches the tables\<close>

text \<open>Every text in the tables is well-formed UTF-8, and every hash has 64 characters.\<close>

definition doc_text_ok :: "doc \<Rightarrow> bool" where
  "doc_text_ok d \<longleftrightarrow> valid_utf8 (d_source d) \<and> valid_utf8 (d_title d) \<and> valid_utf8 (d_body d) \<and> length (d_hash d) = 64"

definition text_ok :: "db \<Rightarrow> bool" where
  "text_ok db \<longleftrightarrow> list_all doc_text_ok (docs db) \<and> list_all (\<lambda>c. valid_utf8 (c_text c)) (chunks db)"

lemma split_chunks_valid:
  assumes "split_chunks body opts = Some cs"
  shows "list_all (\<lambda>c. valid_utf8 (ck_text c)) cs"
proof (rule split_cases [of body opts])
  assume "split_chunks body opts = Some [\<lparr>ck_index = 0, ck_text = []\<rparr>]"
  with assms have "cs = [\<lparr>ck_index = 0, ck_text = []\<rparr>]" by simp
  then show ?thesis by (simp add: valid_utf8_def)
next
  fix ws
  let ?rs = "runes (trim_space body)"
  assume w: "window_cover (clamp_opts opts) (length ?rs) ws" "split_chunks body opts = Some (number_from 0 (texts_of ?rs ws))"
  then have "cs = number_from 0 (texts_of ?rs ws)" using assms by simp
  moreover have "list_all valid_utf8 (texts_of ?rs ws)"
    using texts_of_wf [OF w(1) runes_valid] by (rule list.pred_mono_strong) simp
  ultimately show ?thesis by (simp add: list_all_number_from)
qed

lemma store_chunks_text:
  "store_chunks cs vs = Some scs \<Longrightarrow> list_all (\<lambda>c. P (ck_text c)) cs \<Longrightarrow> list_all (\<lambda>c. P (n_text c)) scs"
proof -
  have "list_all (\<lambda>c. P (n_text c)) (map2 (\<lambda>c v. \<lparr>n_index = int (ck_index c), n_text = ck_text c, n_embedding = v\<rparr>) cs us)"
    if "list_all (\<lambda>c. P (ck_text c)) cs" for us
    using that
  proof (induction cs arbitrary: us)
    case (Cons c cs)
    then show ?case by (cases us) simp_all
  qed simp
  then show "store_chunks cs vs = Some scs \<Longrightarrow> list_all (\<lambda>c. P (ck_text c)) cs \<Longrightarrow> list_all (\<lambda>c. P (n_text c)) scs"
    by (simp add: store_chunks_def split: if_splits) blast
qed

lemma index_stores_text:
  assumes "leaves (handle_index (go_env zone parse text printable) sv rq w s) s'"
  shows "s' = s \<or> (\<exists>d cs. s' = snd (ds_upsert (sv_store sv) d cs s) \<and> list_all (\<lambda>c. valid_utf8 (n_text c)) cs
    \<and> valid_utf8 (n_source d) \<and> valid_utf8 (n_title d) \<and> valid_utf8 (n_body d) \<and> length (n_hash d) = 64)"
proof (cases "decode_index (rq_body rq)")
  case None
  with assms show ?thesis by (simp add: leaves_def handle_index_def)
next
  case (Some req)
  note v = decode_index_valid [OF Some]
  show ?thesis
  proof (cases "split_chunks (ir_body req) zero_opts")
    case None
    with assms Some show ?thesis by (auto simp: leaves_def handle_index_def Let_def split: if_splits)
  next
    case c: (Some cs)
    define d where "d = store_doc (go_env zone parse text printable) (trim_space (ir_source req)) (trim_space (ir_title req)) (ir_body req)"
    have d: "valid_utf8 (n_source d)" "valid_utf8 (n_title d)" "valid_utf8 (n_body d)" "length (n_hash d) = 64"
      using v by (simp_all add: d_def store_doc_def trim_space_valid)
    have chunk: "list_all (\<lambda>c. valid_utf8 (n_text c)) scs" if "store_chunks cs vs = Some scs" for vs scs
      by (rule store_chunks_text [OF that split_chunks_valid [OF c]])
    from assms Some c have "s' = s \<or> (\<exists>vs scs. store_chunks cs vs = Some scs \<and> s' = snd (ds_upsert (sv_store sv) d scs s))"
      by (auto simp: leaves_def handle_index_def Let_def d_def split: option.splits sum.splits prod.splits if_splits)
        (metis snd_conv)+
    then show ?thesis using d chunk by blast
  qed
qed

lemma text_ok_with_doc:
  assumes "text_ok db" "list_all (\<lambda>c. valid_utf8 (n_text c)) cs" "valid_utf8 (n_source d)" "valid_utf8 (n_title d)"
    "valid_utf8 (n_body d)" "length (n_hash d) = 64"
  shows "text_ok (with_doc i is now d cs db)"
  using assms by (auto simp: text_ok_def with_doc_def new_row_def doc_text_ok_def chunk_rows_def list_all_iff dest: set_zip_rightD)

lemma text_ok_with_tomb: "text_ok db \<Longrightarrow> text_ok (with_tomb ti now i db)"
  by (auto simp: text_ok_def with_tomb_def mark_deleted_def doc_text_ok_def list_all_iff)

lemma text_ok_compacts: "text_ok db \<Longrightarrow> compacts_to res db r e db' \<Longrightarrow> text_ok db'"
  by (auto simp: text_ok_def compacts_to_def list_all_iff)

lemma serve_text_ok:
  assumes "db_ok db" "sane io" "text_ok db"
    and "serve (go_env zone parse text printable) (new_server (go_env zone parse text printable) g emb r io) rand8 rq
           fresh_writer db = Returned w db'"
  shows "text_ok db'"
proof (cases "find_route (rq_method rq) (rq_path rq)")
  case None
  with assms show ?thesis by (auto simp: serve_mux mux_def)
next
  case (Some p)
  then obtain e v where ev: "find_route (rq_method rq) (rq_path rq) = Some (e, v)" by (cases p) auto
  note l = serve_leaves [OF assms(4) ev]
  consider "e = Index_E" | "e = Delete_E" | "e = Compact_E" | "e \<in> {Get_E, List_E, Query_E, Health_E}" by (cases e) auto
  then show ?thesis
  proof cases
    case 1
    from index_stores_text [OF l [unfolded 1 dispatch_def endpoint.case]] show ?thesis
    proof
      assume "\<exists>d cs. db' = snd (ds_upsert (sv_store (new_server (go_env zone parse text printable) g emb r io)) d cs db)
        \<and> list_all (\<lambda>c. valid_utf8 (n_text c)) cs \<and> valid_utf8 (n_source d) \<and> valid_utf8 (n_title d) \<and> valid_utf8 (n_body d)
        \<and> length (n_hash d) = 64"
      then obtain d cs where d: "db' = snd (upsert_doc (io_fault io) (io_id io) (io_ids io) (io_now io) d cs db)"
        "list_all (\<lambda>c. valid_utf8 (n_text c)) cs" "valid_utf8 (n_source d)" "valid_utf8 (n_title d)" "valid_utf8 (n_body d)"
        "length (n_hash d) = 64" by auto
      show ?thesis using upsert_doc_db [of "io_fault io" "io_id io" "io_ids io" "io_now io" d cs db] d(1) assms(3)
          text_ok_with_doc [OF assms(3) d(2-6)] by auto
    qed (use assms(3) in simp)
  next
    case 2
    with l delete_leaves have "db' = db \<or> (\<exists>i. db' = snd (delete_doc (io_fault io) (io_tomb io) (io_now io) i db))"
      by (force simp: dispatch_def)
    with delete_doc_db [OF assms(1)] assms(3) text_ok_with_tomb show ?thesis by metis
  next
    case 3
    have s: "reorders (io_scan io)" "honest (io_pass io)" using assms(2) by (simp_all add: sane_def)
    from compact_loop_spec [OF s assms(1), of "io_now io" 0 "\<lparr>res_tombs = 0, res_chunks = 0\<rparr>"]
    obtain res err db1 where c: "compact (io_scan io) (io_pass io) (io_now io) 0 db = Some (res, err, db1)"
      "compacts_to \<lparr>res_tombs = 0, res_chunks = 0\<rparr> db res err db1" unfolding compact_def by blast
    then have "db' = db1"
      using l 3 by (cases err) (auto simp: leaves_def dispatch_def handle_compact_def pg_store_def)
    with text_ok_compacts [OF assms(3) c(2)] show ?thesis by simp
  qed (use read_leaves [OF _ l] assms(3) in blast)
qed

section \<open>What a client sees\<close>

lemma hex_encode_valid [simp]: "valid_utf8 (hex_encode s)"
proof (rule valid_utf8_ascii)
  have "unat (hex_digit n) < 128" if "n < 16" for n
    using that by (auto simp: hex_digit_def unat_of_nat)
  then have "list_all (\<lambda>b. unat b < 128) (concat (map (\<lambda>b. [hex_digit (unat b div 16), hex_digit (unat b mod 16)]) s))"
  proof (induction s)
    case (Cons b s)
    have "unat b < 256" using unsigned_less [of b] by simp
    then show ?case using Cons \<open>\<And>n. n < 16 \<Longrightarrow> unat (hex_digit n) < 128\<close> by (simp add: less_mult_imp_div_less)
  qed simp
  then show "list_all (\<lambda>b. unat b < 128) (hex_encode s)" by (simp add: hex_encode_def)
qed

lemma reply_text_ok [simp]:
  "w_body w = [] \<Longrightarrow> time_ok en = time_encodable zone \<Longrightarrow>
     reply_text zone (reply_ok en p w) = body_text zone (Payload p)"
  by (auto simp: reply_ok_def write_json_def reply_text_def encodable_iff body_text_def Let_def)


text \<open>C4. A document comes back byte for byte: a \<open>POST /v1/index\<close> whose body is the JSON of a source, a title
  and a text, and whose answer names a new document, is followed by any session without a \<open>DELETE\<close> of the
  document; then the bytes answered to a \<open>GET\<close> of it decode to the id, the trimmed source and title, the
  text itself (with U+FFFD for what is not UTF-8 in it), the SHA-256 of that text in hexadecimal, and the
  time of the insert, in any zone.\<close>

theorem document_bytes:
  assumes "db_ok db" "uuid_codec parse text" "sane io" "num_end t"
    and "rq_method rq = str ''POST''" "rq_path rq = [v1, str ''index'']" "rq_body rq = json_marshal (index_json req) @ t"
    and "serve (go_env zone parse text printable) (new_server (go_env zone parse text printable) g emb r io) rand8 rq
           fresh_writer db = Returned w db1"
    and "w_body w = [Payload (Index_Resp (text i) n False)]"
    and "wild_session reqs"
    and "list_all (\<lambda>(io, rand8, rq). target (go_env zone parse text printable) rq \<noteq> Some (Delete_E, Some i)) reqs"
    and "serve_all (go_env zone parse text printable) (new_server (go_env zone parse text printable) g emb r) reqs db1
           = Some (ws, db2)"
    and "rq_method rq' = str ''GET''" "rq_path rq' = [v1, str ''docs'', text i]" "io_fault io' 0 = NoFault"
    and "time_encodable zone (io_now io)"
  shows "\<exists>w'. serve (go_env zone parse text printable) (new_server (go_env zone parse text printable) g emb r io') rand8' rq'
           fresh_writer db2 = Returned w' db2
    \<and> decode_doc (reply_text zone w') = Some \<lparr>dv_id = text i, dv_source = trim_space (clean (ir_source req)),
        dv_title = trim_space (clean (ir_title req)), dv_body = clean (ir_body req),
        dv_hash = hex_encode (sum256 (clean (ir_body req))), dv_created = io_now io\<rparr>"
proof -
  let ?en = "go_env zone parse text printable"
  have d: "decode_index (rq_body rq)
      = Some \<lparr>ir_source = clean (ir_source req), ir_title = clean (ir_title req), ir_body = clean (ir_body req)\<rparr>"
    unfolding assms(7) by (rule decode_index_text [OF assms(4)])
  have b: "w_body w = [Payload (Index_Resp (uuid_text ?en i) n False)]" "rq_path rq' = [v1, str ''docs'', uuid_text ?en i]"
    using assms(9,14) by simp_all
  from indexed_stays [OF assms(1) go_env_ok [OF assms(2)] assms(3,5,6,8) b(1) assms(10-13) b(2) assms(15), of rand8'] d
  have "serve ?en (new_server ?en g emb r io') rand8' rq' fresh_writer db2 = Returned
      (reply_ok ?en (Doc_Resp (text i) (trim_space (clean (ir_source req))) (trim_space (clean (ir_title req)))
         (clean (ir_body req)) (hex_encode (sum256 (clean (ir_body req)))) (io_now io)) (opened rand8' rq')) db2" by simp
  moreover have "clean (text i) = text i" using assms(2) by (simp add: uuid_codec_def)
  ultimately show ?thesis using decode_doc_text [OF assms(16)] by (simp add: trim_space_valid)
qed

lemma session_text_ok:
  assumes "db_ok db" "wild_session reqs" "text_ok db"
    and "serve_all (go_env zone parse text printable) (new_server (go_env zone parse text printable) g emb r) reqs db = Some (ws, db')"
  shows "text_ok db'"
  using assms
proof (induction reqs arbitrary: db ws)
  case (Cons q reqs)
  obtain io rand8 rq where q: "q = (io, rand8, rq)" by (cases q)
  with Cons.prems have s: "sane io" "wild_session reqs" by (simp_all add: wild_session_def wild_def)
  from Cons.prems(4) q obtain w db1 ws1 where
    step: "serve (go_env zone parse text printable) (new_server (go_env zone parse text printable) g emb r io) rand8 rq
        fresh_writer db = Returned w db1"
    and rest: "serve_all (go_env zone parse text printable) (new_server (go_env zone parse text printable) g emb r) reqs db1
        = Some (ws1, db')"
    by (auto split: outcome.splits)
  from Cons.IH [OF serve_ok [OF Cons.prems(1) s(1) step] s(2) serve_text_ok [OF Cons.prems(1) s(1) Cons.prems(3) step] rest]
  show ?case .
qed simp

text \<open>C10. Only well-formed text is stored: whatever the bytes of the requests of a session (invalid UTF-8, lone
  surrogates in escapes), every source, title, body and chunk in the tables after it is well-formed UTF-8,
  as PostgreSQL asks of a text, and every content hash has 64 characters.\<close>

theorem stored_text_valid:
  assumes "wild_session reqs"
    and "serve_all (go_env zone parse text printable) (new_server (go_env zone parse text printable) g emb r) reqs empty_db
           = Some (ws, db')"
  shows "text_ok db'"
  by (rule session_text_ok [OF empty_db_ok assms(1) _ assms(2)]) (simp add: text_ok_def empty_db_def)

section \<open>Concrete bytes\<close>

abbreviation ex_go :: env where
  "ex_go \<equiv> go_env (\<lambda>t. 0) (parse_uuid ex_env) (uuid_text ex_env) (\<lambda>r. True)"

lemma ex_uuid_codec: "uuid_codec (parse_uuid ex_env) (uuid_text ex_env)"
  using ex_env_ok by (simp add: uuid_codec_def env_ok_def)

abbreviation ex_body :: index_req where
  "ex_body \<equiv> \<lparr>ir_source = str ''s'', ir_title = str ''t'', ir_body = str ''b''\<rparr>"

abbreviation ex_post_bytes :: request where
  "ex_post_bytes \<equiv> ex_request ''POST'' [v1, str ''index''] (json_marshal (index_json ex_body) @ [])"

lemma ex_clean: "clean (str ''s'') = str ''s''" "clean (str ''t'') = str ''t''" "clean (str ''b'') = str ''b''"
  by (rule clean_id, rule valid_utf8_ascii, simp)+

lemma ex_go_index:
  "\<exists>db. serve ex_go (new_server ex_go ex_pg ex_emb None ex_io) [1] ex_post_bytes fresh_writer empty_db
     = Returned (reply_ok ex_go (Index_Resp (uuid_text ex_env 9) 1 False) (opened [1] ex_post_bytes)) db"
proof -
  have "num_end []" by (simp add: num_end_def)
  from decode_index_text [OF this, of ex_body] have "dec_index ex_go (rq_body ex_post_bytes) = Some ex_body"
    by (simp add: ex_clean del: str_Cons)
  from ex_index_in [OF _ _ this] show ?thesis by simp
qed


theorem document_bytes_witness:
  "\<exists>db1 w'. serve ex_go (new_server ex_go ex_pg ex_emb None ex_io) [2]
      (ex_request ''GET'' [v1, str ''docs'', uuid_text ex_env 9] []) fresh_writer db1 = Returned w' db1
    \<and> decode_doc (reply_text (\<lambda>t. 0) w') = Some \<lparr>dv_id = uuid_text ex_env 9, dv_source = trim_space (clean (str ''s'')),
        dv_title = trim_space (clean (str ''t'')), dv_body = clean (str ''b''), dv_hash = hex_encode (sum256 (clean (str ''b''))),
        dv_created = 500\<rparr>"
proof -
  obtain db1 where s: "serve ex_go (new_server ex_go ex_pg ex_emb None ex_io) [1] ex_post_bytes fresh_writer empty_db
     = Returned (reply_ok ex_go (Index_Resp (uuid_text ex_env 9) 1 False) (opened [1] ex_post_bytes)) db1"
    using ex_go_index by blast
  have n: "num_end []" by (simp add: num_end_def)
  have m: "rq_method ex_post_bytes = str ''POST''" "rq_path ex_post_bytes = [v1, str ''index'']"
    "rq_body ex_post_bytes = json_marshal (index_json ex_body) @ []" by simp_all
  have b: "w_body (reply_ok ex_go (Index_Resp (uuid_text ex_env 9) 1 False) (opened [1] ex_post_bytes))
      = [Payload (Index_Resp (uuid_text ex_env 9) 1 False)]" by (simp add: reply_ok_def write_json_def)
  have r: "wild_session []" "list_all (\<lambda>(io, rand8, rq). target ex_go rq \<noteq> Some (Delete_E, Some 9)) []"
    "serve_all ex_go (new_server ex_go ex_pg ex_emb None) [] db1 = Some ([], db1)" by (simp_all add: wild_session_def)
  have g: "rq_method (ex_request ''GET'' [v1, str ''docs'', uuid_text ex_env 9] []) = str ''GET''"
    "rq_path (ex_request ''GET'' [v1, str ''docs'', uuid_text ex_env 9] []) = [v1, str ''docs'', uuid_text ex_env 9]"
    "io_fault ex_io 0 = NoFault" by simp_all
  have t: "time_encodable (\<lambda>t. 0) (io_now ex_io)" by (simp add: ex_io_def) code_simp
  from document_bytes [OF empty_db_ok ex_uuid_codec ex_io_sane n m s b r g t, of "[2]"] show ?thesis
    by (auto simp: ex_io_def simp del: str_Cons)
qed

theorem stored_text_valid_witness:
  "\<exists>ws db'. serve_all ex_go (new_server ex_go ex_pg ex_emb None) [(ex_io, [1], ex_post_bytes)] empty_db = Some (ws, db') \<and> text_ok db'"
proof -
  have w: "wild_session [(ex_io, [1], ex_post_bytes)]" by (simp add: wild_session_def)
  obtain db1 where s: "serve ex_go (new_server ex_go ex_pg ex_emb None ex_io) [1] ex_post_bytes fresh_writer empty_db
     = Returned (reply_ok ex_go (Index_Resp (uuid_text ex_env 9) 1 False) (opened [1] ex_post_bytes)) db1"
    using ex_go_index by blast
  then have "\<exists>ws. serve_all ex_go (new_server ex_go ex_pg ex_emb None) [(ex_io, [1], ex_post_bytes)] empty_db = Some (ws, db1)" by simp
  with stored_text_valid [OF w] show ?thesis by blast
qed

end
