(* ===== verification/Api_Vectors.thy ===== *)
theory Api_Vectors
  imports Api_Bytes Sidecar
begin

text \<open>
  Indexing from end to end: the bytes of a request, the chunker, the exchange with the sidecar, and the rows the
  document leaves in the chunk table.
\<close>

lemma handle_index_steps:
  assumes "handle_index en sv rq w s = Returned w' s'" "w_body w = []" "w_body w' = [Payload (Index_Resp t n existed)]"
  shows "\<exists>req cs vs scs i. dec_index en (rq_body rq) = Some req \<and> split_chunks (ir_body req) zero_opts = Some cs
    \<and> embed_batched (sv_embed sv) (sv_batch sv) (map ck_text cs) = Inr vs \<and> store_chunks cs vs = Some scs \<and> t = uuid_text en i
    \<and> ds_upsert (sv_store sv) (store_doc en (trim_space (ir_source req)) (trim_space (ir_title req)) (ir_body req)) scs s
       = (Inr (i, n, existed), s')"
  using assms by (auto simp: handle_index_def Let_def split: option.splits sum.splits prod.splits if_splits)

lemma store_chunks_map:
  "store_chunks cs (map v cs) = Some (map (\<lambda>c. \<lparr>n_index = int (ck_index c), n_text = ck_text c, n_embedding = v c\<rparr>) cs)"
proof -
  have "map2 (\<lambda>c x. \<lparr>n_index = int (ck_index c), n_text = ck_text c, n_embedding = x\<rparr>) cs (map v cs)
      = map (\<lambda>c. \<lparr>n_index = int (ck_index c), n_text = ck_text c, n_embedding = v c\<rparr>) cs"
    by (induction cs) simp_all
  then show ?thesis by (simp add: store_chunks_def)
qed

text \<open>C5. The rows of a document are the chunks of its text with the sidecar's vectors: after an answer to
  \<open>POST /v1/index\<close> that names a new document, the rows of that document in the chunk table are, one by one
  and in order, the chunks the chunker cuts the text of the request into, each with its index, its text and
  the vector the sidecar gives to that very text, printed for the vector column; the answer counts them.\<close>

theorem vectors_stored:
  assumes "db_ok db" "uuid_codec parse text"
    and "\<And>t. length (vec t) = 384 \<and> list_all (\<lambda>n. num_ok n \<and> number_f32 n = Some (f n)) (vec t)"
    and "rq_method rq = str ''POST''" "rq_path rq = [v1, str ''index'']"
    and "serve (go_env zone parse text printable) (new_server (go_env zone parse text printable) g
           (embed_texts (embed_endpoint refuse vec name 384) bad) r io) rand8 rq fresh_writer db = Returned w db'"
    and "w_body w = [Payload (Index_Resp (text i) n False)]" "n \<le> length (io_ids io)"
  shows "\<exists>req cs. decode_index (rq_body rq) = Some req \<and> split_chunks (ir_body req) zero_opts = Some cs \<and> n = length cs
    \<and> map row_content (chunks_of db' i) = map (\<lambda>c. (int (ck_index c), ck_text c, format_vector (map f (vec (ck_text c))))) cs"
proof -
  let ?en = "go_env zone parse text printable"
  let ?emb = "embed_texts (embed_endpoint refuse vec name 384) bad"
  note h = served_index [OF assms(4-7)]
  have o: "w_body (opened rand8 rq :: payload writer) = []" by simp
  from handle_index_steps [OF h o assms(7)] obtain req cs vs scs j where c: "decode_index (rq_body rq) = Some req"
    "split_chunks (ir_body req) zero_opts = Some cs" "embed_batched ?emb 32 (map ck_text cs) = Inr vs" "store_chunks cs vs = Some scs"
    "text i = text j"
    "upsert_doc (io_fault io) (io_id io) (io_ids io) (io_now io)
       (store_doc ?en (trim_space (ir_source req)) (trim_space (ir_title req)) (ir_body req)) scs db = (Inr (j, n, False), db')"
    by auto
  have j: "j = i" using c(5) assms(2) by (metis option.inject uuid_codec_def)
  have "list_all (\<lambda>c. clean (ck_text c) = ck_text c) cs"
    using split_chunks_valid [OF c(2)] by (rule list.pred_mono_strong) simp
  then have "vs = map (\<lambda>c. map f (vec (ck_text c))) cs"
    using c(3) batched_sidecar [OF assms(3), where refuse = refuse and name = name and bad = bad and b = 32 and ts = "map ck_text cs"]
    by (auto simp: list_all_iff intro!: map_cong)
  then have scs: "scs = map (\<lambda>c. \<lparr>n_index = int (ck_index c), n_text = ck_text c, n_embedding = map f (vec (ck_text c))\<rparr>) cs"
    using c(4) by (simp add: store_chunks_map)
  from upsert_doc_Inr [OF assms(1) c(6)] j
  have db: "db' = with_doc i (io_ids io) (io_now io) (store_doc ?en (trim_space (ir_source req)) (trim_space (ir_title req)) (ir_body req)) scs db"
    "n = length scs" "i \<notin> d_id ` set (docs db)" by auto
  have "map row_content (chunks_of db' i) = map (\<lambda>c. (n_index c, n_text c, format_vector (n_embedding c))) scs"
    using chunk_rows_content [of scs "io_ids io" i] assms(8) db(2) by (simp add: db(1) chunks_of_with_doc [OF assms(1) db(3)])
  then show ?thesis using c(1,2) db(2) scs by (auto simp: comp_def)
qed

abbreviation ex_sidecar :: "gostring list \<Rightarrow> go_error + f64 list list" where
  "ex_sidecar \<equiv> embed_texts (embed_endpoint (\<lambda>b. []) (\<lambda>t. replicate 384 (int_number 1)) [] 384) (\<lambda>b. ErrNoRows)"

lemma ex_vec: "length (replicate 384 (int_number 1)) = 384
    \<and> list_all (\<lambda>n. num_ok n \<and> number_f32 n = Some (Fin 1)) (replicate 384 (int_number 1))"
  by (simp add: ex_number_one list_all_iff)

theorem vectors_stored_witness:
  "\<exists>db'. map row_content (chunks_of db' 9) = [(0, str ''b'', format_vector (replicate 384 (Fin 1)))]"
proof -
  have v: "\<And>t :: gostring. length (replicate 384 (int_number 1)) = 384
      \<and> list_all (\<lambda>n. num_ok n \<and> number_f32 n = Some (Fin 1)) (replicate 384 (int_number 1))" by (rule ex_vec)
  have e: "embed_batched ex_sidecar 32 [[98]] = Inr [replicate 384 (Fin 1)]"
    using batched_sidecar [OF v, where refuse = "\<lambda>b. []" and name = "[]" and bad = "\<lambda>b. ErrNoRows" and b = 32 and ts = "[[98]]"] by simp
  have "num_end []" by (simp add: num_end_def)
  from decode_index_text [OF this, of ex_body] have d: "decode_index (json_marshal (index_json ex_body)) = Some ex_body"
    by (simp add: ex_clean del: str_Cons)
  have b: "rq_method ex_post_bytes = str ''POST''" "rq_path ex_post_bytes = [v1, str ''index'']" by simp_all
  have "\<exists>db. handle_index ex_go (new_server ex_go ex_pg ex_sidecar None ex_io) (tagged [1] ex_post_bytes) (opened [1] ex_post_bytes) empty_db
     = Returned (reply_ok ex_go (Index_Resp (uuid_text ex_env 9) 1 False) (opened [1] ex_post_bytes)) db"
    using d by (simp add: handle_index_def Let_def trim_letter ex_split e store_chunks_def ex_io_def
        upsert_doc_def insert_doc_def doc_by_hash_def doc_by_id_def empty_db_def insert_chunks_def chunk_rows_def
        chunk_keys_free_def commit_def)
  then obtain db where h: "handle_index ex_go (new_server ex_go ex_pg ex_sidecar None ex_io) (tagged [1] ex_post_bytes) (opened [1] ex_post_bytes) empty_db
     = Returned (reply_ok ex_go (Index_Resp (uuid_text ex_env 9) 1 False) (opened [1] ex_post_bytes)) db" by blast
  have "find_route (rq_method ex_post_bytes) (rq_path ex_post_bytes) = Some (Index_E, [])"
    unfolding b by (rule find_route_simps)
  from serve_Returned [OF this, of ex_go "new_server ex_go ex_pg ex_sidecar None ex_io" "[1]" empty_db] h
  have s: "serve ex_go (new_server ex_go ex_pg ex_sidecar None ex_io) [1] ex_post_bytes fresh_writer empty_db
     = Returned (reply_ok ex_go (Index_Resp (uuid_text ex_env 9) 1 False) (opened [1] ex_post_bytes)) db"
    by (simp add: dispatch_def)
  have w: "w_body (reply_ok ex_go (Index_Resp (uuid_text ex_env 9) 1 False) (opened [1] ex_post_bytes))
      = [Payload (Index_Resp (uuid_text ex_env 9) 1 False)]" by (simp add: reply_ok_def write_json_def)
  have n: "1 \<le> length (io_ids ex_io)" by (simp add: ex_io_def)
  from vectors_stored [OF empty_db_ok ex_uuid_codec v b s w n] d
  have "map row_content (chunks_of db 9) = [(0, str ''b'', format_vector (replicate 384 (Fin 1)))]" by (simp add: ex_split)
  then show ?thesis by (rule exI)
qed

end
