(* ===== verification/Api_Pages.thy ===== *)
theory Api_Pages
  imports Api_Flows
begin

text \<open>
  Pagination over HTTP, and what a client sees when a handler panics. Following \<open>next_cursor\<close> through
  \<open>GET /v1/docs\<close> is shown to be the walk over the store's pages, so that the list endpoint as a whole
  inherits its result.
\<close>

section \<open>Pages\<close>

definition list_request :: "gostring \<Rightarrow> gostring \<Rightarrow> request" where
  "list_request token l =
     \<lparr>rq_method = str ''GET'', rq_path = [v1, str ''docs''], rq_header = (\<lambda>k. []),
      rq_query = (\<lambda>k. if k = str ''cursor'' then token else if k = str ''limit'' then l else []),
      rq_body = [], rq_ctx = None\<rparr>"

lemma list_request_sel [simp]:
  "rq_method (list_request token l) = str ''GET''" "rq_path (list_request token l) = [v1, str ''docs'']"
  "rq_query (list_request token l) (str ''cursor'') = token" "rq_query (list_request token l) (str ''limit'') = l"
  "rq_ctx (list_request token l) = None"
  by (simp_all add: list_request_def)

text \<open>A client that asks for pages of \<open>l\<close> items and follows the tokens; \<open>fuel\<close> bounds its requests.\<close>

fun client_walk :: "nat \<Rightarrow> env \<Rightarrow> db server \<Rightarrow> gostring \<Rightarrow> gostring \<Rightarrow> gostring \<Rightarrow> db \<Rightarrow> list_item list list option" where
  "client_walk 0 en sv rand8 l token db = None"
| "client_walk (Suc fuel) en sv rand8 l token db =
     (case serve en sv rand8 (list_request token l) fresh_writer db of
        Returned w db' \<Rightarrow>
          (case w_body w of
             [Payload (List_Resp items next)] \<Rightarrow>
               if next = [] then Some [items]
               else map_option (Cons items) (client_walk fuel en sv rand8 l next db')
           | _ \<Rightarrow> None)
      | _ \<Rightarrow> None)"

lemma handle_list_no_panic: "handle_list_docs en sv rq w s \<noteq> Panicked w' s'"
  by (auto simp: handle_list_docs_def split: option.split sum.split)

lemma serve_list:
  "serve en sv rand8 (list_request token l) fresh_writer s
     = handle_list_docs en sv (tagged rand8 (list_request token l)) (opened rand8 (list_request token l)) s"
  using handle_list_no_panic [of en sv "tagged rand8 (list_request token l)" "opened rand8 (list_request token l)" s]
  by (simp add: serve_mux mux_def find_route_simps dispatch_def del: str_Cons split: outcome.split)

text \<open>The token of a document's position: it can be marshalled, as every time of the years 0 to 9999 can.\<close>

definition position :: "env \<Rightarrow> doc \<Rightarrow> cursor" where
  "position en d = \<lparr>cur_time = d_created d, cur_id = uuid_text en (d_id d)\<rparr>"

definition dated :: "env \<Rightarrow> doc \<Rightarrow> bool" where
  "dated en d \<longleftrightarrow> (case marshal_cursor en (position en d) of Inl e \<Rightarrow> False | Inr raw \<Rightarrow> True)"

lemma token_position:
  assumes "env_ok en" "dated en d"
  obtains t where "encode_cursor (marshal_cursor en) (position en d) = Inr t" "t \<noteq> []"
    "decode_cursor (unmarshal_cursor en) t = Inr (position en d)"
proof -
  from assms(2) obtain raw where raw: "marshal_cursor en (position en d) = Inr raw"
    by (auto simp: dated_def split: sum.splits)
  then have e: "encode_cursor (marshal_cursor en) (position en d) = Inr (b64_encode raw)" by (simp add: encode_cursor_def)
  have p: "valid_utf8 (cur_id (position en d))" "cur_id (position en d) \<noteq> []"
    using env_okD(2,3) [OF assms(1)] by (simp_all add: position_def)
  have "raw \<noteq> []" using env_okD(4) [OF assms(1)] p(1) raw unfolding json_cursor_def by blast
  with cursor_roundtrip_lemma [OF env_okD(4) [OF assms(1)] p e] e that show thesis by (simp add: b64_encode_Nil)
qed

text \<open>\<open>token\<close> stands for the arguments \<open>(t, i)\<close> of \<open>ListDocs\<close>.\<close>

definition token_for :: "env \<Rightarrow> gostring \<Rightarrow> time \<Rightarrow> uuid \<Rightarrow> bool" where
  "token_for en token t i \<longleftrightarrow>
     (\<exists>c. decode_cursor (unmarshal_cursor en) token = Inr c \<and> cur_time c = t \<and> parse_uuid_or_nil en (cur_id c) = i)"

lemma token_first: "token_for en [] 0 0"
  by (simp add: token_for_def decode_cursor_def zero_cursor_def parse_uuid_or_nil_def)

lemma next_token_position:
  assumes "env_ok en" "int (length ds) = n" "0 < n" "list_all (dated en) ds"
  shows "next_token en n ds \<noteq> [] \<and> token_for en (next_token en n ds) (d_created (last ds)) (d_id (last ds))"
proof -
  have "dated en (last ds)" using assms(2-4) by (cases ds) (auto simp: list_all_iff)
  from token_position [OF assms(1) this] obtain t where
    t: "encode_cursor (marshal_cursor en) (position en (last ds)) = Inr t" "t \<noteq> []"
    "decode_cursor (unmarshal_cursor en) t = Inr (position en (last ds))" by blast
  then have "next_token en n ds = t" using assms(2) by (simp add: next_token_def position_def)
  then show ?thesis
    using t env_okD(1,2) [OF assms(1)] by (simp add: token_for_def position_def parse_uuid_or_nil_def)
qed

lemma list_docs_subset: "list_docs f t i n db = Inr ds \<Longrightarrow> set ds \<subseteq> set (docs db)"
  by (auto simp: list_docs_def call_def Let_def split: fault.splits if_splits dest!: in_set_takeD)

lemma client_walk_walk:
  assumes "env_ok en" "list_all (dated en) (docs db)" "list_limit l = Some n" "0 < n" "io_fault io 0 = NoFault"
  shows "token_for en token t i \<Longrightarrow> client_walk fuel en (new_server en g emb r io) rand8 l token db
     = map_option (map (map (item_of en))) (walk fuel n db t i)"
proof (induction fuel arbitrary: token t i)
  case 0
  then show ?case by simp
next
  case (Suc fuel)
  then obtain c where c: "decode_cursor (unmarshal_cursor en) token = Inr c" "cur_time c = t" "parse_uuid_or_nil en (cur_id c) = i"
    unfolding token_for_def by blast
  show ?case
  proof (cases "list_docs NoFault t i n db")
    case (Inl e)
    then show ?thesis by (simp add: list_docs_def Let_def)
  next
    case (Inr ds)
    have "list_all (dated en) ds" using list_docs_subset [OF Inr] assms(2) by (auto simp: list_all_iff)
    note next_p = next_token_position [OF assms(1) _ assms(4) this]
    have s: "serve en (new_server en g emb r io) rand8 (list_request token l) fresh_writer db
        = Returned (reply_ok en (List_Resp (map (item_of en) ds) (next_token en n ds)) (opened rand8 (list_request token l))) db"
      using c Inr assms(3,5) by (simp add: serve_list handle_list_docs_def del: str_Cons)
    show ?thesis
    proof (cases "int (length ds) = n")
      case False
      then show ?thesis using s Inr by (simp add: next_token_def)
    next
      case True
      from next_p [OF True] Suc.IH [of "next_token en n ds" "d_created (last ds)" "d_id (last ds)"]
      have "next_token en n ds \<noteq> []" "client_walk fuel en (new_server en g emb r io) rand8 l (next_token en n ds) db
          = map_option (map (map (item_of en))) (walk fuel n db (d_created (last ds)) (d_id (last ds)))" by blast+
      with s Inr True show ?thesis by (simp add: option.map_comp comp_def)
    qed
  qed
qed

text \<open>C8. A client that follows \<open>next_cursor\<close> from the first page sees every live document exactly once,
  newest first, whatever page size it asks for: the items of all pages, put together, are those of the
  sorted list of the live rows, and it needs at most one request more than there are rows.\<close>

theorem pages_list_everything:
  assumes "db_ok db" "env_ok en" "list_all (\<lambda>d. d_id d \<noteq> 0) (docs db)" "list_all (dated en) (docs db)"
    "list_limit l = Some n" "io_fault io 0 = NoFault"
  shows "\<exists>pages. client_walk (Suc (length (docs db))) en (new_server en g emb r io) rand8 l [] db = Some pages
    \<and> concat pages = map (item_of en) (listing db)
    \<and> sorted_wrt newer (listing db) \<and> mset (listing db) = mset (filter live (docs db))"
proof -
  have n: "0 < n" "n \<le> 200" using assms(5) by (auto simp: list_limit_def split: if_splits option.splits)
  from walk_all_pages [OF assms(1,3) n] obtain pages where
    "walk (Suc (length (docs db))) n db 0 0 = Some pages" "concat pages = listing db" by blast
  moreover have "mset (listing db) = mset (filter live (docs db))" by (simp add: listing_def)
  moreover have "client_walk (Suc (length (docs db))) en (new_server en g emb r io) rand8 l [] db
      = map_option (map (map (item_of en))) (walk (Suc (length (docs db))) n db 0 0)"
    by (rule client_walk_walk [OF assms(2,4,5) n(1) assms(6) token_first])
  ultimately show ?thesis using sorted_listing [OF assms(1)] by (metis map_concat option.simps(9))
qed

lemma ex_limit: "list_limit (str ''1'') = Some 1"
  by (simp add: list_limit_def atoi_def Let_def read_nat_def digit_of_def is_dec_def)

lemma ex_created: "time_encodable (\<lambda>t. 0) 100"
  by code_simp

theorem pages_list_everything_witness:
  "\<exists>pages. client_walk (Suc (Suc 0)) ex_env (new_server ex_env ex_pg ex_emb None ex_io) [1] (str ''1'') [] ex_db = Some pages
    \<and> concat pages = map (item_of ex_env) (listing ex_db)"
proof -
  have d: "list_all (\<lambda>d. d_id d \<noteq> 0) (docs ex_db)" "list_all (dated ex_env) (docs ex_db)" "length (docs ex_db) = Suc 0"
    by (simp_all add: docs_ex_db new_row_def dated_def cursor_to_json_def position_def ex_created)
  have f: "io_fault ex_io 0 = NoFault" by (simp add: ex_io_def)
  from pages_list_everything [OF ex_db_ok ex_env_ok d(1,2) ex_limit f, of ex_pg ex_emb None "[1]"] d(3) show ?thesis by auto
qed

section \<open>A panic\<close>

text \<open>C40. The panic envelope has lost the request id: when the embedder answers with fewer vectors than
  texts, the index handler panics on \<open>embeds[i]\<close> and the reply carries the request's id in its header, but
  \<open>unknown\<close> in the envelope, because \<open>Recoverer\<close> wraps \<open>RequestID\<close> and not the other way round. The tables are
  unchanged.\<close>

theorem panic_loses_request_id:
  assumes "rq_method rq = str ''POST''" "rq_path rq = [v1, str ''index'']" "rq_ctx rq = None"
    and "dec_index en (rq_body rq) = Some req"
    and "trim_space (ir_source req) \<noteq> []" "trim_space (ir_title req) \<noteq> []" "trim_space (ir_body req) \<noteq> []"
    and "split_chunks (ir_body req) zero_opts = Some cs" "embed_batched emb 32 (map ck_text cs) = Inr vs"
      "length vs < length cs"
  shows "\<exists>w h. serve en (new_server en g emb r io) rand8 rq fresh_writer db = Returned w db
    \<and> w_sent w = Some (500, h) \<and> h x_request_id = Some (rid_of rand8 rq)
    \<and> w_body w = [Envelope \<lparr>env_code = str ''panic'', env_message = str ''handler panicked'', env_retryable = False,
                   env_request_id = str ''unknown''\<rparr>]"
proof -
  have "find_route (rq_method rq) (rq_path rq) = Some (Index_E, [])"
    unfolding assms(1,2) by (rule find_route_simps)
  moreover have "handle_index en (new_server en g emb r io) (tagged rand8 rq) (opened rand8 rq) db
      = Panicked (opened rand8 rq) db"
    using assms(4-10) by (simp add: handle_index_def store_chunks_def)
  ultimately show ?thesis
    by (simp add: serve_mux mux_def dispatch_def write_error_def request_id_from_def internal_def assms(3) Let_def del: str_Cons)
qed

theorem panic_loses_request_id_witness:
  "\<exists>w h. serve ex_env (new_server ex_env ex_pg (\<lambda>ts. Inr []) None ex_io) [1] ex_post fresh_writer ex_db = Returned w ex_db
    \<and> w_sent w = Some (500, h) \<and> h x_request_id = Some (str ''01'')
    \<and> w_body w = [Envelope \<lparr>env_code = str ''panic'', env_message = str ''handler panicked'', env_retryable = False,
                   env_request_id = str ''unknown''\<rparr>]"
proof -
  have r: "rid_of [1] ex_post = str ''01''"
    by (simp add: rid_of_def ex_post_def new_id_def hex_encode_def hex_digit_def)
  have e: "embed_batched (\<lambda>ts. Inr []) 32 (map ck_text [\<lparr>ck_index = 0, ck_text = [98]\<rparr>]) = Inr []"
    by (simp add: embed_batched_def batch_loop.simps norm_batch_def)
  have m: "rq_method ex_post = str ''POST''" "rq_path ex_post = [v1, str ''index'']" "rq_ctx ex_post = None"
    "dec_index ex_env (rq_body ex_post) = Some \<lparr>ir_source = str ''s'', ir_title = str ''t'', ir_body = [98]\<rparr>"
    by (simp_all add: ex_post_def)
  from panic_loses_request_id [OF m _ _ _ _ e, of ex_pg None ex_io "[1]" ex_db] r
  show ?thesis by (simp add: trim_letter ex_split del: str_Cons) (simp add: trim_letter)
qed

end
