(* ===== verification/Seed.thy ===== *)
theory Seed
  imports Go_Errors Utf8 Sha256 Http
begin

text \<open>
  \<open>internal/seed/seed.go\<close>: the synthetic corpus of the indexer and the bench. The source of random
  numbers is a parameter: \<open>intn n g\<close> is the number \<open>rand.Rand\<close> draws below \<open>n\<close> in state \<open>g\<close>, and the next
  state; what the code relies on is \<open>draws_below\<close>.
\<close>

section \<open>Data\<close>

record seed_doc =
  sd_source :: gostring
  sd_title :: gostring
  sd_body :: gostring
  sd_hash :: gostring

record topic =
  tp_name :: gostring
  tp_subjects :: "gostring list"
  tp_verbs :: "gostring list"
  tp_objects :: "gostring list"
  tp_tail :: gostring

definition topics :: "topic list" where
  "topics =
     [\<lparr>tp_name = str ''databases'',
       tp_subjects = [str ''the query planner'', str ''an index scan'', str ''the optimizer'', str ''a sequential scan'', str ''the buffer cache''],
       tp_verbs = [str ''reorders'', str ''uses'', str ''evaluates'', str ''rewrites'', str ''estimates''],
       tp_objects = [str ''a hash join'', str ''the predicate'', str ''the cost model'', str ''the row count'', str ''the access path''],
       tp_tail = str ''before producing the final plan.''\<rparr>,
      \<lparr>tp_name = str ''distributed'',
       tp_subjects = [str ''each replica'', str ''the coordinator'', str ''a follower'', str ''the leader'', str ''the gossip layer''],
       tp_verbs = [str ''applies'', str ''fences'', str ''replicates'', str ''validates'', str ''commits''],
       tp_objects = [str ''a log entry'', str ''the heartbeat'', str ''the snapshot'', str ''the configuration change'', str ''the term boundary''],
       tp_tail = str ''before acknowledging the write.''\<rparr>,
      \<lparr>tp_name = str ''compilers'',
       tp_subjects = [str ''the front end'', str ''the type checker'', str ''the lowering pass'', str ''the register allocator'', str ''the backend''],
       tp_verbs = [str ''emits'', str ''rewrites'', str ''infers'', str ''specialises'', str ''spills''],
       tp_objects = [str ''the IR'', str ''a phi node'', str ''the call graph'', str ''the control flow'', str ''the live range''],
       tp_tail = str ''before machine code is selected.''\<rparr>,
      \<lparr>tp_name = str ''networking'',
       tp_subjects = [str ''the connection'', str ''an idle stream'', str ''the receiver'', str ''the sender'', str ''the congestion controller''],
       tp_verbs = [str ''acknowledges'', str ''retransmits'', str ''shrinks'', str ''probes'', str ''smooths''],
       tp_objects = [str ''the window'', str ''the round-trip estimate'', str ''a lost segment'', str ''the pacing rate'', str ''the RTO''],
       tp_tail = str ''while the loss event is in flight.''\<rparr>,
      \<lparr>tp_name = str ''machine-learning'',
       tp_subjects = [str ''the encoder'', str ''a residual block'', str ''the attention head'', str ''the optimiser'', str ''the scheduler''],
       tp_verbs = [str ''projects'', str ''normalises'', str ''scales'', str ''blends'', str ''warms''],
       tp_objects = [str ''the gradient'', str ''the activation'', str ''a learned bias'', str ''the learning rate'', str ''the dropout mask''],
       tp_tail = str ''during the forward pass.''\<rparr>,
      \<lparr>tp_name = str ''operating-systems'',
       tp_subjects = [str ''the kernel'', str ''a user thread'', str ''the scheduler'', str ''the page allocator'', str ''the TLB''],
       tp_verbs = [str ''flushes'', str ''preempts'', str ''reclaims'', str ''evicts'', str ''promotes''],
       tp_objects = [str ''the working set'', str ''a dirty page'', str ''the run queue'', str ''the inode cache'', str ''the wait list''],
       tp_tail = str ''before returning to userspace.''\<rparr>]"

section \<open>The generator\<close>

type_synonym 'g intn = "nat \<Rightarrow> 'g \<Rightarrow> nat \<times> 'g"

definition draws_below :: "'g intn \<Rightarrow> bool" where
  "draws_below intn \<longleftrightarrow> (\<forall>n g. 0 < n \<longrightarrow> fst (intn n g) < n)"

text \<open>\<open>xs[g.r.Intn(len(xs))]\<close>.\<close>

definition pick :: "'g intn \<Rightarrow> 'a list \<Rightarrow> 'g \<Rightarrow> 'a \<times> 'g" where
  "pick intn xs g = (let (i, g) = intn (length xs) g in (xs ! i, g))"

definition sentence :: "'g intn \<Rightarrow> topic \<Rightarrow> 'g \<Rightarrow> gostring \<times> 'g" where
  "sentence intn t g =
     (let (s, g) = pick intn (tp_subjects t) g;
          (v, g) = pick intn (tp_verbs t) g;
          (ob, g) = pick intn (tp_objects t) g
      in (s @ str '' '' @ v @ str '' '' @ ob @ str '' '' @ tp_tail t @ str '' '', g))"

lemma sentence_nonempty [simp]: "fst (sentence intn t g) \<noteq> []"
  by (simp add: sentence_def Let_def split: prod.split)

function body_loop :: "'g intn \<Rightarrow> topic \<Rightarrow> int \<Rightarrow> gostring \<Rightarrow> 'g \<Rightarrow> gostring \<times> 'g" where
  "body_loop intn t target b g =
     (if int (length b) < target
      then body_loop intn t target (b @ fst (sentence intn t g)) (snd (sentence intn t g))
      else (b, g))"
  by pat_completeness auto
termination
  by (relation "measure (\<lambda>(intn, t, target, b, g). nat (target - int (length b)))")
     (auto simp: nat_less_eq_zless)

declare body_loop.simps [simp del]

definition next_doc :: "'g intn \<Rightarrow> int \<Rightarrow> int \<Rightarrow> int \<Rightarrow> 'g \<Rightarrow> seed_doc \<times> 'g" where
  "next_doc intn i min_chars max_chars g =
     (let (t, g) = pick intn topics g;
          span = max_chars - min_chars + 1;
          span = (if span < 1 then 1 else span);
          (x, g) = intn (nat span) g;
          target = min_chars + int x;
          (b, g) = body_loop intn t target [] g;
          body = trim_space b
      in (\<lparr>sd_source = str ''synthetic://'' @ tp_name t @ str ''/'' @ dec_int i,
           sd_title = tp_name t @ str '' note '' @ dec_int i,
           sd_body = body, sd_hash = hex_encode (sum256 body)\<rparr>, g))"

definition next_query :: "'g intn \<Rightarrow> 'g \<Rightarrow> gostring \<times> 'g" where
  "next_query intn g =
     (let (t, g) = pick intn topics g;
          (kind, g) = intn 3 g
      in if kind = 0 then pick intn (tp_objects t) g
         else if kind = 1
         then let (a, g) = pick intn (tp_subjects t) g; (b, g) = pick intn (tp_objects t) g
              in (a @ str '' '' @ b, g)
         else let (a, g) = pick intn (tp_verbs t) g; (b, g) = pick intn (tp_objects t) g
              in (str ''how does '' @ a @ str '' affect '' @ b, g))"

fun query_workload :: "'g intn \<Rightarrow> nat \<Rightarrow> 'g \<Rightarrow> gostring list \<times> 'g" where
  "query_workload intn 0 g = ([], g)"
| "query_workload intn (Suc n) g =
     (let (q, g) = next_query intn g; (qs, g) = query_workload intn n g in (q # qs, g))"

fun generate :: "'g intn \<Rightarrow> int \<Rightarrow> int \<Rightarrow> nat \<Rightarrow> int \<Rightarrow> 'g \<Rightarrow> seed_doc list \<times> 'g" where
  "generate intn lo hi 0 i g = ([], g)"
| "generate intn lo hi (Suc n) i g =
     (let (d, g) = next_doc intn i lo hi g; (ds, g) = generate intn lo hi n (i + 1) g in (d # ds, g))"

section \<open>The texts\<close>

text \<open>The vocabulary: plain ASCII, no white space at the ends, and sentences of at most 98 bytes.\<close>

definition tidy :: "gostring \<Rightarrow> bool" where
  "tidy s \<longleftrightarrow> s \<noteq> [] \<and> list_all (\<lambda>b. unat b < 128) s \<and> \<not> is_space (unat (hd s)) \<and> \<not> is_space (unat (last s))"

definition widest :: "topic \<Rightarrow> nat" where
  "widest t = Max (set (map length (tp_subjects t))) + Max (set (map length (tp_verbs t)))
     + Max (set (map length (tp_objects t))) + length (tp_tail t) + 4"

definition topic_ok :: "topic \<Rightarrow> bool" where
  "topic_ok t \<longleftrightarrow> tp_subjects t \<noteq> [] \<and> tp_verbs t \<noteq> [] \<and> tp_objects t \<noteq> []
     \<and> list_all tidy (tp_tail t # tp_subjects t @ tp_verbs t @ tp_objects t) \<and> widest t \<le> 98"

lemma topics_ok: "list_all topic_ok topics"
  by (simp add: topics_def topic_ok_def tidy_def widest_def is_space_def)

lemma segs_ascii: "list_all (\<lambda>b. unat b < 128) s \<Longrightarrow> segs s = map (\<lambda>b. (unat b, [b])) s"
  by (induction s) (simp_all add: segs_step)

lemma trim_tidy:
  assumes "tidy s"
  shows "trim_space (s @ [32]) = s"
proof -
  have a: "list_all (\<lambda>b. unat b < 128) (s @ [32])" using assms by (simp add: tidy_def)
  have sp: "is_space (unat (32 :: byte))" by (simp add: is_space_def)
  have "trim (is_space \<circ> unat) (s @ [32]) = s"
  proof -
    from assms obtain c r where s: "s = c # r" "\<not> is_space (unat c)" by (cases s) (auto simp: tidy_def)
    from assms obtain q d where e: "s = q @ [d]" "\<not> is_space (unat d)" by (cases s rule: rev_cases) (auto simp: tidy_def)
    have "dropWhile (is_space \<circ> unat) (s @ [32]) = s @ [32]" using s by simp
    moreover have "dropWhile (is_space \<circ> unat) (rev (s @ [32])) = rev s" using sp e by simp
    ultimately show ?thesis by (simp add: trim_def)
  qed
  moreover have "trim (is_space \<circ> fst) (map (\<lambda>b. (unat b, [b])) xs)
      = map (\<lambda>b. (unat b, [b])) (trim (is_space \<circ> unat) xs)" for xs :: gostring
    unfolding trim_map by (simp add: comp_def)
  ultimately have "trim_space (s @ [32]) = concat (map snd (map (\<lambda>b. (unat b, [b])) s))"
    by (simp only: trim_space_def segs_ascii [OF a])
  then show ?thesis by (simp add: comp_def)
qed

lemma tidy_join: "tidy a \<Longrightarrow> tidy b \<Longrightarrow> tidy (a @ str '' '' @ b)"
  by (simp add: tidy_def)

lemma tidy_pad: "tidy a \<Longrightarrow> tidy b \<Longrightarrow> tidy (a @ [32] @ b)"
  by (simp add: tidy_def)

lemma pick_in: "draws_below intn \<Longrightarrow> xs \<noteq> [] \<Longrightarrow> fst (pick intn xs g) \<in> set xs"
  by (simp add: pick_def draws_below_def split: prod.split) (metis fst_conv length_greater_0_conv nth_mem)

lemma pick_tidy:
  "draws_below intn \<Longrightarrow> xs \<noteq> [] \<Longrightarrow> list_all tidy xs \<Longrightarrow>
     tidy (fst (pick intn xs g)) \<and> length (fst (pick intn xs g)) \<le> Max (set (map length xs))"
  using pick_in [of intn xs g] by (auto simp: list_all_iff)

lemma sentence_tidy:
  assumes "draws_below intn" "topic_ok t"
  shows "\<exists>s. fst (sentence intn t g) = s @ [32] \<and> tidy s \<and> length s < 98"
proof -
  obtain s g1 where s: "pick intn (tp_subjects t) g = (s, g1)" by fastforce
  obtain v g2 where v: "pick intn (tp_verbs t) g1 = (v, g2)" by fastforce
  obtain ob g3 where ob: "pick intn (tp_objects t) g2 = (ob, g3)" by fastforce
  have ok: "tp_subjects t \<noteq> []" "tp_verbs t \<noteq> []" "tp_objects t \<noteq> []" "list_all tidy (tp_subjects t)"
    "list_all tidy (tp_verbs t)" "list_all tidy (tp_objects t)" "tidy (tp_tail t)" "widest t \<le> 98"
    using assms(2) by (simp_all add: topic_ok_def)
  note p = pick_tidy [OF assms(1) ok(1,4), of g] pick_tidy [OF assms(1) ok(2,5), of g1] pick_tidy [OF assms(1) ok(3,6), of g2]
  have "tidy (s @ str '' '' @ v @ str '' '' @ ob @ str '' '' @ tp_tail t)"
    using p ok(7) by (simp add: s v ob tidy_join del: str_Cons)
  moreover have "length (s @ str '' '' @ v @ str '' '' @ ob @ str '' '' @ tp_tail t) < 98"
    using p ok(8) by (simp add: s v ob widest_def)
  moreover have "fst (sentence intn t g) = (s @ str '' '' @ v @ str '' '' @ ob @ str '' '' @ tp_tail t) @ [32]"
    by (simp add: sentence_def Let_def s v ob)
  ultimately show ?thesis by blast
qed

text \<open>What the loop has built: nothing, or tidy text and a blank.\<close>

definition built :: "gostring \<Rightarrow> bool" where
  "built b \<longleftrightarrow> b = [] \<or> (b \<noteq> [] \<and> last b = 32 \<and> tidy (butlast b))"

lemma built_append: "built b \<Longrightarrow> tidy s \<Longrightarrow> built (b @ s @ [32])"
proof -
  assume b: "built b" and s: "tidy s"
  show ?thesis
  proof (cases "b = []")
    case False
    with b have "b = butlast b @ [32]" "tidy (butlast b)" by (auto simp: built_def) (metis append_butlast_last_id)
    then have "tidy (b @ s)" using tidy_pad [OF _ s] by (metis append.assoc)
    then show ?thesis by (simp add: built_def butlast_append)
  qed (use s in \<open>simp add: built_def butlast_append\<close>)
qed

lemma body_loop_result:
  assumes "draws_below intn" "topic_ok t"
  shows "built b \<Longrightarrow> built (fst (body_loop intn t target b g)) \<and> target \<le> int (length (fst (body_loop intn t target b g)))
    \<and> (fst (body_loop intn t target b g) = b \<or> int (length (fst (body_loop intn t target b g))) < target + 98)"
proof (induction intn\<equiv>intn t\<equiv>t target b g rule: body_loop.induct)
  case (1 target b g)
  show ?case
  proof (cases "int (length b) < target")
    case True
    obtain s where s: "fst (sentence intn t g) = s @ [32]" "tidy s" "length s < 98"
      using sentence_tidy [OF assms] by blast
    have "built (b @ fst (sentence intn t g))" using built_append [OF 1(2) s(2)] s(1) by simp
    note IH = 1(1) [OF True this]
    have l: "int (length (b @ fst (sentence intn t g))) < target + 98" using s True by simp
    have u: "body_loop intn t target b g
        = body_loop intn t target (b @ fst (sentence intn t g)) (snd (sentence intn t g))"
      using True by (subst body_loop.simps) simp
    show ?thesis unfolding u using IH l by auto
  next
    case False
    then have "body_loop intn t target b g = (b, g)" by (subst body_loop.simps) simp
    with False 1(2) show ?thesis by simp
  qed
qed

lemma topics_nonempty: "topics \<noteq> []"
  by (simp add: topics_def)

lemma topic_picked: "draws_below intn \<Longrightarrow> topic_ok (fst (pick intn topics g))"
  using pick_in [of intn topics g] topics_nonempty topics_ok by (simp add: list_all_iff)

section \<open>Properties\<close>

text \<open>A generated body is never blank but for a target of zero, is a whole number of sentences without
  white space at the ends, and is at least \<open>minChars - 1\<close> and at most \<open>maxChars + 96\<close> bytes long: the last
  sentence may run past the target, and the blank after it is trimmed.\<close>

theorem next_doc_bounds:
  assumes "draws_below intn" "lo \<le> hi" "0 < lo" "next_doc intn i lo hi g = (d, g')"
  shows "lo - 1 \<le> int (length (sd_body d)) \<and> int (length (sd_body d)) \<le> hi + 96
    \<and> tidy (sd_body d) \<and> sd_hash d = hex_encode (sum256 (sd_body d))"
proof -
  obtain t g1 where t: "pick intn topics g = (t, g1)" by fastforce
  obtain x g2 where x: "intn (nat (hi - lo + 1)) g1 = (x, g2)" by fastforce
  obtain b g3 where b: "body_loop intn t (lo + int x) [] g2 = (b, g3)" by fastforce
  have tok: "topic_ok t" using topic_picked [OF assms(1), of g] t by simp
  have "fst (intn (nat (hi - lo + 1)) g1) < nat (hi - lo + 1)"
    using assms(1,2) by (simp add: draws_below_def)
  then have xb: "int x \<le> hi - lo" using x by simp
  have e: "\<not> hi - lo + 1 < 1" using assms(2) by simp
  have d: "sd_body d = trim_space b" "sd_hash d = hex_encode (sum256 (trim_space b))"
    using assms(4) unfolding next_doc_def Let_def t x b prod.case if_not_P [OF e] by (auto simp: t x b)
  from body_loop_result [OF assms(1) tok, of "[]" "lo + int x" g2] b
  have r: "built b" "lo + int x \<le> int (length b)" "b = [] \<or> int (length b) < lo + int x + 98" by (auto simp: built_def)
  then have ne: "b \<noteq> []" using assms(3) by auto
  then have b': "b = butlast b @ [32]" "tidy (butlast b)" using r(1) by (auto simp: built_def) (metis append_butlast_last_id)
  then have tb: "trim_space b = butlast b" by (metis trim_tidy)
  have l: "int (length (butlast b)) = int (length b) - 1" using ne by (cases b) auto
  show ?thesis using d tb l r(2,3) xb ne b'(2) by auto
qed

theorem next_doc_bounds_witness:
  "\<exists>d g'. next_doc (\<lambda>n g. (g mod n, g + 1)) 0 200 2000 (5 :: nat) = (d, g')
     \<and> 199 \<le> int (length (sd_body d)) \<and> int (length (sd_body d)) \<le> 2096"
proof -
  obtain d g' where d: "next_doc (\<lambda>n g. (g mod n, g + 1)) 0 200 2000 (5 :: nat) = (d, g')" by fastforce
  have "draws_below (\<lambda>n g. (g mod n, g + 1 :: nat))" by (simp add: draws_below_def)
  from next_doc_bounds [OF this _ _ d] d show ?thesis by auto
qed

lemma next_query_tidy:
  assumes "draws_below intn"
  shows "tidy (fst (next_query intn g))"
proof -
  obtain t g1 where t: "pick intn topics g = (t, g1)" by fastforce
  obtain k g2 where k: "intn 3 g1 = (k, g2)" by fastforce
  have ok: "tp_subjects t \<noteq> []" "tp_verbs t \<noteq> []" "tp_objects t \<noteq> []" "list_all tidy (tp_subjects t)"
    "list_all tidy (tp_verbs t)" "list_all tidy (tp_objects t)"
    using topic_picked [OF assms, of g] t by (simp_all add: topic_ok_def)
  note p = pick_tidy [OF assms ok(1,4)] pick_tidy [OF assms ok(2,5)] pick_tidy [OF assms ok(3,6)]
  have how: "tidy (str ''how does '' @ a @ str '' affect '' @ b)" if "tidy a" "tidy b" for a b
    using that by (simp add: tidy_def is_space_def)
  obtain s g3 where s: "pick intn (tp_subjects t) g2 = (s, g3)" by fastforce
  obtain v g4 where v: "pick intn (tp_verbs t) g2 = (v, g4)" by fastforce
  consider "k = 0" | "k = 1" | "k \<noteq> 0" "k \<noteq> 1" by blast
  then show ?thesis
  proof cases
    case 1
    then show ?thesis using p(3) [of g2] by (simp add: next_query_def Let_def t k)
  next
    case 2
    then show ?thesis using p(1) [of g2] p(3) [of g3]
      by (cases "pick intn (tp_objects t) g3") (simp add: next_query_def Let_def t k s tidy_join del: str_Cons)
  next
    case 3
    then show ?thesis using p(2) [of g2] p(3) [of g4]
      by (cases "pick intn (tp_objects t) g4") (simp add: next_query_def Let_def t k v how del: str_Cons)
  qed
qed

text \<open>A workload of n queries has n of them, and each is a text the query endpoint does not refuse as
  blank: not empty, plain ASCII, without white space at the ends.\<close>

theorem query_workload_tidy:
  assumes "draws_below intn"
  shows "length (fst (query_workload intn n g)) = n \<and> list_all tidy (fst (query_workload intn n g))"
proof (induction n arbitrary: g)
  case (Suc n)
  obtain q g1 where q: "next_query intn g = (q, g1)" by fastforce
  with next_query_tidy [OF assms, of g] Suc [of g1] show ?case by (cases "query_workload intn n g1") simp
qed simp

theorem query_workload_tidy_witness:
  "length (fst (query_workload (\<lambda>n g. (g mod n, g + 1)) 4 (5 :: nat))) = 4"
  using query_workload_tidy [of "\<lambda>n g. (g mod n, g + 1 :: nat)" 4 5] by (simp only: draws_below_def) auto

end
