(* ===== verification/Regress.thy ===== *)
theory Regress
  imports Json "HOL-Library.Monad_Syntax"
begin

text \<open>
  \<open>cmd/bench-regress/main.go\<close>: the gate that compares a fresh benchmark with a committed baseline. Each
  metric gives a relative drift in float arithmetic; the exit status is 1 when one drift is above the
  tolerance. The artefacts are decoded from their JSON, and what the command prints is text. The lemmas bound
  what the rounding of the drift can hide. Opening a file is a parameter.
\<close>

section \<open>The artefacts\<close>

record mode_stats =
  ms_mode :: gostring
  ms_n :: int
  ms_p50 :: f64
  ms_p95 :: f64
  ms_p99 :: f64
  ms_p999 :: f64
  ms_max :: f64

record bench_result =
  br_docs :: int
  br_queries :: int
  br_docs_s :: f64
  br_chunks_s :: f64
  br_modes :: "mode_stats list"

text \<open>Decoding an artefact; what it does not have stays zero.\<close>

definition zero_stats :: mode_stats where
  "zero_stats = \<lparr>ms_mode = [], ms_n = 0, ms_p50 = Fin 0, ms_p95 = Fin 0, ms_p99 = Fin 0, ms_p999 = Fin 0, ms_max = Fin 0\<rparr>"

definition into_stats :: "json \<Rightarrow> mode_stats \<Rightarrow> mode_stats option" where
  "into_stats j old = do {
     fs \<leftarrow> members j;
     mode \<leftarrow> field ''mode'' into_string (ms_mode old) fs;
     n \<leftarrow> field ''n'' into_int (ms_n old) fs;
     p50 \<leftarrow> field ''p50_ms'' into_float (ms_p50 old) fs;
     p95 \<leftarrow> field ''p95_ms'' into_float (ms_p95 old) fs;
     p99 \<leftarrow> field ''p99_ms'' into_float (ms_p99 old) fs;
     p999 \<leftarrow> field ''p999_ms'' into_float (ms_p999 old) fs;
     mx \<leftarrow> field ''max_ms'' into_float (ms_max old) fs;
     Some \<lparr>ms_mode = mode, ms_n = n, ms_p50 = p50, ms_p95 = p95, ms_p99 = p99, ms_p999 = p999, ms_max = mx\<rparr>
   }"

definition decode_bench :: "gostring \<Rightarrow> bench_result option" where
  "decode_bench b = do {
     j \<leftarrow> json_decode b;
     fs \<leftarrow> members j;
     docs \<leftarrow> field ''docs'' into_int 0 fs;
     queries \<leftarrow> field ''queries'' into_int 0 fs;
     docs_s \<leftarrow> field ''index_docs_per_sec'' into_float (Fin 0) fs;
     chunks_s \<leftarrow> field ''index_chunks_per_sec'' into_float (Fin 0) fs;
     modes \<leftarrow> field ''modes'' (into_list into_stats zero_stats) [] fs;
     Some \<lparr>br_docs = docs, br_queries = queries, br_docs_s = docs_s, br_chunks_s = chunks_s, br_modes = modes\<rparr>
   }"

text \<open>\<open>loadResult\<close>; \<open>bad\<close> is the decoder's message for bytes it refuses.\<close>

definition load_result :: "(gostring \<Rightarrow> go_error + gostring) \<Rightarrow> (gostring \<Rightarrow> go_error) \<Rightarrow> gostring \<Rightarrow> go_error + bench_result" where
  "load_result open_file bad path =
     bind_err (open_file path) (\<lambda>bytes.
       wrap_err (str ''decode '' @ path) (case decode_bench bytes of None \<Rightarrow> Inl (bad bytes) | Some r \<Rightarrow> Inr r))"

text \<open>\<open>dr_minus\<close> is the sign of a delta that is zero: a value has no signed zero, and the report shows it.\<close>

record drift =
  dr_metric :: gostring
  dr_minus :: bool
  dr_delta :: f64
  dr_base :: f64
  dr_fresh :: f64

section \<open>The comparison\<close>

definition rel_drift :: "f64 \<Rightarrow> f64 \<Rightarrow> f64" where
  "rel_drift b f = f64_div (f64_sub f b) b"

definition throughput_drift :: "gostring \<Rightarrow> f64 \<Rightarrow> f64 \<Rightarrow> drift list" where
  "throughput_drift metric b f =
     (if f64_lt (Fin 0) b then [\<lparr>dr_metric = metric, dr_minus = True, dr_delta = f64_neg (rel_drift b f), dr_base = b, dr_fresh = f\<rparr>] else [])"

text \<open>The map keeps the last entry of a mode.\<close>

definition by_mode :: "mode_stats list \<Rightarrow> gostring \<rightharpoonup> mode_stats" where
  "by_mode ms = foldl (\<lambda>m x. m(ms_mode x \<mapsto> x)) Map.empty ms"

definition latencies_of :: "mode_stats \<Rightarrow> mode_stats \<Rightarrow> (gostring \<times> f64 \<times> f64) list" where
  "latencies_of bm fm =
     [(str ''p50'', ms_p50 bm, ms_p50 fm), (str ''p95'', ms_p95 bm, ms_p95 fm),
      (str ''p99'', ms_p99 bm, ms_p99 fm), (str ''p999'', ms_p999 bm, ms_p999 fm)]"

definition latency_drifts :: "f64 \<Rightarrow> mode_stats \<Rightarrow> mode_stats \<Rightarrow> drift list" where
  "latency_drifts min_lat bm fm =
     map (\<lambda>(name, b, f). \<lparr>dr_metric = ms_mode bm @ str ''/'' @ name, dr_minus = f64_lt b (Fin 0), dr_delta = rel_drift b f, dr_base = b, dr_fresh = f\<rparr>)
       (filter (\<lambda>(name, b, f). \<not> f64_lt b min_lat) (latencies_of bm fm))"

definition mode_drifts :: "f64 \<Rightarrow> (gostring \<rightharpoonup> mode_stats) \<Rightarrow> mode_stats \<Rightarrow> drift list" where
  "mode_drifts min_lat fresh_by_mode bm =
     (case fresh_by_mode (ms_mode bm) of
        None \<Rightarrow> [\<lparr>dr_metric = ms_mode bm @ str ''/missing'', dr_minus = False, dr_delta = PInf, dr_base = Fin 1, dr_fresh = Fin 0\<rparr>]
      | Some fm \<Rightarrow> latency_drifts min_lat bm fm)"

definition compare_results :: "bench_result \<Rightarrow> bench_result \<Rightarrow> f64 \<Rightarrow> drift list" where
  "compare_results b f min_lat =
     throughput_drift (str ''index_docs_per_sec'') (br_docs_s b) (br_docs_s f)
     @ throughput_drift (str ''index_chunks_per_sec'') (br_chunks_s b) (br_chunks_s f)
     @ concat (map (mode_drifts min_lat (by_mode (br_modes f))) (br_modes b))"

text \<open>The widths of the verbs count runes.\<close>

definition pad_right :: "nat \<Rightarrow> gostring \<Rightarrow> gostring" where
  "pad_right n s = s @ spaces (n - length (runes s))"

definition pad_left :: "nat \<Rightarrow> gostring \<Rightarrow> gostring" where
  "pad_left n s = spaces (n - length (runes s)) @ s"

definition verdict :: "f64 \<Rightarrow> drift \<Rightarrow> gostring" where
  "verdict tol d = (if f64_lt tol (dr_delta d) then str ''REGRESS'' else str ''ok'')"

definition report_row :: "f64 \<Rightarrow> drift \<Rightarrow> gostring" where
  "report_row tol d =
     pad_right 32 (dr_metric d) @ str '' '' @ pad_right 10 (fmt_float False 3 False (dr_base d)) @ str '' ''
     @ pad_right 10 (fmt_float False 3 False (dr_fresh d)) @ str '' ''
     @ pad_left 7 (fmt_float True 1 (dr_minus d) (f64_mul (dr_delta d) (Fin 100))) @ str ''% '' @ verdict tol d @ [10]"

definition report :: "drift list \<Rightarrow> f64 \<Rightarrow> gostring" where
  "report ds tol =
     pad_right 32 (str ''metric'') @ str '' '' @ pad_right 10 (str ''baseline'') @ str '' '' @ pad_right 10 (str ''fresh'') @ str '' ''
     @ pad_right 8 (str ''delta'') @ str '' verdict'' @ [10] @ concat (map (report_row tol) ds)"

text \<open>The exit status, and what goes to the two output streams. Flags are read by the package \<open>flag\<close>; \<open>load\<close> is
  \<open>load_result\<close> on the files.\<close>

definition regress_main :: "(gostring \<Rightarrow> go_error + bench_result) \<Rightarrow> gostring \<Rightarrow> gostring \<Rightarrow> f64 \<Rightarrow> f64 \<Rightarrow> nat \<times> gostring \<times> gostring" where
  "regress_main load baseline_path fresh_path tol min_lat =
     (if baseline_path = [] \<or> fresh_path = []
      then (2, [], str ''usage: bench-regress -baseline <path> -fresh <path> [-tol 0.30]'' @ [10])
      else case load baseline_path of
        Inl e \<Rightarrow> (2, [], str ''baseline: '' @ err_text e @ [10])
      | Inr baseline \<Rightarrow>
          (case load fresh_path of
             Inl e \<Rightarrow> (2, [], str ''fresh: '' @ err_text e @ [10])
           | Inr fresh \<Rightarrow>
               if br_docs baseline \<noteq> br_docs fresh
               then (2, [], str ''scale mismatch: baseline docs='' @ dec_int (br_docs baseline) @ str '', fresh docs=''
                              @ dec_int (br_docs fresh) @ [10])
               else
                 (let drifts = compare_results baseline fresh min_lat;
                      out = report drifts tol;
                      regressed = foldl (\<lambda>r d. if f64_lt tol (dr_delta d) then True else r) False drifts
                  in if regressed
                     then (1, out, [10] @ str ''FAIL: one or more metrics regressed beyond ''
                                     @ fmt_float False 0 False (f64_mul tol (Fin 100)) @ str ''%'' @ [10])
                     else (0, out @ [10] @ str ''OK: all metrics within tolerance'' @ [10], []))))"

text \<open>The flags of the command and their defaults; parsing them is the package \<open>flag\<close>.\<close>

record gate_flags =
  gf_baseline :: gostring
  gf_fresh :: gostring
  gf_tol :: f64
  gf_min_latency :: f64

definition gate_defaults :: gate_flags where
  "gate_defaults = \<lparr>gf_baseline = [], gf_fresh = [], gf_tol = f64_of_rat (30 / 100), gf_min_latency = f64_of_rat (1 / 2)\<rparr>"

definition gate_command :: "(gostring \<Rightarrow> go_error + bench_result) \<Rightarrow> gate_flags \<Rightarrow> nat \<times> gostring \<times> gostring" where
  "gate_command load fl = regress_main load (gf_baseline fl) (gf_fresh fl) (gf_tol fl) (gf_min_latency fl)"

text \<open>Without paths the command is refused; its default floor is a half exactly, its tolerance a little below three tenths.\<close>

lemma gate_defaults_values:
  "fst (gate_command load gate_defaults) = 2" "gf_min_latency gate_defaults = Fin (1 / 2)"
  "gf_tol gate_defaults = Fin (5404319552844595 / 18014398509481984)"
proof -
  show "fst (gate_command load gate_defaults) = 2" by (simp add: gate_command_def gate_defaults_def regress_main_def)
  have "rnd (pw (-1)) = pw (-1)" by (rule rnd_pw) simp
  then have "rnd (1 / 2) = 1 / 2" by (simp add: power_int_minus)
  then show "gf_min_latency gate_defaults = Fin (1 / 2)" by (simp add: gate_defaults_def f64_of_rat_Fin)
  have "rnd (3 / 10) = of_int 5404319552844595 * pw (-2 - 52)"
    by (rule rnd_eqI) (simp_all add: power_int_minus)
  then have "rnd (3 / 10) = 5404319552844595 / 18014398509481984" by (simp add: power_int_minus)
  then show "gf_tol gate_defaults = Fin (5404319552844595 / 18014398509481984)"
    by (simp add: gate_defaults_def f64_of_rat_Fin)
qed

section \<open>When the gate passes\<close>

lemma any_regressed:
  "foldl (\<lambda>r d. if f64_lt tol (dr_delta d) then True else r) r0 ds = (r0 \<or> \<not> list_all (\<lambda>d. \<not> f64_lt tol (dr_delta d)) ds)"
proof (induction ds arbitrary: r0)
  case (Cons d ds)
  then show ?case by (cases "f64_lt tol (dr_delta d)") (simp_all only: foldl_Cons list.pred_inject if_True if_False simp_thms)
qed simp

definition gate_ok :: "f64 \<Rightarrow> f64 \<Rightarrow> bench_result \<Rightarrow> bench_result \<Rightarrow> bool" where
  "gate_ok tol min_lat b f \<longleftrightarrow> list_all (\<lambda>d. \<not> f64_lt tol (dr_delta d)) (compare_results b f min_lat)"

lemma regress_main_exit:
  "fst (regress_main load bp fp tol ml) =
     (if bp = [] \<or> fp = [] then 2
      else case (load bp, load fp) of
        (Inr b, Inr f) \<Rightarrow> if br_docs b \<noteq> br_docs f then 2 else if gate_ok tol ml b f then 0 else 1
      | _ \<Rightarrow> 2)"
  unfolding regress_main_def any_regressed Let_def gate_ok_def by (simp split: sum.split)

lemma throughput_drift_ok:
  "list_all P (throughput_drift m b f) \<longleftrightarrow>
     \<not> f64_lt (Fin 0) b \<or> P \<lparr>dr_metric = m, dr_minus = True, dr_delta = f64_neg (rel_drift b f), dr_base = b, dr_fresh = f\<rparr>"
  by (simp add: throughput_drift_def)

lemma mode_drifts_ok:
  "list_all (\<lambda>d. \<not> f64_lt tol (dr_delta d)) (mode_drifts ml fbm bm) \<longleftrightarrow>
     (case fbm (ms_mode bm) of
        None \<Rightarrow> \<not> f64_lt tol PInf
      | Some fm \<Rightarrow> list_all (\<lambda>(name, x, y). f64_lt x ml \<or> \<not> f64_lt tol (rel_drift x y)) (latencies_of bm fm))"
  by (auto simp: mode_drifts_def latency_drifts_def latencies_of_def split: option.split)

lemma list_all_concat: "list_all P (concat xss) = list_all (list_all P) xss"
  by (induction xss) auto

lemma gate_ok_iff:
  "gate_ok tol ml b f \<longleftrightarrow>
     (\<not> f64_lt (Fin 0) (br_docs_s b) \<or> \<not> f64_lt tol (f64_neg (rel_drift (br_docs_s b) (br_docs_s f))))
   \<and> (\<not> f64_lt (Fin 0) (br_chunks_s b) \<or> \<not> f64_lt tol (f64_neg (rel_drift (br_chunks_s b) (br_chunks_s f))))
   \<and> list_all (\<lambda>bm. case by_mode (br_modes f) (ms_mode bm) of
        None \<Rightarrow> \<not> f64_lt tol PInf
      | Some fm \<Rightarrow> list_all (\<lambda>(name, x, y). f64_lt x ml \<or> \<not> f64_lt tol (rel_drift x y)) (latencies_of bm fm)) (br_modes b)"
  unfolding gate_ok_def compare_results_def list_all_append throughput_drift_ok list_all_concat list.pred_map
  by (simp add: comp_def mode_drifts_ok)

lemma by_mode_rev: "by_mode ms = map_of (rev (map (\<lambda>x. (ms_mode x, x)) ms))"
proof (induction ms rule: rev_induct)
  case (snoc x ms)
  then show ?case by (simp add: by_mode_def)
qed (simp add: by_mode_def)

lemma by_mode_Some: "by_mode ms k = Some x \<Longrightarrow> x \<in> set ms \<and> ms_mode x = k"
  by (auto simp: by_mode_rev dest: map_of_SomeD)

lemma by_mode_dom: "k \<in> ms_mode ` set ms \<Longrightarrow> \<exists>x. by_mode ms k = Some x"
proof -
  assume "k \<in> ms_mode ` set ms"
  then have "k \<in> fst ` set (rev (map (\<lambda>x. (ms_mode x, x)) ms))" by (simp add: image_image)
  then have "map_of (rev (map (\<lambda>x. (ms_mode x, x)) ms)) k \<noteq> None" by (simp only: map_of_eq_None_iff not_not)
  then show ?thesis by (simp only: by_mode_rev not_None_eq)
qed

lemma by_mode_distinct:
  assumes "distinct (map ms_mode ms)" "x \<in> set ms"
  shows "by_mode ms (ms_mode x) = Some x"
proof -
  obtain y where y: "by_mode ms (ms_mode x) = Some y" using by_mode_dom assms(2) by blast
  have "inj_on ms_mode (set ms)" using assms(1) by (simp add: distinct_map)
  with by_mode_Some [OF y] assms(2) have "y = x" by (simp add: inj_on_def)
  with y show ?thesis by simp
qed

section \<open>The rounding of a drift\<close>

lemma rnd_abs_error: "\<bar>rnd q - q\<bar> \<le> \<bar>q\<bar> * pw (-53) + pw (-1075)"
proof (cases "q = 0")
  case False
  have h: "pw k / 2 = pw (k - 1)" for k using pw_Suc [of "k - 1"] by simp
  have "ulp q / 2 \<le> \<bar>q\<bar> * pw (-53) + pw (-1075)"
  proof (cases "-1022 \<le> expo q")
    case True
    then have "ulp q / 2 = pw (expo q) * pw (-53)" by (simp only: ulp_def h pw_add [symmetric]) simp
    also have "\<dots> \<le> \<bar>q\<bar> * pw (-53)" using expo_bounds(1) [OF False] by (intro mult_right_mono) auto
    finally show ?thesis using pw_pos [of "-1075"] by linarith
  next
    case False
    then have "ulp q / 2 = pw (-1075)" by (simp only: ulp_def h) simp
    then show ?thesis by simp
  qed
  with rnd_error [of q] show ?thesis by linarith
qed simp

definition slack :: "rat \<Rightarrow> rat \<Rightarrow> rat" where
  "slack x y = (\<bar>y - x\<bar> + x) * pw (-50)"

lemma rel_drift_error:
  assumes x: "pw (-400) \<le> x" "x \<le> 2 ^ 400" and y: "\<bar>y\<bar> \<le> 2 ^ 400"
  shows "\<exists>d. rel_drift (Fin x) (Fin y) = Fin d \<and> \<bar>d * x - (y - x)\<bar> \<le> slack x y"
proof -
  define e where "e = pw (-53)"
  define h where "h = pw (-1075)"
  define s where "s = rnd (y - x)"
  define d where "d = rnd (s / x)"
  have x0: "0 < x" using x(1) pw_pos [of "-400"] by linarith
  have e: "0 < e" "e \<le> 1" and h: "0 < h" "h \<le> 1" "2 * h \<le> e * pw (-400)" by (simp_all add: e_def h_def)
  define a where "a = \<bar>y - x\<bar>"
  have a0: "0 \<le> a" by (simp add: a_def)
  have dist: "a \<le> 2 ^ 401" using x0 x(2) y by (simp add: a_def)
  have s: "\<bar>s - (y - x)\<bar> \<le> a * e + h" unfolding s_def e_def h_def a_def by (rule rnd_abs_error)
  have ye: "a * e \<le> a * 1" using e a0 by (intro mult_left_mono) auto
  have s_le: "\<bar>s\<bar> \<le> 2 * a + h"
    using order_trans [OF abs_triangle_ineq [of "s - (y - x)" "y - x"] add_right_mono [OF s]] ye
    unfolding diff_add_cancel a_def [symmetric] by linarith
  have "\<bar>s\<bar> \<le> 2 ^ 403" using s_le dist h(2) by simp
  also have "\<dots> \<le> 2 ^ 1000 * pw (-400)" by simp
  also have "\<dots> \<le> 2 ^ 1000 * x" using x(1) by (intro mult_left_mono) auto
  finally have q: "\<bar>s / x\<bar> \<le> 2 ^ 1000" using x0 by (simp add: pos_divide_le_eq)
  have "(2 :: rat) ^ 401 \<le> 2 ^ 1000" by simp
  with dist have "f64_of_rat (y - x) = Fin s" unfolding s_def a_def by (intro f64_of_rat_Fin) linarith
  then have r: "rel_drift (Fin x) (Fin y) = Fin d"
    using x0 f64_of_rat_Fin [OF q] by (simp add: rel_drift_def f64_sub_def d_def)
  have "\<bar>d - s / x\<bar> * x \<le> (\<bar>s / x\<bar> * e + h) * x"
    using rnd_abs_error [of "s / x"] x0 unfolding d_def e_def h_def by (intro mult_right_mono) auto
  moreover have "\<bar>d - s / x\<bar> * x = \<bar>d * x - s\<bar>"
  proof -
    have "\<bar>d - s / x\<bar> * x = \<bar>(d - s / x) * x\<bar>" using x0 by (simp only: abs_mult abs_of_pos)
    then show ?thesis using x0 by (simp add: left_diff_distrib)
  qed
  moreover have "(\<bar>s / x\<bar> * e + h) * x = \<bar>s\<bar> * e + h * x" using x0 by (simp add: field_simps)
  ultimately have ds: "\<bar>d * x - s\<bar> \<le> \<bar>s\<bar> * e + h * x" by simp
  have se: "\<bar>s\<bar> * e \<le> (2 * a + h) * e" using s_le e by (intro mult_right_mono) auto
  have he: "h * e \<le> h * 1" using h e by (intro mult_left_mono) auto
  have "e * pw (-400) \<le> e * x" using x(1) e by (intro mult_left_mono) auto
  then have hx: "2 * h \<le> e * x" using h(3) by linarith
  have "h \<le> e" by (simp add: h_def e_def)
  then have hxx: "h * x \<le> e * x" using x0 by (intro mult_right_mono) auto
  have pos: "0 \<le> a * e" "0 \<le> e * x" using e x0 a0 by simp_all
  have "\<bar>d * x - (y - x)\<bar> \<le> \<bar>d * x - s\<bar> + \<bar>s - (y - x)\<bar>"
    using abs_triangle_ineq [of "d * x - s" "s - (y - x)"] by simp
  also have "\<dots> \<le> 8 * (a * e) + 8 * (e * x)"
    using ds s se he hx hxx pos unfolding distrib_right by linarith
  also have "\<dots> = slack x y" by (simp add: slack_def e_def a_def algebra_simps)
  finally show ?thesis using r by blast
qed

text \<open>A metric that did not get worse has no positive drift, whatever the rounding.\<close>

lemma f64_of_rat_nonpos: "q \<le> 0 \<Longrightarrow> f64_of_rat q = MInf \<or> (\<exists>r \<le> 0. f64_of_rat q = Fin r)"
  using rnd_mono [of q 0] by (auto simp: f64_of_rat_def Let_def)

lemma f64_of_rat_nonneg: "0 \<le> q \<Longrightarrow> f64_of_rat q = PInf \<or> (\<exists>r \<ge> 0. f64_of_rat q = Fin r)"
  using rnd_nonneg [of q] by (auto simp: f64_of_rat_def Let_def)

lemma rel_drift_nonpos:
  assumes "0 \<le> x" "0 \<le> y" "y \<le> x" "0 \<le> t"
  shows "\<not> f64_lt (Fin t) (rel_drift (Fin x) (Fin y))"
proof (cases "x = 0")
  case True
  with assms show ?thesis by (simp add: rel_drift_def f64_sub_def f64_inf_def)
next
  case False
  with assms(1) have x: "0 < x" by simp
  have "f64_of_rat (y - x) = MInf \<or> (\<exists>r \<le> 0. f64_of_rat (y - x) = Fin r)" using assms(3) by (intro f64_of_rat_nonpos) simp
  then have "rel_drift (Fin x) (Fin y) = MInf \<or> (\<exists>r \<le> 0. rel_drift (Fin x) (Fin y) = f64_of_rat (r / x))"
    using x by (auto simp: rel_drift_def f64_sub_def f64_inf_def)
  moreover have "f64_of_rat (r / x) = MInf \<or> (\<exists>r' \<le> 0. f64_of_rat (r / x) = Fin r')" if "r \<le> 0" for r
    using that x by (intro f64_of_rat_nonpos) (simp add: divide_nonpos_pos)
  ultimately show ?thesis using assms(4) by fastforce
qed

lemma throughput_not_lower:
  assumes "0 < x" "x \<le> y" "0 \<le> t"
  shows "\<not> f64_lt (Fin t) (f64_neg (rel_drift (Fin x) (Fin y)))"
proof -
  have "f64_of_rat (y - x) = PInf \<or> (\<exists>r \<ge> 0. f64_of_rat (y - x) = Fin r)" using assms(2) by (intro f64_of_rat_nonneg) simp
  then have "rel_drift (Fin x) (Fin y) = PInf \<or> (\<exists>r \<ge> 0. rel_drift (Fin x) (Fin y) = f64_of_rat (r / x))"
    using assms(1) by (auto simp: rel_drift_def f64_sub_def f64_inf_def)
  moreover have "f64_of_rat (r / x) = PInf \<or> (\<exists>r' \<ge> 0. f64_of_rat (r / x) = Fin r')" if "0 \<le> r" for r
    using that assms(1) by (intro f64_of_rat_nonneg) simp
  ultimately show ?thesis using assms(3) by fastforce
qed

section \<open>What the gate decides\<close>

fun f64_val :: "f64 \<Rightarrow> rat" where
  "f64_val (Fin q) = q"
| "f64_val _ = 0"

definition ranged :: "f64 \<Rightarrow> bool" where
  "ranged x \<longleftrightarrow> x = Fin (f64_val x) \<and> 0 \<le> f64_val x \<and> f64_val x \<le> 2 ^ 400"

definition mode_ranged :: "mode_stats \<Rightarrow> bool" where
  "mode_ranged m \<longleftrightarrow> ranged (ms_p50 m) \<and> ranged (ms_p95 m) \<and> ranged (ms_p99 m) \<and> ranged (ms_p999 m)"

text \<open>A requirement on the base and fresh values of every percentile of every mode of the baseline.\<close>

definition each_latency :: "(rat \<Rightarrow> rat \<Rightarrow> bool) \<Rightarrow> bench_result \<Rightarrow> bench_result \<Rightarrow> bool" where
  "each_latency P b f \<longleftrightarrow>
     list_all (\<lambda>bm. case by_mode (br_modes f) (ms_mode bm) of
         None \<Rightarrow> False
       | Some fm \<Rightarrow> list_all (\<lambda>(name, x, y). P (f64_val x) (f64_val y)) (latencies_of bm fm)) (br_modes b)"

lemma latencies_ranged:
  "mode_ranged bm \<Longrightarrow> mode_ranged fm \<Longrightarrow> (name, x, y) \<in> set (latencies_of bm fm) \<Longrightarrow> ranged x \<and> ranged y"
  by (auto simp: latencies_of_def mode_ranged_def)

lemma by_mode_ranged: "list_all mode_ranged ms \<Longrightarrow> by_mode ms k = Some fm \<Longrightarrow> mode_ranged fm"
  using by_mode_Some [of ms k fm] by (auto simp: list_all_iff)

text \<open>One latency: the gate's float test against the exact one.\<close>

lemma drift_test:
  assumes "ranged x" "ranged y" "pw (-400) \<le> m" "\<not> f64_lt x (Fin m)"
  shows "\<not> f64_lt (Fin t) (rel_drift x y) \<Longrightarrow>
      f64_val y - f64_val x \<le> t * f64_val x + slack (f64_val x) (f64_val y)"
    and "f64_val y - f64_val x + slack (f64_val x) (f64_val y) \<le> t * f64_val x \<Longrightarrow> \<not> f64_lt (Fin t) (rel_drift x y)"
proof -
  obtain p q where xy: "x = Fin p" "y = Fin q" using assms(1,2) unfolding ranged_def by blast
  with assms have r: "pw (-400) \<le> p" "p \<le> 2 ^ 400" "\<bar>q\<bar> \<le> 2 ^ 400" by (auto simp: ranged_def)
  then obtain d where d: "rel_drift (Fin p) (Fin q) = Fin d" "\<bar>d * p - (q - p)\<bar> \<le> slack p q"
    using rel_drift_error by blast
  have p: "0 < p" using r(1) pw_pos [of "-400"] by linarith
  show "\<not> f64_lt (Fin t) (rel_drift x y) \<Longrightarrow> f64_val y - f64_val x \<le> t * f64_val x + slack (f64_val x) (f64_val y)"
  proof -
    assume "\<not> f64_lt (Fin t) (rel_drift x y)"
    then have "d * p \<le> t * p" using d(1) p xy by simp
    then show ?thesis using d(2) xy by (simp add: abs_le_iff)
  qed
  show "f64_val y - f64_val x + slack (f64_val x) (f64_val y) \<le> t * f64_val x \<Longrightarrow> \<not> f64_lt (Fin t) (rel_drift x y)"
  proof -
    assume "f64_val y - f64_val x + slack (f64_val x) (f64_val y) \<le> t * f64_val x"
    then have "d * p \<le> t * p" using d(2) xy by (simp add: abs_le_iff)
    then show ?thesis using d(1) p xy by simp
  qed
qed

lemma gate_ok_close:
  assumes "list_all mode_ranged (br_modes b)" "list_all mode_ranged (br_modes f)"
    and "pw (-400) \<le> m" "0 \<le> t"
    and tput: "br_docs_s b = Fin db" "br_docs_s f = Fin df" "db \<le> df" "br_chunks_s b = Fin cb" "br_chunks_s f = Fin cf" "cb \<le> cf"
    and lat: "each_latency (\<lambda>x y. y \<le> x \<or> y - x + slack x y \<le> t * x) b f"
  shows "gate_ok (Fin t) (Fin m) b f"
proof -
  have latency: "f64_lt x (Fin m) \<or> \<not> f64_lt (Fin t) (rel_drift x y)"
    if bm: "bm \<in> set (br_modes b)" and fm: "by_mode (br_modes f) (ms_mode bm) = Some fm"
      and l: "(name, x, y) \<in> set (latencies_of bm fm)" for bm fm name x y
  proof -
    have r: "ranged x" "ranged y" using latencies_ranged [OF _ by_mode_ranged [OF assms(2) fm] l] assms(1) bm
      by (auto simp: list_all_iff)
    then obtain p q where xy: "x = Fin p" "y = Fin q" "0 \<le> p" "0 \<le> q" unfolding ranged_def by metis
    from lat bm fm l have "f64_val y \<le> f64_val x \<or> f64_val y - f64_val x + slack (f64_val x) (f64_val y) \<le> t * f64_val x"
      by (force simp: each_latency_def list_all_iff)
    then show ?thesis using drift_test(2) [OF r assms(3), of t] rel_drift_nonpos [of p q t] xy assms(4) by auto
  qed
  have "\<not> f64_lt (Fin 0) (br_docs_s b) \<or> \<not> f64_lt (Fin t) (f64_neg (rel_drift (br_docs_s b) (br_docs_s f)))"
    using throughput_not_lower [of db df t] tput(1,2,3) assms(4) by auto
  moreover have "\<not> f64_lt (Fin 0) (br_chunks_s b) \<or> \<not> f64_lt (Fin t) (f64_neg (rel_drift (br_chunks_s b) (br_chunks_s f)))"
    using throughput_not_lower [of cb cf t] tput(4,5,6) assms(4) by auto
  moreover have "case by_mode (br_modes f) (ms_mode bm) of
        None \<Rightarrow> \<not> f64_lt (Fin t) PInf
      | Some fm \<Rightarrow> list_all (\<lambda>(name, x, y). f64_lt x (Fin m) \<or> \<not> f64_lt (Fin t) (rel_drift x y)) (latencies_of bm fm)"
    if "bm \<in> set (br_modes b)" for bm
  proof (cases "by_mode (br_modes f) (ms_mode bm)")
    case None
    with lat that show ?thesis by (auto simp: each_latency_def list_all_iff)
  next
    case (Some fm)
    with latency [OF that Some] show ?thesis by (auto simp: list_all_iff)
  qed
  ultimately show ?thesis by (simp add: gate_ok_iff list_all_iff)
qed

definition ex_stats :: "rat \<Rightarrow> int \<Rightarrow> mode_stats" where
  "ex_stats x n = \<lparr>ms_mode = str ''keyword'', ms_n = n, ms_p50 = Fin x, ms_p95 = Fin x, ms_p99 = Fin x, ms_p999 = Fin x,
     ms_max = Fin x\<rparr>"

definition ex_result :: "rat \<Rightarrow> int \<Rightarrow> bench_result" where
  "ex_result x n = \<lparr>br_docs = 100, br_queries = 10, br_docs_s = Fin 50, br_chunks_s = Fin 90, br_modes = [ex_stats x n]\<rparr>"

definition ex_load :: "rat \<Rightarrow> int \<Rightarrow> gostring \<Rightarrow> go_error + bench_result" where
  "ex_load x n path = (if path = [98] then Inr (ex_result 4 10) else Inr (ex_result x n))"

lemma ex_result_sel [simp]: "br_docs (ex_result x n) = 100" "br_docs_s (ex_result x n) = Fin 50"
    "br_chunks_s (ex_result x n) = Fin 90" "br_modes (ex_result x n) = [ex_stats x n]"
    "ms_mode (ex_stats x n) = str ''keyword''" "ms_n (ex_stats x n) = n" "ms_p50 (ex_stats x n) = Fin x"
    "ms_p95 (ex_stats x n) = Fin x" "ms_p99 (ex_stats x n) = Fin x" "ms_p999 (ex_stats x n) = Fin x"
  by (simp_all add: ex_result_def ex_stats_def)

lemma ex_stats_ranged [simp]: "0 \<le> x \<Longrightarrow> x \<le> 8 \<Longrightarrow> mode_ranged (ex_stats x n)"
  using order_trans [of x 8 "2 ^ 400"] by (simp add: mode_ranged_def ranged_def ex_stats_def)

lemma ex_by_mode: "by_mode [ex_stats y k] (str ''keyword'') = Some (ex_stats y k)"
  by (simp add: by_mode_def ex_stats_def)

lemma ex_each_latency: "each_latency P (ex_result x n) (ex_result y k) = P x y"
  by (simp add: each_latency_def ex_result_def latencies_of_def ex_stats_def by_mode_def del: str_Cons)

text \<open>A rate: the gate's test of the flipped drift against the exact one.\<close>

lemma rate_test:
  assumes "ranged x" "ranged y" "pw (-400) \<le> f64_val x" "\<not> f64_lt (Fin t) (f64_neg (rel_drift x y))"
  shows "f64_val x - f64_val y \<le> t * f64_val x + slack (f64_val x) (f64_val y)"
proof -
  obtain p q where xy: "x = Fin p" "y = Fin q" using assms(1,2) unfolding ranged_def by blast
  with assms have r: "pw (-400) \<le> p" "p \<le> 2 ^ 400" "\<bar>q\<bar> \<le> 2 ^ 400" by (auto simp: ranged_def)
  then obtain d where d: "rel_drift (Fin p) (Fin q) = Fin d" "\<bar>d * p - (q - p)\<bar> \<le> slack p q"
    using rel_drift_error by blast
  have "0 < p" using r(1) pw_pos [of "-400"] by linarith
  moreover have "- d \<le> t" using assms(4) d(1) xy by simp
  ultimately have "- d * p \<le> t * p" by (intro mult_right_mono) auto
  then show ?thesis using d(2) xy by (simp add: abs_le_iff)
qed

definition rates_of :: "bench_result \<Rightarrow> bench_result \<Rightarrow> (f64 \<times> f64) list" where
  "rates_of b f = [(br_docs_s b, br_docs_s f), (br_chunks_s b, br_chunks_s f)]"

definition each_rate :: "(rat \<Rightarrow> rat \<Rightarrow> bool) \<Rightarrow> bench_result \<Rightarrow> bench_result \<Rightarrow> bool" where
  "each_rate P b f \<longleftrightarrow> list_all (\<lambda>(x, y). ranged x \<and> ranged y \<and> pw (-400) \<le> f64_val x \<longrightarrow> P (f64_val x) (f64_val y)) (rates_of b f)"

text \<open>C34. The regression gate catches what it tracks: when \<open>bench-regress\<close> exits with 0, both artefacts could be
  read and declare the same number of documents, every mode of the baseline is in the fresh run, every tracked
  percentile whose baseline is not under the floor grew by no more than the tolerance, and both rates fell by no more
  than the tolerance, up to a relative error of \<open>2 ^ -50\<close> that the float arithmetic of the drift can hide. The
  figures are taken to be numbers from 0 to \<open>2 ^ 400\<close>, and the rates of the baseline not under \<open>2 ^ -400\<close>.\<close>

theorem gate_catches_slow:
  assumes "fst (regress_main load bp fp (Fin t) (Fin m)) = 0" "pw (-400) \<le> m"
    and "\<And>p r. load p = Inr r \<Longrightarrow> list_all mode_ranged (br_modes r)"
  shows "\<exists>b f. load bp = Inr b \<and> load fp = Inr f \<and> br_docs b = br_docs f
    \<and> each_latency (\<lambda>x y. x < m \<or> y - x \<le> t * x + slack x y) b f
    \<and> each_rate (\<lambda>x y. x - y \<le> t * x + slack x y) b f"
proof -
  from assms(1) obtain b f where l: "load bp = Inr b" "load fp = Inr f" and g: "br_docs b = br_docs f" "gate_ok (Fin t) (Fin m) b f"
    by (auto simp: regress_main_exit split: if_splits sum.splits)
  note range = assms(3) [OF l(1)] assms(3) [OF l(2)]
  have latency: "f64_val x < m \<or> f64_val y - f64_val x \<le> t * f64_val x + slack (f64_val x) (f64_val y)"
    if bm: "bm \<in> set (br_modes b)" and fm: "by_mode (br_modes f) (ms_mode bm) = Some fm"
      and l: "(name, x, y) \<in> set (latencies_of bm fm)" for bm fm name x y
  proof -
    have r: "ranged x" "ranged y" using latencies_ranged [OF _ by_mode_ranged [OF range(2) fm] l] range(1) bm
      by (auto simp: list_all_iff)
    then obtain p where x: "x = Fin p" unfolding ranged_def by blast
    from g(2) bm fm l have "f64_lt x (Fin m) \<or> \<not> f64_lt (Fin t) (rel_drift x y)"
      by (force simp: gate_ok_iff list_all_iff)
    then show ?thesis using drift_test(1) [OF r assms(2), of t] x by auto
  qed
  have "case by_mode (br_modes f) (ms_mode bm) of None \<Rightarrow> False | Some fm \<Rightarrow>
      list_all (\<lambda>(name, x, y). f64_val x < m \<or> f64_val y - f64_val x \<le> t * f64_val x + slack (f64_val x) (f64_val y))
        (latencies_of bm fm)" if "bm \<in> set (br_modes b)" for bm
  proof (cases "by_mode (br_modes f) (ms_mode bm)")
    case None
    with g(2) that show ?thesis by (auto simp: gate_ok_iff list_all_iff)
  next
    case (Some fm)
    with latency [OF that Some] show ?thesis by (auto simp: list_all_iff)
  qed
  then have "each_latency (\<lambda>x y. x < m \<or> y - x \<le> t * x + slack x y) b f" by (simp add: each_latency_def list_all_iff)
  moreover have "f64_lt (Fin 0) x" if "ranged x" "pw (-400) \<le> f64_val x" for x
    using that pw_pos [of "-400"] by (cases x) (auto simp: ranged_def)
  then have "each_rate (\<lambda>x y. x - y \<le> t * x + slack x y) b f"
    using g(2) rate_test [of _ _ t] by (simp add: each_rate_def rates_of_def gate_ok_iff)
  ultimately show ?thesis using l g(1) by blast
qed

text \<open>C35. The gate raises no false alarm: if both artefacts are read and have the same number of documents,
  throughput did not go down, and every percentile of every mode of the baseline is no slower, or slower by
  less than a non-negative tolerance by a relative \<open>2 ^ -50\<close>, then \<open>bench-regress\<close> exits with 0. A run
  compared with itself passes.\<close>

theorem gate_passes_close:
  assumes "bp \<noteq> []" "fp \<noteq> []" "load bp = Inr b" "load fp = Inr f" "br_docs b = br_docs f"
    and "list_all mode_ranged (br_modes b)" "list_all mode_ranged (br_modes f)"
    and "pw (-400) \<le> m" "0 \<le> t"
    and "br_docs_s b = Fin db" "br_docs_s f = Fin df" "db \<le> df" "br_chunks_s b = Fin cb" "br_chunks_s f = Fin cf" "cb \<le> cf"
    and "each_latency (\<lambda>x y. y \<le> x \<or> y - x + slack x y \<le> t * x) b f"
  shows "fst (regress_main load bp fp (Fin t) (Fin m)) = 0"
  using gate_ok_close [OF assms(6-16)] assms(1-5) by (simp add: regress_main_exit)

text \<open>A run that reports zero for every percentile passes against any baseline with the same modes and no
  better throughput: the drift of a zero is never positive, and the number of queries is not compared.\<close>

lemma zero_run_passes:
  assumes "bp \<noteq> []" "fp \<noteq> []" "load bp = Inr b" "load fp = Inr f" "br_docs b = br_docs f"
    and "list_all mode_ranged (br_modes b)" "map ms_mode (br_modes f) = map ms_mode (br_modes b)"
    and "list_all (\<lambda>x. ms_n x = 0 \<and> ms_p50 x = Fin 0 \<and> ms_p95 x = Fin 0 \<and> ms_p99 x = Fin 0 \<and> ms_p999 x = Fin 0) (br_modes f)"
    and "pw (-400) \<le> m" "0 \<le> t"
    and "br_docs_s b = Fin db" "br_docs_s f = Fin df" "db \<le> df" "br_chunks_s b = Fin cb" "br_chunks_s f = Fin cf" "cb \<le> cf"
  shows "fst (regress_main load bp fp (Fin t) (Fin m)) = 0"
proof -
  have fr: "list_all mode_ranged (br_modes f)" using assms(8) by (auto simp: list_all_iff mode_ranged_def ranged_def)
  have "case by_mode (br_modes f) (ms_mode bm) of None \<Rightarrow> False | Some fm \<Rightarrow>
      list_all (\<lambda>(name, x, y). f64_val y \<le> f64_val x \<or> f64_val y - f64_val x + slack (f64_val x) (f64_val y) \<le> t * f64_val x)
        (latencies_of bm fm)" if bm: "bm \<in> set (br_modes b)" for bm
  proof -
    have "ms_mode bm \<in> ms_mode ` set (br_modes f)" using arg_cong [OF assms(7), of set] bm by auto
    then obtain fm where fm: "by_mode (br_modes f) (ms_mode bm) = Some fm" using by_mode_dom by blast
    then have "fm \<in> set (br_modes f)" using by_mode_Some by blast
    then have "mode_ranged bm \<and> ms_p50 fm = Fin 0 \<and> ms_p95 fm = Fin 0 \<and> ms_p99 fm = Fin 0 \<and> ms_p999 fm = Fin 0"
      using assms(6,8) bm by (auto simp: list_all_iff)
    then show ?thesis using fm by (simp add: latencies_of_def mode_ranged_def ranged_def)
  qed
  then have "each_latency (\<lambda>x y. y \<le> x \<or> y - x + slack x y \<le> t * x) b f" by (simp add: each_latency_def list_all_iff)
  then show ?thesis
    using gate_ok_close [OF assms(6) fr assms(9-16)] assms(1-5) by (simp add: regress_main_exit)
qed

theorem gate_passes_close_witness: "fst (regress_main (ex_load 5 10) [98] [102] (Fin (3 / 10)) (Fin (1 / 2))) = 0"
  by (rule gate_passes_close [of _ _ _ "ex_result 4 10" "ex_result 5 10" _ _ 50 50 90 90])
    (simp_all add: ex_load_def ex_each_latency slack_def)

theorem gate_catches_slow_witness: "fst (regress_main (ex_load 6 10) [98] [102] (Fin (3 / 10)) (Fin (1 / 2))) \<noteq> 0"
proof
  assume exit: "fst (regress_main (ex_load 6 10) [98] [102] (Fin (3 / 10)) (Fin (1 / 2))) = 0"
  have "list_all mode_ranged (br_modes r)" if "ex_load 6 10 p = Inr r" for p r
    using that by (auto simp: ex_load_def split: if_splits)
  from gate_catches_slow [OF exit _ this]
  have "each_latency (\<lambda>x y. x < 1 / 2 \<or> y - x \<le> 3 / 10 * x + slack x y) (ex_result 4 10) (ex_result 6 10)"
    by (auto simp: ex_load_def)
  then show False by (simp add: ex_each_latency slack_def)
qed

end
