(* ===== verification/Wire.thy ===== *)
theory Wire
  imports Prelude
begin

text \<open>
  \<open>internal/api/wire.go\<close>: \<open>EncodeFrame\<close> and \<open>DecodeFrame\<close>, with \<open>binary.PutUvarint\<close> and
  \<open>binary.Uvarint\<close> on 64-bit words. The lemmas: a varint read back from any continuation of its
  bytes is the word written, and the frame codec round-trips, bounds the payload and reports a
  short read.
\<close>

unbundle bit_operations_syntax

section \<open>Unsigned varints\<close>

lemma unat_drop7: "unat (drop_bit 7 (x :: 64 word)) = unat x div 128"
proof -
  have "unat (drop_bit 7 x) = drop_bit 7 (unat x)" by (rule unat_drop_bit_eq)
  also have "\<dots> = unat x div 128" by (simp add: drop_bit_eq_div)
  finally show ?thesis .
qed

function put_uvarint :: "64 word \<Rightarrow> byte list" where
  "put_uvarint x =
     (if 0x80 \<le> x then (ucast x OR 0x80) # put_uvarint (drop_bit 7 x) else [ucast x])"
  by pat_completeness auto
termination
proof (relation "measure unat")
  fix x :: "64 word"
  assume "0x80 \<le> x"
  then have "0 < unat x" by (simp add: word_le_nat_alt)
  then have "unat (drop_bit 7 x) < unat x" unfolding unat_drop7 by simp
  then show "(drop_bit 7 x, x) \<in> measure unat" by (simp only: in_measure)
qed simp

declare put_uvarint.simps [simp del]

text \<open>\<open>binary.MaxVarintLen64\<close>.\<close>

definition max_varint_len64 :: nat where
  "max_varint_len64 = 10"

text \<open>\<open>Uvarint\<close>: the value and the bytes read; 0 when the buffer ends early, negative on overflow.\<close>

fun uvarint_loop :: "byte list \<Rightarrow> nat \<Rightarrow> 64 word \<Rightarrow> nat \<Rightarrow> 64 word \<times> int" where
  "uvarint_loop [] i x s = (0, 0)"
| "uvarint_loop (b # bs) i x s =
     (if i = max_varint_len64 then (0, - (int i + 1))
      else if b < 0x80 then
        (if i = max_varint_len64 - 1 \<and> 1 < b then (0, - (int i + 1))
         else (x OR push_bit s (ucast b), int i + 1))
      else uvarint_loop bs (Suc i) (x OR push_bit s (ucast (b AND 0x7F))) (s + 7))"

definition uvarint :: "byte list \<Rightarrow> 64 word \<times> int" where
  "uvarint bs = uvarint_loop bs 0 0 0"

section \<open>Frames\<close>

definition frame_magic :: byte where "frame_magic = 0xD1"
definition frame_version :: byte where "frame_version = 0x01"
definition max_frame_payload :: nat where "max_frame_payload = 64 * 1024"

datatype frame_error = ErrFrameInvalid | ErrUnexpectedEOF

definition encode_frame :: "byte list \<Rightarrow> byte list" where
  "encode_frame payload =
     frame_magic # frame_version # put_uvarint (of_nat (length payload)) @ payload"

definition decode_frame :: "byte list \<Rightarrow> frame_error + byte list" where
  "decode_frame b =
     (if length b < 3 then Inl ErrFrameInvalid
      else if b ! 0 \<noteq> frame_magic then Inl ErrFrameInvalid
      else if b ! 1 \<noteq> frame_version then Inl ErrFrameInvalid
      else
        (let rest = drop 2 b; (n, consumed) = uvarint rest
         in if consumed \<le> 0 then Inl ErrFrameInvalid
            else if max_frame_payload < unat n then Inl ErrFrameInvalid
            else
              (let rest = drop (nat consumed) rest
               in if length rest < unat n then Inl ErrUnexpectedEOF
                  else Inr (take (unat n) rest))))"

section \<open>Facts on varints\<close>

lemma put_uvarint_nonempty [simp]: "put_uvarint x \<noteq> []"
  by (subst put_uvarint.simps) simp

lemma low_bits: "(ucast ((ucast (y :: 64 word) OR 0x80 :: byte) AND 0x7F) :: 64 word) = take_bit 7 y"
proof -
  have "(0x7F :: byte) = mask 7" "(0x80 :: byte) = push_bit 7 1" by (simp_all add: mask_eq_exp_minus_1)
  then have "(ucast y OR 0x80 :: byte) AND 0x7F = take_bit 7 (ucast y OR push_bit 7 1)"
    by (simp only: take_bit_eq_mask)
  also have "\<dots> = take_bit 7 (ucast y)"
    by (rule bit_word_eqI) (auto simp: bit_simps)
  finally have "(ucast ((ucast y OR 0x80 :: byte) AND 0x7F) :: 64 word) = ucast (take_bit 7 (ucast y :: byte))"
    by (simp only:)
  also have "\<dots> = take_bit 7 y" by (rule bit_word_eqI) (auto simp: bit_simps)
  finally show ?thesis .
qed

lemma high_byte: "\<not> (ucast (y :: 64 word) OR 0x80 :: byte) < 0x80"
proof -
  have "(0x80 :: byte) \<le> ucast y OR 0x80" by (metis le_word_or1)
  then show ?thesis by simp
qed

lemma split_word: "push_bit s (take_bit 7 y) OR push_bit (s + 7) (drop_bit 7 y) = push_bit s (y :: 64 word)"
proof (rule bit_word_eqI)
  fix n assume "n < LENGTH(64)"
  then show "bit (push_bit s (take_bit 7 y) OR push_bit (s + 7) (drop_bit 7 y)) n = bit (push_bit s y) n"
    by (cases "n < s + 7") (auto simp: bit_simps)
qed

lemma uvarint_put:
  "s = 7 * i \<Longrightarrow> i \<le> 9 \<Longrightarrow> unat y < 2 ^ (64 - 7 * i) \<Longrightarrow>
     uvarint_loop (put_uvarint y @ rest) i x s = (x OR push_bit s y, int (i + length (put_uvarint y)))"
proof (induction y arbitrary: i x s rule: put_uvarint.induct)
  case (1 y)
  show ?case
  proof (cases "0x80 \<le> y")
    case True
    have y: "128 \<le> unat y" using True by (simp add: word_le_nat_alt)
    have i: "i \<le> 8"
    proof (rule ccontr)
      assume "\<not> i \<le> 8"
      then have "i = 9" using "1.prems" by simp
      then show False using "1.prems" y by simp
    qed
    have "(2 :: nat) ^ (64 - 7 * i) = 2 ^ (64 - 7 * Suc i) * 128"
    proof -
      have "64 - 7 * i = (64 - 7 * Suc i) + 7" using i by simp
      then show ?thesis by (simp only: power_add) simp
    qed
    then have d: "unat (drop_bit 7 y) < 2 ^ (64 - 7 * Suc i)"
      using "1.prems" unfolding unat_drop7 by (simp add: div_less_iff_less_mult)
    have "uvarint_loop (put_uvarint y @ rest) i x s
        = uvarint_loop (put_uvarint (drop_bit 7 y) @ rest) (Suc i) (x OR push_bit s (take_bit 7 y)) (s + 7)"
      using True i high_byte [of y] by (subst put_uvarint.simps) (simp add: low_bits max_varint_len64_def)
    also have "\<dots> = ((x OR push_bit s (take_bit 7 y)) OR push_bit (s + 7) (drop_bit 7 y),
        int (Suc i + length (put_uvarint (drop_bit 7 y))))"
      using True i d "1.prems" by (intro "1.IH") auto
    also have "(x OR push_bit s (take_bit 7 y)) OR push_bit (s + 7) (drop_bit 7 y) = x OR push_bit s y"
      using split_word [of s y] by (simp add: or.assoc)
    also have "Suc i + length (put_uvarint (drop_bit 7 y)) = i + length (put_uvarint y)"
      using True by (subst (2) put_uvarint.simps) simp
    finally show ?thesis .
  next
    case False
    then have y: "unat y < 128" by (simp add: word_le_nat_alt)
    have small: "(ucast y :: byte) < 0x80"
      using y by (simp add: word_less_nat_alt unsigned_ucast_eq take_bit_eq_mod)
    have rt: "(ucast (ucast y :: byte) :: 64 word) = y"
    proof -
      have "unat (ucast (ucast y :: byte) :: 64 word) = unat y"
        using y by (simp add: unsigned_ucast_eq take_bit_eq_mod unat_mod)
      then show ?thesis by (simp only: unsigned_word_eqI)
    qed
    have last: "\<not> (i = 9 \<and> 1 < (ucast y :: byte))"
      using "1.prems" y by (auto simp: word_less_nat_alt unsigned_ucast_eq take_bit_eq_mod)
    show ?thesis
      using False small rt last "1.prems"
      by (simp add: put_uvarint.simps [of y] max_varint_len64_def)
  qed
qed

lemma uvarint_put_append: "uvarint (put_uvarint y @ rest) = (y, int (length (put_uvarint y)))"
  using uvarint_put [of 0 0 y rest 0] unsigned_less [of y] by (simp add: uvarint_def)

lemma uvarint_consumed:
  "uvarint_loop bs i x s = (n, c) \<Longrightarrow> c \<le> int (i + length bs)"
  by (induction bs i x s rule: uvarint_loop.induct) (auto split: if_splits)

section \<open>Properties\<close>

text \<open>
  C28. Decoding an encoded payload, whatever follows it in the buffer, gives the payload back when it
  is within \<open>MaxFramePayload\<close> and is refused as invalid when it is longer.
\<close>

theorem frame_roundtrip:
  assumes "length payload < 2 ^ 64"
  shows "decode_frame (encode_frame payload @ rest)
    = (if length payload \<le> max_frame_payload then Inr payload else Inl ErrFrameInvalid)"
proof -
  have n: "unat (of_nat (length payload) :: 64 word) = length payload"
    using assms by (simp add: unat_of_nat)
  have d: "drop 2 (encode_frame payload @ rest) = put_uvarint (of_nat (length payload)) @ (payload @ rest)"
    by (simp add: encode_frame_def)
  have l: "\<not> length (encode_frame payload @ rest) < 3"
    by (cases "put_uvarint (of_nat (length payload))") (simp_all add: encode_frame_def)
  have h: "(encode_frame payload @ rest) ! 0 = frame_magic" "(encode_frame payload @ rest) ! 1 = frame_version"
    by (simp_all add: encode_frame_def)
  show ?thesis
    using l h n unfolding decode_frame_def d by (simp add: uvarint_put_append Let_def)
qed

theorem frame_roundtrip_witness:
  "decode_frame (encode_frame [0x68, 0x69] @ [0xFF]) = Inr [0x68, 0x69]"
  using frame_roundtrip [of "[0x68, 0x69]" "[0xFF]"] by (simp add: max_frame_payload_def)

text \<open>
  A frame whose payload is cut short is reported as \<open>io.ErrUnexpectedEOF\<close>, although the comment on
  \<open>DecodeFrame\<close> promises \<open>ErrFrameInvalid\<close> for a short read.
\<close>

theorem frame_short_read:
  assumes "length payload \<le> max_frame_payload" "k < length payload"
  shows "decode_frame (take (length (encode_frame payload) - length payload + k) (encode_frame payload))
    = Inl ErrUnexpectedEOF"
proof -
  have n: "unat (of_nat (length payload) :: 64 word) = length payload"
    using assms by (simp add: unat_of_nat max_frame_payload_def)
  let ?v = "put_uvarint (of_nat (length payload))"
  have t: "take (length (encode_frame payload) - length payload + k) (encode_frame payload)
      = frame_magic # frame_version # ?v @ take k payload"
    by (simp add: encode_frame_def)
  have l: "\<not> length (frame_magic # frame_version # ?v @ take k payload) < 3" by (cases ?v) auto
  have d: "drop 2 (frame_magic # frame_version # ?v @ take k payload) = ?v @ take k payload" by simp
  show ?thesis
    using l n assms unfolding t decode_frame_def d by (simp add: uvarint_put_append Let_def)
qed

theorem frame_short_read_witness:
  "decode_frame (take (length (encode_frame [0x68, 0x69]) - length [0x68, 0x69 :: byte] + 1) (encode_frame [0x68, 0x69]))
    = Inl ErrUnexpectedEOF"
  by (rule frame_short_read) (simp_all add: max_frame_payload_def)

text \<open>
  What the decoder accepts is bounded by \<open>MaxFramePayload\<close>, is a contiguous part of the input after
  the two header bytes, and survives being framed again.
\<close>

theorem decode_frame_accepts:
  assumes "decode_frame b = Inr payload"
  shows "length payload \<le> max_frame_payload
    \<and> (\<exists>v rest. b = frame_magic # frame_version # v @ payload @ rest
         \<and> fst (uvarint (drop 2 b)) = of_nat (length payload))
    \<and> decode_frame (encode_frame payload) = Inr payload"
proof -
  obtain n c where u: "uvarint (drop 2 b) = (n, c)" by (cases "uvarint (drop 2 b)")
  have b: "3 \<le> length b" "b ! 0 = frame_magic" "b ! 1 = frame_version" "0 < c"
      "unat n \<le> max_frame_payload" "unat n \<le> length (drop (nat c) (drop 2 b))"
      "payload = take (unat n) (drop (nat c) (drop 2 b))"
    using assms u by (auto simp: decode_frame_def Let_def split: if_splits)
  obtain b0 b1 r where r: "b = b0 # b1 # r" using b(1) by (cases b; cases "tl b") auto
  have len: "length payload = unat n" using b(6,7) by simp
  have "b = frame_magic # frame_version # take (nat c) r @ payload @ drop (unat n) (drop (nat c) r)"
    using b r by (metis append_take_drop_id drop_Suc_Cons drop_0 nth_Cons_0 nth_Cons_Suc One_nat_def numeral_2_eq_2)
  moreover have "fst (uvarint (drop 2 b)) = of_nat (length payload)" using u len by simp
  moreover have "decode_frame (encode_frame payload) = Inr payload"
    using frame_roundtrip [of payload "[]"] len b(5) unsigned_less [of n] by simp
  ultimately show ?thesis using len b(5) by auto
qed

theorem decode_frame_accepts_witness:
  "length [0x42 :: byte] \<le> max_frame_payload
    \<and> (\<exists>v rest. [0xD1, 0x01, 0x01, 0x42, 0x07] = frame_magic # frame_version # v @ [0x42] @ rest
         \<and> fst (uvarint (drop 2 [0xD1, 0x01, 0x01, 0x42, 0x07])) = of_nat (length [0x42 :: byte]))
    \<and> decode_frame (encode_frame [0x42]) = Inr [0x42]"
  by (rule decode_frame_accepts)
    (simp add: decode_frame_def uvarint_def frame_magic_def frame_version_def max_frame_payload_def
      max_varint_len64_def)

end
