(* ===== verification/Spec2Isabelle.thy ===== *)
theory Spec2Isabelle
  imports Deployment Api_Vectors Api_Pages Server Bench Chunker Sanitize Wire Cursor Rrf Rerank Store_Steps Store_Reads Embed_Client Hybrid
begin

text \<open>
  The document index service: an HTTP API that stores documents, splits them into chunks with an embedding
  each, answers keyword, vector and hybrid queries over them, and lets documents be listed, deleted and
  compacted; a bulk loader; a benchmark; the gate that compares two benchmarks, all in Go; and the sidecar in
  Python that embeds and scores texts.
  Paths are relative to \<open>src/\<close>.

  \<^bold>\<open>How the parts work together.\<close> A request passes \<open>Recoverer\<close>, \<open>RequestID\<close> and the mux
  (\<open>internal/api\<close>) to a handler. The index handler splits the body (\<open>internal/chunker\<close>), has the chunks
  embedded in batches (\<open>pkg/embed\<close>) and writes both in one transaction (\<open>internal/store\<close>). The query handler
  asks the engine (\<open>internal/search\<close>), which sanitises the query, runs the two searches of the store, fuses
  the ranked lists and may rerank the head of the result (\<open>internal/rerank\<close>). Listing pages through the
  store with a cursor token. \<open>cmd/indexer\<close> and \<open>bench\<close> load synthetic documents (\<open>internal/seed\<close>) by
  the same way without HTTP; \<open>cmd/bench-regress\<close> reads what \<open>bench\<close> writes.

  \<^bold>\<open>Foundations.\<close>
  \<^item> \<open>Prelude\<close>: Go strings as byte lists, lists searched by key, the insertion sort with a caller's order
    that stands for \<open>sort.Slice\<close> and \<open>ORDER BY\<close>, and the locale \<open>weak_order\<close> of the orders it needs.
  \<^item> \<open>Float64\<close>: \<open>float64\<close> with rounding to nearest even, overflow and \<open>NaN\<close>, executable; monotonicity and
    relative error of rounding. The sign of zero is not kept.
  \<^item> \<open>Utf8\<close>: decoding and encoding of runes, white space, \<open>strings.TrimSpace\<close>.
  \<^item> \<open>Go_Errors\<close>: error values with wrapping and the sentinels, and the exchange with the sidecar as data.
  \<^item> \<open>Float32\<close>, \<open>Blake2b\<close>: the numbers of the vectors, and the hash of the sidecar's embedder.
  \<^item> \<open>Decimal\<close>, \<open>Gotime\<close>, \<open>Sha256\<close>, \<open>Json\<close>: what the program uses of \<open>strconv\<close>, \<open>fmt\<close>, \<open>time\<close>, \<open>crypto/sha256\<close> and
    \<open>encoding/json\<close>, executable: shortest decimals, the calendar and RFC 3339, the hash, and JSON texts with their
    escapes, the scanner (fuel is the length of the text, proved enough) and decoding into structs. The
    lemmas: numbers, times and values are read back as they were written, compact or indented, and strings up
    to U+FFFD for what is not UTF-8. The model writes the artefact \<open>bench/results/baseline-5k.json\<close> of the
    repository to the byte.

  \<^bold>\<open>Components.\<close>
  \<^item> \<open>Chunker\<close> (\<open>internal/chunker/chunker.go\<close>): \<open>Split\<close>. It returns for every input (the window loop is
    \<open>partial_function (option)\<close>, so returning is a theorem), its pieces cover the text and respect the bounds.
  \<^item> \<open>Sanitize\<close> (\<open>internal/search/sanitize.go\<close>): the query sanitiser; its output alphabet, idempotence and length.
  \<^item> \<open>Wire\<close>, \<open>Cursor\<close> (\<open>internal/api/wire.go\<close>, \<open>cursor.go\<close>): binary frames and page tokens; round trips, and
    what a decoder accepts. Varints are 64-bit words.
  \<^item> \<open>Rrf\<close> (\<open>internal/search/rrf.go\<close>): reciprocal rank fusion in float arithmetic. Go's map order is an
    argument, and the result does not depend on it.
  \<^item> \<open>Rerank\<close> (\<open>internal/rerank\<close>): the heuristic and the cross-encoder rerankers, both instances of the
    locale \<open>reranker\<close>; scores in the unit interval, independence of the candidates' order.
  \<^item> \<open>Store\<close> (\<open>internal/store\<close>, \<open>migrations\<close>): the three tables and every operation, each round trip with a
    fault of its own, a commit possibly applied though reported as failed. \<open>Store_Laws\<close>: the invariant
    \<open>db_ok\<close>, the abstract map of visible documents the operations refine, atomicity, idempotence, termination of
    compaction. \<open>Store_Steps\<close>: the operations as a step relation, and what holds in every reachable state.
    \<open>Store_Reads\<close>: paging and the two searches.
  \<^item> \<open>Embed_Client\<close> (\<open>pkg/embed/client.go\<close>, \<open>embedBatched\<close>): the client, and the locale \<open>embedder\<close>. \<open>Sidecar\<close>: the JSON
    of its requests and replies and of the cross-encoder's and the endpoints of
    \<open>services/embed-sidecar/app/main.py\<close> from bytes to bytes; client and sidecar understand each other.
    \<open>Hash_Models\<close> (\<open>settings.py\<close>, \<open>embedder.py\<close>, \<open>reranker.py\<close>): what the sidecar runs under \<open>EMBEDDER_KIND=hash\<close>;
    its vectors have length one and its scores are those of the Go reranker.
  \<^item> \<open>Hybrid\<close> (\<open>internal/search/hybrid.go\<close>): \<open>Engine.Query\<close> over the locale \<open>backend\<close>, which the store model
    interprets.
  \<^item> \<open>Http\<close> (\<open>errors.go\<close>, \<open>middleware.go\<close>) and \<open>Api\<close> (\<open>handlers.go\<close>, \<open>deps.go\<close>): a handler takes a request, a
    response writer and the state of the store and returns, panics or hangs. \<open>Api_Laws\<close>: the interfaces
    \<open>DocStore\<close> and \<open>Embedder\<close> as the locales \<open>doc_index\<close> and \<open>api\<close>, interpreted on the store model and on the
    sidecar's client for every choice of faults. \<open>Api_Flows\<close>: requests through the whole stack.
    \<open>Api_Sessions\<close>: any number of them one after another, as steps of an abstract catalogue of the documents
    shown and gone. \<open>Api_Pages\<close>: a client that follows the page tokens, and panics. \<open>Api_Json\<close>: the JSON of every
    request and reply, and \<open>go_env\<close>, the environment of the program. \<open>Api_Bytes\<close>: what a client decodes from the
    bytes of a reply, and which texts reach the tables. \<open>Api_Vectors\<close>: from the bytes of a request through the
    chunker and the sidecar to the rows of the chunk table.
  \<^item> \<open>Server\<close> (\<open>cmd/server/main.go\<close>): settings, opening the store, the choice of the reranker, the HTTP
    server and the exit status; what any such server answers. \<open>Deployment\<close>: the clients of the sidecar at their address,
    the command over a network, a server whose sidecar runs in hash mode, and one whose sidecar is gone.
  \<^item> \<open>Seed\<close> (\<open>internal/seed/seed.go\<close>): the synthetic corpus, for any source of random numbers.
  \<^item> \<open>Indexer\<close> (\<open>cmd/indexer/main.go\<close>): one document as the server's handler treats it, and the worker pool as a
    step relation with cancellation: every run ends, accounts for every document, and leaves its row and chunks.
  \<^item> \<open>Bench\<close> (\<open>bench/bench.go\<close>) and \<open>Regress\<close> (\<open>cmd/bench-regress/main.go\<close>): the statistics of a run, the
    artefact and the report to the byte, and what the gate accepts and refuses, up to the rounding of a drift. Each
    query of a run has a time and failures of the database of its own.

  \<^bold>\<open>Bounds and fuel.\<close> Loops that might not end are \<open>partial_function (option)\<close> (chunking, compaction) and are
  proved to return; the other loops are structural or have a measure. \<open>walk\<close> and \<open>client_walk\<close>, which follow pages,
  take fuel; one more than the number of documents is proved to be enough. Ranks, limits and counts are
  unbounded integers where the code's 64-bit ones cannot overflow within the stated bounds (list limits
  below \<open>2 ^ 62\<close>, token counts below \<open>2 ^ 31\<close>, at most \<open>2 ^ 53\<close> measured queries). The gate's latencies are
  taken below \<open>2 ^ 400\<close> milliseconds and its floor above \<open>2 ^ -400\<close>.

  \<^bold>\<open>Parameters.\<close> PostgreSQL's text search, vector distance and row order (\<open>pg\<close>), the failures, generated ids and
  clock of a request (\<open>io\<close>), the Unicode tables (\<open>unicode\<close>), the text of a uuid (\<open>google/uuid\<close>), the local zone,
  the runes \<open>strconv.Quote\<close> prints, random numbers, the machine and the clock of a benchmark, and behind the
  sidecar the models of \<open>sentence_transformers\<close>, the norm of \<open>numpy\<close> and the digits of a printed float. Many laws hold for any environment \<open>env\<close> of the handlers; those on bytes are about \<open>go_env\<close>.
  What a property needs of a parameter is a hypothesis of it.

  \<^bold>\<open>Not modelled.\<close> Inside \<open>net/http\<close>: the redirect of a path that is not clean (a request here has the segments of a clean
  one) and dropping the body of a reply to HEAD. Listeners, the delivery of signals, timeouts of
  connections, parsing of flags; cancellation of a request's context other than as a failed round trip;
  what PostgreSQL refuses beyond its constraints (a NUL in a text, more than 65535 arguments), which is a
  failed round trip; isolation between concurrent transactions, which PostgreSQL provides: operations are
  steps in the order of their commits.
\<close>

end
